(* ===== verification/SODP_Prelude.thy ===== *)
theory SODP_Prelude
  imports Complex_Main "HOL-Library.Word" "HOL-Library.AList" "HOL-Library.List_Lexorder"
    "HOL-Library.Char_ord"
begin

section \<open>Shared vocabulary of the development\<close>

text \<open>
  This theory holds what every component of the SODP server uses and none of them owns:
  the widths of Rust's unsigned integers, the model of \<^verbatim>\<open>BTreeMap\<close> (the map behind
  \<^verbatim>\<open>serde_json::Map\<close>) as an association list in strictly ascending key order, the model of
  \<^verbatim>\<open>HashMap\<close>/\<^verbatim>\<open>DashMap\<close> as an association list with distinct keys, the string operations of the
  Rust standard library that the sources call (\<^verbatim>\<open>split\<close>, \<^verbatim>\<open>split_once\<close>, \<^verbatim>\<open>strip_prefix\<close>,
  \<^verbatim>\<open>parse\<close>), and the interface locales that several components implement.

  Strings are \<open>string\<close>, that is lists of bytes: a Rust \<^verbatim>\<open>String\<close> is its UTF-8 bytes, and both
  \<^verbatim>\<open>Ord\<close> and \<^verbatim>\<open>Eq\<close> of \<^verbatim>\<open>str\<close> compare those bytes. All separators the server splits at
  (\<^verbatim>\<open>'/'\<close>, \<^verbatim>\<open>'.'\<close>, \<^verbatim>\<open>':'\<close>) are ASCII, and an ASCII byte never occurs inside a multi-byte
  UTF-8 sequence, so splitting the bytes is splitting the characters.
\<close>

named_theorems bt_simps \<open>lookup and order facts of the BTreeMap model\<close>
named_theorems str_simps \<open>facts on the string operations\<close>
named_theorems sodp_defs \<open>definitions that component proofs unfold\<close>

type_synonym u8 = "8 word"
type_synonym u32 = "32 word"
type_synonym u64 = "64 word"
type_synonym bytes = "u8 list"

subsection \<open>BTreeMap: ascending association lists\<close>

type_synonym ('k, 'v) btree = "('k \<times> 'v) list"

definition bt_ok :: "('k::linorder, 'v) btree \<Rightarrow> bool" where
  "bt_ok m \<longleftrightarrow> sorted_wrt (<) (map fst m)"

text \<open>\<^verbatim>\<open>BTreeMap::insert\<close>: overwrites the value of an existing key, keeps the order.\<close>

fun bt_insert :: "'k::linorder \<Rightarrow> 'v \<Rightarrow> ('k, 'v) btree \<Rightarrow> ('k, 'v) btree" where
  "bt_insert k v [] = [(k, v)]"
| "bt_insert k v (e # m) =
     (if fst e < k then e # bt_insert k v m
      else if fst e = k then (k, v) # m
      else (k, v) # e # m)"

text \<open>\<^verbatim>\<open>BTreeMap::remove\<close>; \<^verbatim>\<open>BTreeMap::get\<close> is \<^const>\<open>map_of\<close>, iteration is list order.\<close>

definition bt_remove :: "'k::linorder \<Rightarrow> ('k, 'v) btree \<Rightarrow> ('k, 'v) btree" where
  "bt_remove k m = filter (\<lambda>e. fst e \<noteq> k) m"

subsection \<open>String operations of the Rust standard library\<close>

text \<open>\<^verbatim>\<open>str::split(c)\<close>: never the empty list; \<^verbatim>\<open>"".split(c)\<close> is one empty piece.\<close>

fun split_on :: "char \<Rightarrow> string \<Rightarrow> string list" where
  "split_on c [] = [[]]"
| "split_on c (x # xs) =
     (if x = c then [] # split_on c xs
      else (case split_on c xs of [] \<Rightarrow> [[x]] | w # ws \<Rightarrow> (x # w) # ws))"

text \<open>\<^verbatim>\<open>str::split_once(c)\<close>: at the first occurrence.\<close>

fun split_once :: "char \<Rightarrow> string \<Rightarrow> (string \<times> string) option" where
  "split_once c [] = None"
| "split_once c (x # xs) =
     (if x = c then Some ([], xs)
      else map_option (\<lambda>(a, b). (x # a, b)) (split_once c xs))"

definition trim_start :: "char \<Rightarrow> string \<Rightarrow> string" where
  "trim_start c s = dropWhile (\<lambda>x. x = c) s"

fun strip_prefix :: "string \<Rightarrow> string \<Rightarrow> string option" where
  "strip_prefix [] s = Some s"
| "strip_prefix (p # ps) [] = None"
| "strip_prefix (p # ps) (x # xs) = (if p = x then strip_prefix ps xs else None)"

definition strip_suffix :: "string \<Rightarrow> string \<Rightarrow> string option" where
  "strip_suffix p s = map_option rev (strip_prefix (rev p) (rev s))"

text \<open>The inverse of splitting, used to state what splitting does.\<close>

fun join_on :: "char \<Rightarrow> string list \<Rightarrow> string" where
  "join_on c [] = []"
| "join_on c [w] = w"
| "join_on c (w # v # ws) = w @ c # join_on c (v # ws)"

text \<open>
  Decimal digits: \<^verbatim>\<open>str::parse::<u64>()\<close> accepts an optional leading \<^verbatim>\<open>+\<close> and at least one
  ASCII digit, and fails when the value does not fit; \<open>show_nat\<close> is \<^verbatim>\<open>{}\<close> formatting and
  \<open>pad_left\<close> the zero padding of \<^verbatim>\<open>{:010}\<close>.
\<close>

definition is_digit :: "char \<Rightarrow> bool" where
  "is_digit c \<longleftrightarrow> 48 \<le> (of_char c :: nat) \<and> (of_char c :: nat) \<le> 57"

definition digit_val :: "char \<Rightarrow> nat" where
  "digit_val c = of_char c - 48"

definition digits_val :: "string \<Rightarrow> nat" where
  "digits_val s = foldl (\<lambda>a c. a * 10 + digit_val c) 0 s"

definition parse_bounded :: "nat \<Rightarrow> string \<Rightarrow> nat option" where
  "parse_bounded bound s =
     (let ds = (case s of [] \<Rightarrow> [] | c # cs \<Rightarrow> if c = CHR ''+'' then cs else s)
      in if ds \<noteq> [] \<and> list_all is_digit ds \<and> digits_val ds < bound
         then Some (digits_val ds) else None)"

fun show_nat :: "nat \<Rightarrow> string" where
  "show_nat n = (if n < 10 then [char_of (48 + n)] else show_nat (n div 10) @ [char_of (48 + n mod 10)])"

declare show_nat.simps [simp del]

definition pad_left :: "nat \<Rightarrow> string \<Rightarrow> string" where
  "pad_left w s = replicate (w - length s) (CHR ''0'') @ s"

subsection \<open>Interfaces\<close>

text \<open>
  A map, whatever its representation: what a lookup returns after an insertion or a removal.
  The laws are those the server's code relies on of \<^verbatim>\<open>BTreeMap\<close>, \<^verbatim>\<open>HashMap\<close> and \<^verbatim>\<open>DashMap\<close>.
\<close>

locale keyed_map =
  fixes get :: "'m \<Rightarrow> 'k \<Rightarrow> 'v option"
    and ins :: "'k \<Rightarrow> 'v \<Rightarrow> 'm \<Rightarrow> 'm"
    and rem :: "'k \<Rightarrow> 'm \<Rightarrow> 'm"
    and ok :: "'m \<Rightarrow> bool"
  assumes get_ins: "get (ins k v m) = (get m)(k \<mapsto> v)"
    and get_rem: "get (rem k m) = (get m)(k := None)"
    and ok_ins: "ok m \<Longrightarrow> ok (ins k v m)"
    and ok_rem: "ok m \<Longrightarrow> ok (rem k m)"
begin

lemma get_ins_same: "get (ins k v m) k = Some v"
  by (simp add: get_ins)

lemma get_ins_other: "k \<noteq> k' \<Longrightarrow> get (ins k v m) k' = get m k'"
  by (simp add: get_ins)

lemma get_ins_rem: "get (ins k v (rem k m)) = get (ins k v m)"
  by (simp add: get_ins get_rem)

lemma get_rem_absent: "get m k = None \<Longrightarrow> get (rem k m) = get m"
  by (auto simp add: get_rem)

lemma ok_ins_rem: "ok m \<Longrightarrow> ok (ins k v (rem k m))"
  by (simp add: ok_ins ok_rem)

end

text \<open>
  A transition system with an invariant: a property that holds at the start and that every
  step keeps holds after every run.
\<close>

fun run_ok :: "('s \<Rightarrow> 'e \<Rightarrow> 's) \<Rightarrow> ('s \<Rightarrow> 'e \<Rightarrow> bool) \<Rightarrow> 's \<Rightarrow> 'e list \<Rightarrow> bool" where
  "run_ok step enabled s [] = True"
| "run_ok step enabled s (e # es) = (enabled s e \<and> run_ok step enabled (step s e) es)"

lemma run_ok_append:
  "run_ok step enabled s (es @ fs) \<longleftrightarrow>
     run_ok step enabled s es \<and> run_ok step enabled (foldl step s es) fs"
  by (induction es arbitrary: s) auto

locale inv_system =
  fixes step :: "'s \<Rightarrow> 'e \<Rightarrow> 's"
    and inv :: "'s \<Rightarrow> bool"
    and enabled :: "'s \<Rightarrow> 'e \<Rightarrow> bool"
  assumes step_inv: "inv s \<Longrightarrow> enabled s e \<Longrightarrow> inv (step s e)"
begin

lemma run_inv: "inv s \<Longrightarrow> run_ok step enabled s es \<Longrightarrow> inv (foldl step s es)"
  by (induction es arbitrary: s) (auto intro: step_inv)

end

text \<open>The same for a step relation.\<close>

locale inv_relation =
  fixes step :: "'s \<Rightarrow> 's \<Rightarrow> bool"
    and inv :: "'s \<Rightarrow> bool"
  assumes step_inv: "inv s \<Longrightarrow> step s s' \<Longrightarrow> inv s'"
begin

lemma reach_inv: "step\<^sup>*\<^sup>* s s' \<Longrightarrow> inv s \<Longrightarrow> inv s'"
  by (induction rule: rtranclp_induct) (auto intro: step_inv)

end

text \<open>A step function with enabled steps is a step relation with the same invariant.\<close>

sublocale inv_system \<subseteq> relational: inv_relation "\<lambda>s s'. \<exists>e. enabled s e \<and> s' = step s e" inv
  by unfold_locales (blast intro: step_inv)

subsection \<open>Facts on the BTreeMap model\<close>

lemma bt_ok_Nil [simp]: "bt_ok []"
  by (simp add: bt_ok_def)

lemma bt_ok_Cons: "bt_ok (e # m) \<longleftrightarrow> (\<forall>k \<in> fst ` set m. fst e < k) \<and> bt_ok m"
  by (auto simp: bt_ok_def)

lemma bt_ok_distinct: "bt_ok m \<Longrightarrow> distinct (map fst m)"
  by (auto simp: bt_ok_def strict_sorted_iff)

lemma map_of_bt_insert [bt_simps, simp]: "map_of (bt_insert k v m) = (map_of m)(k \<mapsto> v)"
  by (induction m) auto

lemma keys_bt_insert [bt_simps, simp]: "fst ` set (bt_insert k v m) = insert k (fst ` set m)"
  by (induction m) auto

lemma map_of_bt_remove [bt_simps, simp]: "map_of (bt_remove k m) = (map_of m)(k := None)"
  by (induction m) (auto simp: bt_remove_def)

lemma keys_bt_remove [bt_simps, simp]: "fst ` set (bt_remove k m) = fst ` set m - {k}"
  by (auto simp: bt_remove_def)

lemma bt_ok_insert [simp, intro]: "bt_ok m \<Longrightarrow> bt_ok (bt_insert k v m)"
  by (induction m) (auto simp: bt_ok_Cons)

lemma bt_ok_remove [simp, intro]: "bt_ok m \<Longrightarrow> bt_ok (bt_remove k m)"
  by (auto simp: bt_ok_def bt_remove_def intro: sorted_wrt_filter
      simp: sorted_wrt_map)

lemma set_bt_insert_subset: "set (bt_insert k v m) \<subseteq> insert (k, v) (set m)"
  by (induction m) auto

lemma set_bt_remove_subset: "set (bt_remove k m) \<subseteq> set m"
  by (auto simp: bt_remove_def)

text \<open>Two ascending maps with the same lookups are the same list.\<close>

lemma map_of_reconstruct:
  "distinct (map fst m) \<Longrightarrow> map (\<lambda>k. (k, the (map_of m k))) (map fst m) = m"
  by (simp add: comp_def) (rule map_idI, auto simp: map_of_is_SomeI)

lemma bt_eqI:
  assumes "bt_ok m" and "bt_ok n" and "map_of m = map_of n"
  shows "m = n"
proof -
  have keys: "set (map fst m) = set (map fst n)"
    using assms(3) by (metis dom_map_of_conv_image_fst list.set_map)
  have "sorted (map fst m)" "distinct (map fst m)" "sorted (map fst n)" "distinct (map fst n)"
    using assms(1,2) by (auto simp: bt_ok_def strict_sorted_iff)
  with keys have "map fst m = map fst n"
    using sorted_distinct_set_unique by blast
  with assms show ?thesis
    by (metis bt_ok_distinct map_of_reconstruct)
qed

text \<open>\<^verbatim>\<open>BTreeMap\<close> and the association-list model of \<^verbatim>\<open>HashMap\<close>/\<^verbatim>\<open>DashMap\<close> meet the map interface.\<close>

interpretation btree_map: keyed_map map_of bt_insert bt_remove bt_ok
  by unfold_locales auto

interpretation hash_map: keyed_map map_of AList.update AList.delete "\<lambda>m. distinct (map fst m)"
  by unfold_locales (auto simp: update_conv' delete_conv' distinct_update distinct_delete)

subsection \<open>Facts on the string operations\<close>

lemma keys_update_existing:
  "map_of m k \<noteq> None \<Longrightarrow> map fst (AList.update k v m) = map fst m"
  by (induction m) auto

lemma set_update_subset: "set (AList.update k v m) \<subseteq> insert (k, v) (set m)"
  by (induction m) auto

lemma split_on_not_Nil [str_simps, simp]: "split_on c s \<noteq> []"
  by (induction s) (auto split: list.splits)

lemma split_on_free [str_simps]: "c \<notin> set s \<Longrightarrow> split_on c s = [s]"
  by (induction s) auto

lemma split_on_append [str_simps]: "c \<notin> set w \<Longrightarrow> split_on c (w @ c # s) = w # split_on c s"
  by (induction w) auto

lemma split_on_join:
  "ws \<noteq> [] \<Longrightarrow> \<forall>w \<in> set ws. c \<notin> set w \<Longrightarrow> split_on c (join_on c ws) = ws"
  by (induction c ws rule: join_on.induct) (auto simp: split_on_free split_on_append)

lemma join_on_split: "join_on c (split_on c s) = s"
proof (induction s)
  case (Cons x s)
  then show ?case
    by (cases "split_on c s"; cases "tl (split_on c s)") auto
qed simp

lemma split_on_pieces: "w \<in> set (split_on c s) \<Longrightarrow> c \<notin> set w"
proof (induction s arbitrary: w)
  case (Cons x s)
  then show ?case
    by (cases "split_on c s") (auto split: if_splits)
qed simp

lemma split_once_eq: "split_once c s = Some (a, b) \<longleftrightarrow> s = a @ c # b \<and> c \<notin> set a"
proof (induction s arbitrary: a)
  case (Cons x s)
  show ?case
    by (cases a) (auto simp: Cons.IH)
qed simp

lemma split_once_None: "split_once c s = None \<longleftrightarrow> c \<notin> set s"
  by (induction s) auto

lemma strip_prefix_eq: "strip_prefix p s = Some r \<longleftrightarrow> s = p @ r"
  by (induction p s rule: strip_prefix.induct) auto

lemma strip_suffix_eq: "strip_suffix p s = Some r \<longleftrightarrow> s = r @ p"
proof -
  have "strip_suffix p s = Some r \<longleftrightarrow> strip_prefix (rev p) (rev s) = Some (rev r)"
    by (cases "strip_prefix (rev p) (rev s)") (auto simp: strip_suffix_def)
  also have "\<dots> \<longleftrightarrow> rev s = rev (r @ p)"
    by (simp add: strip_prefix_eq)
  finally show ?thesis
    by (simp only: rev_is_rev_conv)
qed

subsection \<open>Facts on decimal numbers\<close>

lemma strip_prefix_append [simp]: "strip_prefix p (p @ r) = Some r"
  by (simp add: strip_prefix_eq)

lemma strip_suffix_append [simp]: "strip_suffix p (r @ p) = Some r"
  by (simp add: strip_suffix_eq)

lemma digit_char: "d < 10 \<Longrightarrow> is_digit (char_of (48 + d)) \<and> digit_val (char_of (48 + d)) = d" for d :: nat
  by (simp add: is_digit_def digit_val_def)

lemma digits_val_snoc: "digits_val (s @ [c]) = digits_val s * 10 + digit_val c"
  by (simp add: digits_val_def)

lemma digits_val_show_nat: "digits_val (show_nat n) = n"
proof (induction n rule: show_nat.induct)
  case (1 n)
  show ?case
  proof (cases "n < 10")
    case True
    then show ?thesis
      by (subst show_nat.simps) (simp add: digits_val_def digit_char)
  next
    case False
    with 1 show ?thesis
      by (subst show_nat.simps) (simp add: digits_val_snoc digit_char)
  qed
qed

lemma show_nat_digits: "show_nat n \<noteq> [] \<and> list_all is_digit (show_nat n)"
proof (induction n rule: show_nat.induct)
  case (1 n)
  then show ?case
    by (subst (1 2) show_nat.simps) (simp add: digit_char)
qed

lemma digits_val_pad: "digits_val (replicate k (CHR ''0'') @ s) = digits_val s"
proof -
  have "foldl (\<lambda>a c. a * 10 + digit_val c) 0 (replicate k (CHR ''0'')) = 0"
    by (induction k) (auto simp: digit_val_def)
  then show ?thesis
    by (simp add: digits_val_def)
qed

lemma parse_pad_show:
  assumes "n < bound"
  shows "parse_bounded bound (pad_left w (show_nat n)) = Some n"
proof -
  let ?s = "pad_left w (show_nat n)"
  have digits: "list_all is_digit ?s" and ne: "?s \<noteq> []"
    using show_nat_digits [of n] by (auto simp: pad_left_def list_all_iff is_digit_def)
  then obtain c cs where s: "?s = c # cs" "is_digit c"
    by (cases ?s) auto
  then have "c \<noteq> CHR ''+''"
    by (auto simp: is_digit_def)
  moreover have "digits_val ?s = n"
    by (simp add: pad_left_def digits_val_pad digits_val_show_nat)
  ultimately show ?thesis
    using digits assms unfolding s(1) parse_bounded_def by simp
qed

subsection \<open>Facts on machine integers\<close>

lemma unat_u64_less: "unat (v :: u64) < 2 ^ 64"
  using unsigned_less [of v, where ?'a = nat] by simp

lemma unat_u32_less: "unat (v :: u32) < 2 ^ 32"
  using unsigned_less [of v, where ?'a = nat] by simp

lemma unat_u8_less: "unat (v :: u8) < 256"
  using unsigned_less [of v, where ?'a = nat] by simp

text \<open>The \<open>n\<close>-bit shift followed by \<^verbatim>\<open>as u8\<close>, by which the sources take integers apart.\<close>

lemma unat_drop_bit: "unat (drop_bit n (v :: 'a::len word)) = unat v div 2 ^ n"
proof -
  have "take_bit LENGTH('a) (unat v) = unat v"
    using unsigned_less [of v, where ?'a = nat] by (simp add: take_bit_nat_eq_self)
  then have "unat (drop_bit n v) = drop_bit n (unat v)"
    by (simp add: unsigned_drop_bit_eq)
  then show ?thesis
    by (simp only: drop_bit_eq_div)
qed

lemma unat_low_byte: "unat (ucast (v :: 'a::len word) :: u8) = unat v mod 256"
  by (simp add: unsigned_ucast_eq take_bit_eq_mod)

lemma unat_Suc_u64: "unat (v :: u64) + 1 < 2 ^ 64 \<Longrightarrow> unat (v + 1) = unat v + 1"
  by (simp add: unat_word_ariths)

lemma unat_Suc_u32: "unat (v :: u32) + 1 < 2 ^ 32 \<Longrightarrow> unat (v + 1) = unat v + 1"
  by (simp add: unat_word_ariths)

end
