(* ===== verification/Json_Value.thy ===== *)
theory Json_Value
  imports SODP_Prelude
begin

section \<open>JSON values\<close>

text \<open>
  The model of \<^verbatim>\<open>serde_json::Value\<close>, the type of every state value, frame body and set of
  claims in the server, with the accessors the sources call. The crate is built without its
  \<^verbatim>\<open>preserve_order\<close> feature, so an object is a \<^verbatim>\<open>BTreeMap<String, Value>\<close>: \<open>json_ok\<close> says that
  every object of a value is an ascending association list.

  A number is one of \<^verbatim>\<open>serde_json\<close>'s three representations. A finite \<^verbatim>\<open>f64\<close> is represented by
  the rational it denotes: \<^verbatim>\<open>PartialEq\<close> on \<^verbatim>\<open>Value\<close> compares floats by that number (it takes
  \<open>0.0\<close> and \<open>-0.0\<close> as equal), and the server does nothing else with them.
\<close>

datatype number = PosInt u64 | NegInt int | Float rat

datatype json =
    Null
  | Bool bool
  | Number number
  | String string
  | Array "json list"
  | Object "(string, json) btree"

subsection \<open>Accessors\<close>

fun json_get :: "json \<Rightarrow> string \<Rightarrow> json option" where
  "json_get (Object m) k = map_of m k"
| "json_get _ k = None"

fun as_str :: "json \<Rightarrow> string option" where
  "as_str (String s) = Some s"
| "as_str _ = None"

fun as_u64 :: "json \<Rightarrow> u64 option" where
  "as_u64 (Number (PosInt n)) = Some n"
| "as_u64 _ = None"

fun as_array :: "json \<Rightarrow> json list option" where
  "as_array (Array xs) = Some xs"
| "as_array _ = None"

fun as_object :: "json \<Rightarrow> (string, json) btree option" where
  "as_object (Object m) = Some m"
| "as_object _ = None"

fun is_null :: "json \<Rightarrow> bool" where
  "is_null Null = True"
| "is_null _ = False"

fun is_string :: "json \<Rightarrow> bool" where
  "is_string (String _) = True"
| "is_string _ = False"

fun is_boolean :: "json \<Rightarrow> bool" where
  "is_boolean (Bool _) = True"
| "is_boolean _ = False"

fun is_number :: "json \<Rightarrow> bool" where
  "is_number (Number _) = True"
| "is_number _ = False"

fun is_i64 :: "json \<Rightarrow> bool" where
  "is_i64 (Number (PosInt n)) = (unat n < 2 ^ 63)"
| "is_i64 (Number (NegInt _)) = True"
| "is_i64 _ = False"

fun is_u64 :: "json \<Rightarrow> bool" where
  "is_u64 (Number (PosInt _)) = True"
| "is_u64 _ = False"

fun is_array :: "json \<Rightarrow> bool" where
  "is_array (Array _) = True"
| "is_array _ = False"

fun is_object :: "json \<Rightarrow> bool" where
  "is_object (Object _) = True"
| "is_object _ = False"

text \<open>\<^verbatim>\<open>body.get(k).and_then(|v| v.as_str())\<close>, the commonest access in the handlers.\<close>

definition get_str :: "json \<Rightarrow> string \<Rightarrow> string option" where
  "get_str b k = Option.bind (json_get b k) as_str"

definition get_u64 :: "json \<Rightarrow> string \<Rightarrow> u64 option" where
  "get_u64 b k = Option.bind (json_get b k) as_u64"

definition get_array :: "json \<Rightarrow> string \<Rightarrow> json list option" where
  "get_array b k = Option.bind (json_get b k) as_array"

text \<open>\<^verbatim>\<open>serde_json::json!({...})\<close> with distinct keys: collected into the ordered map.\<close>

definition json_obj :: "(string \<times> json) list \<Rightarrow> json" where
  "json_obj kvs = Object (fold (\<lambda>(k, v). bt_insert k v) kvs [])"

subsection \<open>Well-formed values and path-safe keys\<close>

lemma json_size_entry [termination_simp]:
  "(k, v) \<in> set m \<Longrightarrow> size v < Suc (size_list (size_prod (\<lambda>x. 0) size) m)"
  by (induction m) auto

lemma json_size_lookup [termination_simp]:
  "map_of m k = Some v \<Longrightarrow> size v < Suc (size_list (size_prod (\<lambda>x. 0) size) m)"
  by (drule map_of_SomeD) (rule json_size_entry)

lemma json_size_snd [termination_simp]:
  "e \<in> set m \<Longrightarrow> size (snd e) < Suc (size_list (size_prod (\<lambda>x. 0) size) m)"
  by (cases e) (auto simp: json_size_entry)

fun json_ok :: "json \<Rightarrow> bool" where
  "json_ok (Array xs) = (\<forall>x \<in> set xs. json_ok x)"
| "json_ok (Object m) = (bt_ok m \<and> (\<forall>e \<in> set m. json_ok (snd e)))"
| "json_ok _ = True"

text \<open>No object key reachable through objects contains the path separator.\<close>

fun slash_free :: "json \<Rightarrow> bool" where
  "slash_free (Object m) = (\<forall>e \<in> set m. CHR ''/'' \<notin> set (fst e) \<and> slash_free (snd e))"
| "slash_free _ = True"

text \<open>The empty string is not a key of the top-level object.\<close>

fun root_keys_ok :: "json \<Rightarrow> bool" where
  "root_keys_ok (Object m) = ([] \<notin> fst ` set m)"
| "root_keys_ok _ = True"

subsection \<open>Facts\<close>

lemma json_ok_insert [simp]:
  "json_ok (Object m) \<Longrightarrow> json_ok v \<Longrightarrow> json_ok (Object (bt_insert k v m))"
  using set_bt_insert_subset [of k v m] by auto

lemma json_ok_remove [simp]: "json_ok (Object m) \<Longrightarrow> json_ok (Object (bt_remove k m))"
  using set_bt_remove_subset [of k m] by auto

lemma json_ok_lookup: "json_ok (Object m) \<Longrightarrow> map_of m k = Some v \<Longrightarrow> json_ok v"
  using map_of_SomeD by fastforce

lemma slash_free_lookup:
  "slash_free (Object m) \<Longrightarrow> map_of m k = Some v \<Longrightarrow> CHR ''/'' \<notin> set k \<and> slash_free v"
  using map_of_SomeD by fastforce

lemma slash_free_insert:
  "slash_free (Object m) \<Longrightarrow> CHR ''/'' \<notin> set k \<Longrightarrow> slash_free v \<Longrightarrow>
     slash_free (Object (bt_insert k v m))"
  using set_bt_insert_subset [of k v m] by auto

lemma json_get_Some: "json_get j k = Some v \<longleftrightarrow> (\<exists>m. j = Object m \<and> map_of m k = Some v)"
  by (cases j) auto

lemma json_ok_get: "json_ok j \<Longrightarrow> json_get j k = Some v \<Longrightarrow> json_ok v"
  by (auto simp: json_get_Some intro: json_ok_lookup)

lemma is_object_iff: "is_object j \<longleftrightarrow> (\<exists>m. j = Object m)"
  by (cases j) auto

lemma get_str_Some: "get_str b k = Some s \<longleftrightarrow> json_get b k = Some (String s)"
  by (auto simp: get_str_def bind_eq_Some_conv elim!: as_str.elims)

lemma json_ok_obj:
  assumes "\<forall>(k, v) \<in> set kvs. json_ok v"
  shows "json_ok (json_obj kvs)"
proof -
  have "json_ok (Object m) \<Longrightarrow> json_ok (Object (fold (\<lambda>(k, v). bt_insert k v) kvs m))" for m
    using assms by (induction kvs arbitrary: m) (fastforce simp del: json_ok.simps)+
  from this [of "[]"] show ?thesis
    by (simp add: json_obj_def)
qed

end
