(* ===== verification/Delta_Diff.thy ===== *)
theory Delta_Diff
  imports Json_Value
begin

section \<open>Structural deltas\<close>

text \<open>
  The model of \<^verbatim>\<open>src/src/delta.rs\<close>: the delta operations, the path concatenation
  \<^verbatim>\<open>join_path\<close> and the recursive \<^verbatim>\<open>diff_at\<close>. Where the source pushes onto a mutable vector,
  \<open>diff_at\<close> returns the operations pushed by the call, in the order they are pushed.
\<close>

datatype delta_op_kind = Add | Update | Remove

record delta_op =
  d_op :: delta_op_kind
  d_path :: string
  d_value :: "json option"

definition op_add :: "string \<Rightarrow> json \<Rightarrow> delta_op" where
  "op_add p v = \<lparr>d_op = Add, d_path = p, d_value = Some v\<rparr>"

definition op_update :: "string \<Rightarrow> json \<Rightarrow> delta_op" where
  "op_update p v = \<lparr>d_op = Update, d_path = p, d_value = Some v\<rparr>"

definition op_remove :: "string \<Rightarrow> delta_op" where
  "op_remove p = \<lparr>d_op = Remove, d_path = p, d_value = None\<rparr>"

definition join_path :: "string \<Rightarrow> string \<Rightarrow> string" where
  "join_path base key = (if base = ''/'' then ''/'' @ key else base @ ''/'' @ key)"

fun diff_at :: "string \<Rightarrow> json \<Rightarrow> json \<Rightarrow> delta_op list" where
  "diff_at path (Object old_map) (Object new_map) =
     concat (map (\<lambda>(key, new_val).
       let child = join_path path key in
       case map_of old_map key of
         None \<Rightarrow> [op_add child new_val]
       | Some old_val \<Rightarrow>
           if old_val \<noteq> new_val
           then (if is_object old_val \<and> is_object new_val
                 then diff_at child old_val new_val
                 else [op_update child new_val])
           else []) new_map)
     @ concat (map (\<lambda>(key, _).
         if map_of new_map key = None then [op_remove (join_path path key)] else []) old_map)"
| "diff_at path old_val new_val = (if old_val \<noteq> new_val then [op_update path new_val] else [])"

definition diff :: "json \<Rightarrow> json \<Rightarrow> delta_op list" where
  "diff old new = diff_at ''/'' old new"

subsection \<open>The diff relative to a node\<close>

text \<open>
  The same recursion with paths as lists of segments relative to the node, which is what the
  proofs reason about: \<open>diff_at_path_of\<close> below says that \<open>diff_at\<close> prints these segments below
  its path.
\<close>

type_synonym seg_op = "delta_op_kind \<times> string list \<times> json option"

definition under :: "string \<Rightarrow> seg_op \<Rightarrow> seg_op" where
  "under k = (\<lambda>(kind, segs, v). (kind, k # segs, v))"

fun seg_diff :: "json \<Rightarrow> json \<Rightarrow> seg_op list" where
  "seg_diff (Object old_map) (Object new_map) =
     concat (map (\<lambda>(key, new_val).
       case map_of old_map key of
         None \<Rightarrow> [(Add, [key], Some new_val)]
       | Some old_val \<Rightarrow>
           if old_val = new_val then []
           else if is_object old_val \<and> is_object new_val
             then map (under key) (seg_diff old_val new_val)
             else [(Update, [key], Some new_val)]) new_map)
     @ map (\<lambda>(key, _). (Remove, [key], None)) (filter (\<lambda>(key, _). map_of new_map key = None) old_map)"
| "seg_diff old_val new_val = (if old_val = new_val then [] else [(Update, [], Some new_val)])"

definition path_of :: "string list \<Rightarrow> string" where
  "path_of segs = ''/'' @ join_on (CHR ''/'') segs"

definition print_op :: "string list \<Rightarrow> seg_op \<Rightarrow> delta_op" where
  "print_op base = (\<lambda>(kind, segs, v). \<lparr>d_op = kind, d_path = path_of (base @ segs), d_value = v\<rparr>)"

lemma join_on_snoc: "segs \<noteq> [] \<Longrightarrow> join_on c (segs @ [k]) = join_on c segs @ c # k"
  by (induction c segs rule: join_on.induct) auto

lemma join_on_eq_Nil: "join_on c segs = [] \<longleftrightarrow> segs = [] \<or> segs = [[]]"
  by (induction c segs rule: join_on.induct) auto

lemma join_path_path_of: "segs \<noteq> [[]] \<Longrightarrow> join_path (path_of segs) k = path_of (segs @ [k])"
  by (cases "segs = []") (auto simp: join_path_def path_of_def join_on_eq_Nil join_on_snoc)

lemma print_op_simp [simp]:
  "print_op base (kind, segs, v) = \<lparr>d_op = kind, d_path = path_of (base @ segs), d_value = v\<rparr>"
  by (simp add: print_op_def)

lemma print_op_under [simp]: "print_op base (under k sop) = print_op (base @ [k]) sop"
  by (cases sop) (simp add: under_def)

lemma concat_map_if: "concat (map (\<lambda>x. if P x then [f x] else []) xs) = map f (filter P xs)"
  by (induction xs) auto

lemma diff_at_path_of:
  assumes "segs \<noteq> [[]]" and "segs = [] \<longrightarrow> root_keys_ok new \<and> root_keys_ok old"
  shows "diff_at (path_of segs) old new = map (print_op segs) (seg_diff old new)"
  using assms
proof (induction "path_of segs" old new arbitrary: segs rule: diff_at.induct)
  case (1 om nm)
  have jp: "join_path (path_of segs) k = path_of (segs @ [k])" for k
    using "1.prems"(1) by (rule join_path_path_of)
  have new: "(let child = join_path (path_of segs) key in
       case map_of om key of
         None \<Rightarrow> [op_add child nv]
       | Some ov \<Rightarrow>
           if ov \<noteq> nv
           then (if is_object ov \<and> is_object nv then diff_at child ov nv else [op_update child nv])
           else []) =
      map (print_op segs) (case map_of om key of
         None \<Rightarrow> [(Add, [key], Some nv)]
       | Some ov \<Rightarrow>
           if ov = nv then []
           else if is_object ov \<and> is_object nv then map (under key) (seg_diff ov nv)
             else [(Update, [key], Some nv)])"
    if mem: "(key, nv) \<in> set nm" for key nv
  proof -
    have ne: "segs @ [key] \<noteq> [[]]"
      using "1.prems" mem by (auto simp: image_iff)
    have "diff_at (join_path (path_of segs) key) ov nv = map (print_op (segs @ [key])) (seg_diff ov nv)"
      if "map_of om key = Some ov" "ov \<noteq> nv" "is_object ov \<and> is_object nv" for ov
      using "1.hyps" [OF mem refl jp [symmetric] that(1,2,3) ne] by (simp add: jp)
    then show ?thesis
      by (auto simp: jp op_add_def op_update_def Let_def comp_def split: option.split)
  qed
  have rem: "concat (map (\<lambda>(key, _).
         if map_of nm key = None then [op_remove (join_path (path_of segs) key)] else []) om) =
      map (print_op segs) (map (\<lambda>(key, _). (Remove, [key], None))
        (filter (\<lambda>(key, _). map_of nm key = None) om))"
    by (simp add: jp op_remove_def split_def concat_map_if comp_def)
  show ?case
    unfolding diff_at.simps seg_diff.simps map_append rem
    by (simp only: map_concat map_map comp_def, intro arg_cong2 [where f = append] refl
        arg_cong [where f = concat] map_cong) (use new in auto)
qed (auto simp: op_update_def)

lemma seg_diff_below: "\<forall>sop \<in> set (seg_diff (Object om) (Object nm)). fst (snd sop) \<noteq> []"
  by (simp add: ball_Un under_def split_def split: option.split)

subsection \<open>A diff is empty exactly when nothing changed\<close>

lemma map_of_eqI_entries:
  assumes "\<And>k v. (k, v) \<in> set n \<Longrightarrow> map_of m k = Some v"
    and "\<And>k v. (k, v) \<in> set m \<Longrightarrow> map_of n k \<noteq> None"
  shows "map_of m = map_of n"
proof
  fix k
  show "map_of m k = map_of n k"
  proof (cases "map_of n k")
    case None
    with assms(2) have "map_of m k = None"
      by (metis map_of_SomeD not_None_eq)
    with None show ?thesis by simp
  next
    case (Some v)
    then show ?thesis
      using assms(1) by (metis map_of_SomeD)
  qed
qed

lemma diff_at_Nil_imp_eq: "json_ok old \<Longrightarrow> json_ok new \<Longrightarrow> diff_at path old new = [] \<Longrightarrow> old = new"
proof (induction path old new rule: diff_at.induct)
  case (1 path om nm)
  have ok: "bt_ok om" "bt_ok nm"
    using "1.prems" by auto
  have "map_of om k = Some v" if mem: "(k, v) \<in> set nm" for k v
  proof -
    have entry: "(case map_of om k of
         None \<Rightarrow> [op_add (join_path path k) v]
       | Some ov \<Rightarrow>
           if ov \<noteq> v
           then (if is_object ov \<and> is_object v then diff_at (join_path path k) ov v
                 else [op_update (join_path path k) v])
           else []) = []"
      using "1.prems"(3) mem by (fastforce simp: Let_def)
    then obtain ov where ov: "map_of om k = Some ov"
      by (auto split: option.splits)
    have "ov = v"
    proof (rule ccontr)
      assume neq: "ov \<noteq> v"
      with entry ov have obj: "is_object ov \<and> is_object v" and nil: "diff_at (join_path path k) ov v = []"
        by (auto split: if_splits)
      have "json_ok ov" "json_ok v"
        using json_ok_lookup [OF "1.prems"(1) ov] "1.prems"(2) mem by force+
      with "1.IH" [OF mem refl refl ov neq obj] nil neq show False
        by simp
    qed
    with ov show ?thesis by simp
  qed
  moreover have "map_of nm k \<noteq> None" if "(k, v) \<in> set om" for k v
    using "1.prems"(3) that by (force split: if_splits)
  ultimately have "map_of om = map_of nm"
    by (intro map_of_eqI_entries)
  with ok show ?case
    by (simp add: bt_eqI)
qed (auto split: if_splits)

lemma diff_at_refl: "json_ok j \<Longrightarrow> diff_at path j j = []"
proof (cases j)
  case (Object m)
  assume "json_ok j"
  with Object have "distinct (map fst m)"
    by (auto intro: bt_ok_distinct)
  then have "map_of m k = Some v" if "(k, v) \<in> set m" for k v
    using that by simp
  then show ?thesis
    using Object by (auto simp: Let_def)
qed auto

end
