(* ===== verification/Client_Apply.thy ===== *)
theory Client_Apply
  imports Delta_Diff
begin

section \<open>Applying deltas on the client\<close>

text \<open>
  The model of \<^verbatim>\<open>src/sodp-py/src/sodp/delta.py\<close>, the replica side of the protocol: how a client
  turns the deltas it receives into its copy of the state. The Python code walks and mutates a
  deep copy in place; \<open>apply_at\<close> returns the mutated node, so an early \<^verbatim>\<open>return root\<close> is the
  node left as it is. A Python \<^verbatim>\<open>dict\<close> is an object (equality of \<^verbatim>\<open>dict\<close>s ignores order), a
  \<^verbatim>\<open>list\<close> an array. \<^verbatim>\<open>isdigit\<close> is modelled on ASCII digits.
\<close>

definition parse_path :: "string \<Rightarrow> string list" where
  "parse_path path = (if path = ''/'' then [] else split_on (CHR ''/'') (drop 1 path))"

definition py_isdigit :: "string \<Rightarrow> bool" where
  "py_isdigit s \<longleftrightarrow> s \<noteq> [] \<and> list_all is_digit s"

definition as_index :: "string \<Rightarrow> nat option" where
  "as_index seg = (if py_isdigit seg then Some (digits_val seg) else None)"

definition container_for :: "string \<Rightarrow> json" where
  "container_for seg = (if seg = ''-'' \<or> py_isdigit seg then Array [] else Object [])"

fun is_container :: "json \<Rightarrow> bool" where
  "is_container (Array _) = True"
| "is_container (Object _) = True"
| "is_container _ = False"

text \<open>The last segment: append or pop on \<open>-\<close>, an index into a list, a key of a dict.\<close>

definition apply_last :: "json \<Rightarrow> string \<Rightarrow> delta_op_kind \<Rightarrow> json \<Rightarrow> json" where
  "apply_last node seg kind value =
     (case node of
        Array xs \<Rightarrow>
          if seg = ''-'' then (if kind = Remove then Array (butlast xs) else Array (xs @ [value]))
          else (case as_index seg of
             None \<Rightarrow> node
           | Some idx \<Rightarrow>
               if kind \<noteq> Remove
               then (if idx < length xs then Array (xs[idx := value])
                     else if idx = length xs then Array (xs @ [value]) else node)
               else if idx < length xs then Array (take idx xs @ drop (Suc idx) xs) else node)
      | Object m \<Rightarrow>
          if kind \<noteq> Remove then Object (bt_insert seg value m) else Object (bt_remove seg m)
      | _ \<Rightarrow> node)"

fun apply_at :: "json \<Rightarrow> string list \<Rightarrow> delta_op_kind \<Rightarrow> json \<Rightarrow> json" where
  "apply_at node [] kind value = node"
| "apply_at node [seg] kind value = apply_last node seg kind value"
| "apply_at node (key # seg # rest) kind value =
     (case node of
        Array xs \<Rightarrow>
          (case as_index key of
             None \<Rightarrow> node
           | Some idx \<Rightarrow>
               if idx < length xs
               then (let child = (if is_container (xs ! idx) then xs ! idx else container_for seg)
                     in Array (xs[idx := apply_at child (seg # rest) kind value]))
               else node)
      | Object m \<Rightarrow>
          (let child = (case map_of m key of
                 Some c \<Rightarrow> if is_container c then c else container_for seg
               | None \<Rightarrow> container_for seg)
           in Object (bt_insert key (apply_at child (seg # rest) kind value) m))
      | _ \<Rightarrow> node)"

definition op_value :: "delta_op \<Rightarrow> json" where
  "op_value d = (case d_value d of Some v \<Rightarrow> v | None \<Rightarrow> Null)"

definition apply_one :: "json \<Rightarrow> delta_op \<Rightarrow> json" where
  "apply_one state d =
     (let parts = parse_path (d_path d) in
      if parts = [] then (if d_op d = Remove then Null else op_value d)
      else (let root = (if is_container state then state else container_for (hd parts))
            in apply_at root parts (d_op d) (op_value d)))"

definition apply_ops :: "json \<Rightarrow> delta_op list \<Rightarrow> json" where
  "apply_ops state ops = foldl apply_one state ops"

subsection \<open>Applying operations given by segments\<close>

definition seg_apply :: "json \<Rightarrow> seg_op \<Rightarrow> json" where
  "seg_apply state = (\<lambda>(kind, segs, v).
     let value = (case v of Some x \<Rightarrow> x | None \<Rightarrow> Null) in
     if segs = [] then (if kind = Remove then Null else value)
     else apply_at (if is_container state then state else container_for (hd segs)) segs kind value)"

lemma parse_path_of:
  assumes "segs \<noteq> [[]]" and "\<forall>s \<in> set segs. CHR ''/'' \<notin> set s"
  shows "parse_path (path_of segs) = segs"
proof (cases "segs = []")
  case False
  with assms have "join_on (CHR ''/'') segs \<noteq> []"
    by (simp add: join_on_eq_Nil)
  with False assms(2) show ?thesis
    by (simp add: parse_path_def path_of_def split_on_join)
qed (simp add: parse_path_def path_of_def)

lemma apply_one_print_op:
  "segs \<noteq> [[]] \<Longrightarrow> \<forall>s \<in> set segs. CHR ''/'' \<notin> set s \<Longrightarrow>
     apply_one state (print_op [] (kind, segs, v)) = seg_apply state (kind, segs, v)"
  by (simp add: apply_one_def seg_apply_def parse_path_of op_value_def Let_def)

text \<open>Operations below a key of an object act on the child there.\<close>

lemma seg_apply_object: "segs \<noteq> [] \<Longrightarrow> is_object (seg_apply (Object m) (kind, segs, v))"
  by (cases segs; cases "tl segs") (auto simp: seg_apply_def apply_last_def Let_def)

lemma seg_apply_under:
  assumes "map_of m k = Some (Object c)" and "segs \<noteq> []"
  shows "seg_apply (Object m) (under k (kind, segs, v)) =
     Object (bt_insert k (seg_apply (Object c) (kind, segs, v)) m)"
  using assms by (cases segs) (auto simp: under_def seg_apply_def Let_def)

lemma bt_insert_idem: "bt_ok m \<Longrightarrow> map_of m k = Some v \<Longrightarrow> bt_insert k v m = m"
  by (intro bt_eqI) auto

lemma bt_insert_twice: "bt_ok m \<Longrightarrow> bt_insert k v (bt_insert k w m) = bt_insert k v m"
  by (intro bt_eqI) auto

lemma seg_apply_under_all:
  assumes "\<forall>sop \<in> set sops. fst (snd sop) \<noteq> []" and "bt_ok m" and "map_of m k = Some (Object c)"
  shows "foldl seg_apply (Object m) (map (under k) sops) =
     Object (bt_insert k (foldl seg_apply (Object c) sops) m)"
  using assms
proof (induction sops arbitrary: m c)
  case Nil
  then show ?case
    by (simp add: bt_insert_idem)
next
  case (Cons sop sops)
  obtain kind segs v where sop: "sop = (kind, segs, v)"
    by (cases sop) auto
  with Cons.prems obtain c' where c': "seg_apply (Object c) sop = Object c'"
    using seg_apply_object [of segs c kind v] by (auto simp: is_object_iff)
  let ?m = "bt_insert k (Object c') m"
  have "foldl seg_apply (Object m) (map (under k) (sop # sops)) = foldl seg_apply (Object ?m) (map (under k) sops)"
    using Cons.prems sop c' by (simp add: seg_apply_under)
  also have "\<dots> = Object (bt_insert k (foldl seg_apply (Object c') sops) ?m)"
    using Cons.prems by (intro Cons.IH) auto
  finally show ?case
    using Cons.prems(2) c' by (simp add: bt_insert_twice)
qed

subsection \<open>Applying a diff gives the new value\<close>

definition insert_all :: "(string, json) btree \<Rightarrow> (string, json) btree \<Rightarrow> (string, json) btree" where
  "insert_all es m = fold (\<lambda>e. bt_insert (fst e) (snd e)) es m"

definition remove_all :: "string list \<Rightarrow> (string, json) btree \<Rightarrow> (string, json) btree" where
  "remove_all ks m = fold bt_remove ks m"

lemma bt_ok_insert_all [simp]: "bt_ok m \<Longrightarrow> bt_ok (insert_all es m)"
  by (induction es arbitrary: m) (auto simp: insert_all_def)

lemma bt_ok_remove_all [simp]: "bt_ok m \<Longrightarrow> bt_ok (remove_all ks m)"
  by (induction ks arbitrary: m) (auto simp: remove_all_def)

lemma map_of_insert_all:
  "distinct (map fst es) \<Longrightarrow> map_of (insert_all es m) = map_of m ++ map_of es"
proof (induction es arbitrary: m)
  case (Cons e es)
  then have "map_of es (fst e) = None"
    by (simp add: map_of_eq_None_iff)
  with Cons show ?case
    by (cases e) (auto simp: insert_all_def map_add_def fun_eq_iff split: option.splits)
qed (simp add: insert_all_def)

lemma map_of_remove_all: "map_of (remove_all ks m) = (map_of m) |` (- set ks)"
  by (induction ks arbitrary: m) (auto simp: remove_all_def restrict_map_def fun_eq_iff)

lemma seg_apply_remove_all:
  "foldl seg_apply (Object m) (map (\<lambda>(k, _). (Remove, [k], None)) es) = Object (remove_all (map fst es) m)"
  by (induction es arbitrary: m) (auto simp: remove_all_def seg_apply_def apply_last_def Let_def)

text \<open>The operations \<open>seg_diff\<close> emits for one entry of the new object.\<close>

definition entry_ops :: "(string, json) btree \<Rightarrow> string \<times> json \<Rightarrow> seg_op list" where
  "entry_ops om = (\<lambda>(key, new_val).
       case map_of om key of
         None \<Rightarrow> [(Add, [key], Some new_val)]
       | Some old_val \<Rightarrow>
           if old_val = new_val then []
           else if is_object old_val \<and> is_object new_val
             then map (under key) (seg_diff old_val new_val)
             else [(Update, [key], Some new_val)])"

lemma seg_diff_objects:
  "seg_diff (Object om) (Object nm) = concat (map (entry_ops om) nm)
     @ map (\<lambda>(key, _). (Remove, [key], None)) (filter (\<lambda>(key, _). map_of nm key = None) om)"
  by (simp add: entry_ops_def)

lemma seg_apply_entry:
  assumes "bt_ok m" and "map_of m k = map_of om k"
    and "\<And>ov. map_of om k = Some ov \<Longrightarrow> ov \<noteq> nv \<Longrightarrow> is_object ov \<and> is_object nv \<Longrightarrow>
      foldl seg_apply ov (seg_diff ov nv) = nv"
  shows "foldl seg_apply (Object m) (entry_ops om (k, nv)) = Object (bt_insert k nv m)"
proof (cases "map_of om k")
  case None
  then show ?thesis
    by (simp add: entry_ops_def seg_apply_def apply_last_def)
next
  case (Some ov)
  consider "ov = nv" | "ov \<noteq> nv" "is_object ov \<and> is_object nv" | "ov \<noteq> nv" "\<not> (is_object ov \<and> is_object nv)"
    by blast
  then show ?thesis
  proof cases
    case 1
    with Some assms(1,2) show ?thesis
      by (simp add: entry_ops_def bt_insert_idem)
  next
    case 2
    then obtain oc nc where oc: "ov = Object oc" "nv = Object nc"
      by (auto simp: is_object_iff)
    have "foldl seg_apply (Object m) (map (under k) (seg_diff ov nv)) = Object (bt_insert k nv m)"
      using seg_apply_under_all [OF seg_diff_below assms(1), of k oc oc nc]
        assms(3) [OF Some 2] assms(2) Some oc
      by (simp del: seg_diff.simps)
    with 2 Some show ?thesis
      by (simp add: entry_ops_def)
  next
    case 3
    with Some show ?thesis
      by (auto simp: entry_ops_def seg_apply_def apply_last_def)
  qed
qed

lemma seg_apply_entries:
  assumes "bt_ok m" and "distinct (map fst es)" and "\<forall>(k, nv) \<in> set es. map_of m k = map_of om k"
    and "\<And>k nv ov. (k, nv) \<in> set es \<Longrightarrow> map_of om k = Some ov \<Longrightarrow> ov \<noteq> nv \<Longrightarrow>
      is_object ov \<and> is_object nv \<Longrightarrow> foldl seg_apply ov (seg_diff ov nv) = nv"
  shows "foldl seg_apply (Object m) (concat (map (entry_ops om) es)) = Object (insert_all es m)"
  using assms
proof (induction es arbitrary: m)
  case (Cons e es)
  obtain k nv where e: "e = (k, nv)"
    by (cases e) auto
  have "foldl seg_apply (Object m) (entry_ops om e) = Object (bt_insert k nv m)"
    unfolding e using Cons.prems e by (intro seg_apply_entry) auto
  moreover have "foldl seg_apply (Object (bt_insert k nv m)) (concat (map (entry_ops om) es)) =
      Object (insert_all es (bt_insert k nv m))"
    using Cons.prems e by (intro Cons.IH) (force simp: image_iff)+
  ultimately show ?case
    using e by (simp add: insert_all_def)
qed (simp add: insert_all_def)

lemma seg_diff_apply: "json_ok old \<Longrightarrow> json_ok new \<Longrightarrow> foldl seg_apply old (seg_diff old new) = new"
proof (induction old new rule: seg_diff.induct)
  case (1 om nm)
  have ok: "bt_ok om" "bt_ok nm"
    using "1.prems" by auto
  have IH: "foldl seg_apply ov (seg_diff ov nv) = nv"
    if mem: "(k, nv) \<in> set nm" and ov: "map_of om k = Some ov"
      and neq: "ov \<noteq> nv" and obj: "is_object ov \<and> is_object nv" for k nv ov
  proof -
    have "json_ok ov" "json_ok nv"
      using json_ok_lookup [OF "1.prems"(1) ov] "1.prems"(2) mem by force+
    with mem ov neq obj show ?thesis
      by (intro "1.IH") auto
  qed
  let ?gone = "filter (\<lambda>(key, _). map_of nm key = None) om"
  let ?m = "remove_all (map fst ?gone) (insert_all nm om)"
  have "foldl seg_apply (Object om) (seg_diff (Object om) (Object nm)) = Object ?m"
    unfolding seg_diff_objects foldl_append
    by (subst seg_apply_entries) (auto simp: ok bt_ok_distinct seg_apply_remove_all IH)
  moreover have "map_of ?m = map_of nm"
  proof
    fix k
    have gone: "k \<in> set (map fst ?gone) \<longleftrightarrow> map_of om k \<noteq> None \<and> map_of nm k = None"
      by (force simp: map_of_eq_None_iff image_iff)
    show "map_of ?m k = map_of nm k"
      using map_of_insert_all [OF bt_ok_distinct [OF ok(2)], of om] gone
      by (auto simp: map_of_remove_all restrict_map_def map_add_def split: option.splits)
  qed
  ultimately show ?case
    using ok by (simp add: bt_eqI)
qed (auto simp: seg_apply_def)

subsection \<open>The paths of a diff parse back to its segments\<close>

lemma seg_diff_slash_free:
  "slash_free old \<Longrightarrow> slash_free new \<Longrightarrow>
     \<forall>sop \<in> set (seg_diff old new). \<forall>s \<in> set (fst (snd sop)). CHR ''/'' \<notin> set s"
proof (induction old new rule: seg_diff.induct)
  case (1 om nm)
  have entry: "\<forall>sop \<in> set (entry_ops om (k, nv)). \<forall>s \<in> set (fst (snd sop)). CHR ''/'' \<notin> set s"
    if mem: "(k, nv) \<in> set nm" for k nv
  proof -
    have k: "CHR ''/'' \<notin> set k" "slash_free nv"
      using "1.prems"(2) mem by force+
    have "\<forall>sop \<in> set (seg_diff ov nv). \<forall>s \<in> set (fst (snd sop)). CHR ''/'' \<notin> set s"
      if "map_of om k = Some ov" "ov \<noteq> nv" "is_object ov \<and> is_object nv" for ov
      using that mem k slash_free_lookup [OF "1.prems"(1) that(1)] by (intro "1.IH") auto
    then show ?thesis
      using k by (auto simp: entry_ops_def under_def split: option.splits)
  qed
  show ?case
    using entry "1.prems"(1) by (auto simp: seg_diff_objects simp del: seg_diff.simps)
qed auto

lemma entry_ops_head: "sop \<in> set (entry_ops om e) \<Longrightarrow> hd (fst (snd sop)) = fst e"
  by (cases e) (auto simp: entry_ops_def under_def split: option.splits if_splits)

lemma seg_diff_heads:
  "sop \<in> set (seg_diff (Object om) (Object nm)) \<Longrightarrow> hd (fst (snd sop)) \<in> fst ` set om \<union> fst ` set nm"
  by (auto simp: seg_diff_objects entry_ops_head simp del: seg_diff.simps)
    (force simp: image_iff)+

lemma seg_diff_not_root_key:
  assumes "root_keys_ok old" and "root_keys_ok new"
  shows "\<forall>sop \<in> set (seg_diff old new). fst (snd sop) \<noteq> [[]]"
proof (cases "is_object old \<and> is_object new")
  case True
  then obtain om nm where obj: "old = Object om" "new = Object nm"
    by (auto simp: is_object_iff)
  then have "[] \<notin> fst ` set om \<union> fst ` set nm"
    using assms by simp
  with obj show ?thesis
    using seg_diff_heads by (metis list.sel(1))
next
  case False
  then show ?thesis
    by (cases old; cases new) auto
qed

lemma apply_ops_diff:
  assumes "json_ok old" "json_ok new" "slash_free old" "slash_free new"
    and "root_keys_ok old" "root_keys_ok new"
  shows "apply_ops old (diff old new) = new"
proof -
  have print: "diff old new = map (print_op []) (seg_diff old new)"
    using diff_at_path_of [where segs = "[]" and old = old and new = new] assms(5,6) by (simp add: diff_def path_of_def)
  have one: "apply_one j (print_op [] sop) = seg_apply j sop" if "sop \<in> set (seg_diff old new)" for j sop
    using that seg_diff_slash_free [OF assms(3,4)] seg_diff_not_root_key [OF assms(5,6)]
      apply_one_print_op [of "fst (snd sop)" j "fst sop" "snd (snd sop)"]
    by simp
  have "foldl apply_one j (map (print_op []) sops) = foldl seg_apply j sops"
    if "set sops \<subseteq> set (seg_diff old new)" for j sops
    using that by (induction sops arbitrary: j) (auto simp: one simp del: print_op_simp)
  then show ?thesis
    using assms(1,2) by (simp add: apply_ops_def print seg_diff_apply)
qed

subsection \<open>Keys that paths cannot carry\<close>

lemma join_path_extends: "\<exists>r. join_path base key = base @ r"
  by (simp add: join_path_def)

lemma diff_at_extends: "d \<in> set (diff_at path old new) \<Longrightarrow> \<exists>r. d_path d = path @ r"
proof (induction path old new arbitrary: d rule: diff_at.induct)
  case (1 path old_map new_map)
  from "1.prems" consider
      key v where "(key, v) \<in> set new_map" "d = op_add (join_path path key) v"
    | key v where "(key, v) \<in> set new_map" "d = op_update (join_path path key) v"
    | key v u where "(key, v) \<in> set new_map" "map_of old_map key = Some u" "u \<noteq> v" "is_object u \<and> is_object v"
        "d \<in> set (diff_at (join_path path key) u v)"
    | key where "d = op_remove (join_path path key)"
    by (auto simp: Let_def split: option.splits if_splits)
  then show ?case
  proof cases
    case 3
    with "1.IH" [OF 3(1) refl refl] obtain r where "d_path d = join_path path key @ r"
      by blast
    then show ?thesis
      using join_path_extends [of path key] by auto
  qed (simp_all add: op_add_def op_update_def op_remove_def join_path_extends)
qed (auto simp: op_update_def split: if_splits)

text \<open>Only the changed key gives operations.\<close>

lemma diff_insert:
  assumes "json_ok (Object m)" and "map_of m k \<noteq> Some v"
  shows "set (diff (Object m) (Object (bt_insert k v m))) =
    set (case map_of m k of
           None \<Rightarrow> [op_add (join_path ''/'' k) v]
         | Some u \<Rightarrow> if is_object u \<and> is_object v then diff_at (join_path ''/'' k) u v else [op_update (join_path ''/'' k) v])"
proof -
  have dist: "distinct (map fst (bt_insert k v m))" "distinct (map fst m)"
    using assms(1) by (auto intro!: bt_ok_distinct bt_ok_insert)
  have mem: "x \<in> set (bt_insert k v m) \<longleftrightarrow> ((map_of m)(k \<mapsto> v)) (fst x) = Some (snd x)" for x
    using map_of_eq_Some_iff [OF dist(1), of "fst x" "snd x"] by simp
  have keys: "map_of (bt_insert k v m) (fst x) \<noteq> None" if "x \<in> set m" for x
    using that map_of_eq_Some_iff [OF dist(2), of "fst x" "snd x"] by simp
  define emit where "emit = (\<lambda>(key, new_val).
      let child = join_path ''/'' key in
      case map_of m key of
        None \<Rightarrow> [op_add child new_val]
      | Some old_val \<Rightarrow>
          if old_val \<noteq> new_val
          then (if is_object old_val \<and> is_object new_val then diff_at child old_val new_val else [op_update child new_val])
          else [])"
  have "concat (map (\<lambda>(key, _). if map_of (bt_insert k v m) key = None then [op_remove (join_path ''/'' key)] else []) m) = []"
    using keys by (force simp: split_def)
  then have "diff (Object m) (Object (bt_insert k v m)) = concat (map emit (bt_insert k v m))"
    by (simp add: diff_def emit_def)
  moreover have "set (emit x) = {}" if "x \<in> set (bt_insert k v m)" "x \<noteq> (k, v)" for x
    using that mem [of x] by (auto simp: emit_def split_def prod_eq_iff split: if_splits)
  moreover have "(k, v) \<in> set (bt_insert k v m)"
    by (simp add: mem)
  ultimately have "set (diff (Object m) (Object (bt_insert k v m))) = set (emit (k, v))"
    by fastforce
  also have "\<dots> = set (case map_of m k of
           None \<Rightarrow> [op_add (join_path ''/'' k) v]
         | Some u \<Rightarrow> if is_object u \<and> is_object v then diff_at (join_path ''/'' k) u v else [op_update (join_path ''/'' k) v])"
    using assms(2) by (auto simp: emit_def Let_def split: option.split)
  finally show ?thesis .
qed

lemma slash_key_untouched:
  assumes "json_ok (Object m)" and "map_of m k \<noteq> Some v" and "CHR ''/'' \<in> set k"
  shows "json_get (apply_ops (Object m) (diff (Object m) (Object (bt_insert k v m)))) k = map_of m k"
proof -
  let ?ops = "diff (Object m) (Object (bt_insert k v m))"
  obtain a b where k: "k = a @ CHR ''/'' # b" "CHR ''/'' \<notin> set a"
    using split_list_first [OF assms(3)] by blast
  have path: "\<exists>t rest. parse_path (d_path d) = a # t # rest" if "d \<in> set ?ops" for d
  proof -
    have "\<exists>r. d_path d = ''/'' @ k @ r"
      using that diff_at_extends [of d "join_path ''/'' k"] unfolding diff_insert [OF assms(1,2)]
      by (auto simp: join_path_def op_add_def op_update_def split: option.splits if_splits)
    then obtain r where "d_path d = ''/'' @ a @ CHR ''/'' # b @ r"
      by (auto simp: k)
    then have "parse_path (d_path d) = a # split_on (CHR ''/'') (b @ r)"
      using k(2) by (simp add: parse_path_def split_on_append)
    then show ?thesis
      by (cases "split_on (CHR ''/'') (b @ r)") simp_all
  qed
  have "\<exists>m'. foldl apply_one (Object m0) ops = Object m' \<and> map_of m' k = map_of m0 k"
    if "set ops \<subseteq> set ?ops" for m0 ops
    using that
  proof (induction ops arbitrary: m0)
    case (Cons d ops)
    obtain t rest where p: "parse_path (d_path d) = a # t # rest"
      using path [of d] Cons.prems by auto
    obtain m1 where "apply_one (Object m0) d = Object m1" "map_of m1 k = map_of m0 k"
      using k by (simp add: apply_one_def p Let_def)
    with Cons.IH [of m1] Cons.prems show ?case
      by simp
  qed simp
  from this [of ?ops m] show ?thesis
    by (auto simp: apply_ops_def)
qed

lemma empty_key_replaces:
  assumes "json_ok (Object m)" and "map_of m k \<noteq> Some v"
    and "k = []" and "\<forall>u. map_of m k = Some u \<longrightarrow> \<not> (is_object u \<and> is_object v)"
  shows "apply_ops (Object m) (diff (Object m) (Object (bt_insert k v m))) = v"
proof -
  let ?ops = "diff (Object m) (Object (bt_insert k v m))"
  have one: "apply_one j (op_add ''/'' v) = v" "apply_one j (op_update ''/'' v) = v" for j
    by (simp_all add: apply_one_def parse_path_def op_add_def op_update_def op_value_def)
  obtain d where d: "set ?ops = {d}" "\<And>j. apply_one j d = v"
  proof (cases "map_of m k")
    case None
    then show thesis
      using diff_insert [OF assms(1,2)] assms(3) by (intro that [of "op_add ''/'' v"] one) (simp add: join_path_def)
  next
    case (Some u)
    then show thesis
      using diff_insert [OF assms(1,2)] assms(3,4) by (intro that [of "op_update ''/'' v"] one) (simp add: join_path_def)
  qed
  then have ops: "?ops \<noteq> []" "\<forall>d \<in> set ?ops. \<forall>j. apply_one j d = v"
    using set_empty [of ?ops] by (simp_all del: set_empty)
  have "foldl apply_one j ds = v" if "ds \<noteq> []" "\<forall>d \<in> set ds. \<forall>j. apply_one j d = v" for j ds
    using that by (induction ds rule: rev_induct) auto
  then show ?thesis
    using ops by (simp add: apply_ops_def)
qed

section \<open>Properties\<close>

text \<open>
  C11. A delta carries the whole change: for well-formed values whose object keys contain no \<^verbatim>\<open>/\<close> and whose
  top-level keys are not empty, applying the operations of \<^verbatim>\<open>diff(old, new)\<close> on the client
  turns its copy of \<open>old\<close> into \<open>new\<close>.
\<close>

theorem diff_roundtrip:
  assumes "json_ok old" and "json_ok new" and "slash_free old" and "slash_free new"
    and "root_keys_ok old" and "root_keys_ok new"
  shows "apply_ops old (diff old new) = new"
  using assms by (rule apply_ops_diff)

theorem diff_roundtrip_witness:
  "apply_ops (Object [(''a'', Object [(''x'', Null), (''y'', Bool True)]), (''b'', Null)])
     (diff (Object [(''a'', Object [(''x'', Null), (''y'', Bool True)]), (''b'', Null)])
           (Object [(''a'', Object [(''y'', Bool False)]), (''c'', Array [Null])])) =
     Object [(''a'', Object [(''y'', Bool False)]), (''c'', Array [Null])]"
  by (rule diff_roundtrip) (simp_all add: bt_ok_def)

text \<open>
  A mutation is announced exactly when it changes something: the diff of two values is
  empty if and only if they are equal.
\<close>

theorem diff_empty_iff:
  assumes "json_ok old" and "json_ok new"
  shows "diff old new = [] \<longleftrightarrow> old = new"
  using assms diff_at_refl diff_at_Nil_imp_eq unfolding diff_def by metis

theorem diff_empty_iff_witness:
  "(diff (Object [(''a'', Null)]) (Object [(''a'', Null)]) = []) = True \<and>
   (diff (Object [(''a'', Null)]) (Object [(''b'', Null)]) = []) = False"
  using diff_empty_iff [of "Object [(''a'', Null)]" "Object [(''a'', Null)]"]
    diff_empty_iff [of "Object [(''a'', Null)]" "Object [(''b'', Null)]"]
  by (simp add: bt_ok_def)

text \<open>
  C40. The side conditions of the round trip are needed: paths are printed without escaping. Give any object a new value \<open>v\<close>
  under a key \<open>k\<close>. If \<open>k\<close> contains a slash, the operations of the diff do not reach it on the client, whose object keeps
  under \<open>k\<close> what it had. If \<open>k\<close> is empty, and old and new value are not both objects, the client's whole object is replaced by \<open>v\<close>.
\<close>

theorem diff_unescaped_keys_diverge:
  assumes "json_ok (Object m)" and "map_of m k \<noteq> Some v"
  shows "(CHR ''/'' \<in> set k \<longrightarrow>
            json_get (apply_ops (Object m) (diff (Object m) (Object (bt_insert k v m)))) k = map_of m k) \<and>
         (k = [] \<and> (\<forall>u. map_of m k = Some u \<longrightarrow> \<not> (is_object u \<and> is_object v)) \<longrightarrow>
            apply_ops (Object m) (diff (Object m) (Object (bt_insert k v m))) = v)"
  using slash_key_untouched [OF assms] empty_key_replaces [OF assms] by blast

theorem diff_unescaped_keys_diverge_witness:
  "json_get (apply_ops (Object [(''a/b'', Null)])
      (diff (Object [(''a/b'', Null)]) (Object (bt_insert ''a/b'' (Bool True) [(''a/b'', Null)])))) ''a/b'' = Some Null \<and>
   apply_ops (Object [(''x'', Null)]) (diff (Object [(''x'', Null)]) (Object (bt_insert [] (Bool True) [(''x'', Null)]))) = Bool True"
  using diff_unescaped_keys_diverge [of "[(''a/b'', Null)]" "''a/b''" "Bool True"]
    diff_unescaped_keys_diverge [of "[(''x'', Null)]" "[]" "Bool True"]
  by (simp add: bt_ok_def del: bt_insert.simps)

end
