(* ===== verification/Json_Path.thy ===== *)
theory Json_Path
  imports Json_Value
begin

section \<open>Path operations on state values\<close>

text \<open>
  The helpers at the end of \<^verbatim>\<open>src/src/server.rs\<close> by which the CALL methods build the new value
  of a key: \<^verbatim>\<open>json_set_in\<close> (\<^verbatim>\<open>state.set_in\<close>, \<^verbatim>\<open>state.presence\<close>), \<^verbatim>\<open>json_remove_in\<close> (presence
  cleanup) and \<^verbatim>\<open>json_merge\<close> (\<^verbatim>\<open>state.patch\<close>). \<^verbatim>\<open>Err\<close> is \<open>Inl\<close> with the message.
\<close>

fun set_in_recursive :: "json \<Rightarrow> string list \<Rightarrow> json \<Rightarrow> json" where
  "set_in_recursive node [] val = val"
| "set_in_recursive node (key # rest) val =
     (let m = (case node of Object m \<Rightarrow> m | _ \<Rightarrow> []) in
      if rest = [] then Object (bt_insert key val m)
      else let child = (case map_of m key of Some c \<Rightarrow> c | None \<Rightarrow> Null);
               updated = set_in_recursive child rest val
           in Object (bt_insert key updated (bt_remove key m)))"

definition starts_with_slash :: "string \<Rightarrow> bool" where
  "starts_with_slash p \<longleftrightarrow> p \<noteq> [] \<and> hd p = CHR ''/''"

definition path_parts :: "string \<Rightarrow> string list" where
  "path_parts path = split_on (CHR ''/'') (trim_start (CHR ''/'') path)"

definition json_set_in :: "json \<Rightarrow> string \<Rightarrow> json \<Rightarrow> string + json" where
  "json_set_in node path new_val =
     (if path = ''/'' then Inr new_val
      else if \<not> starts_with_slash path
      then Inl (''state.set_in: path must start with '' @ [CHR 0x27] @ ''/'' @ [CHR 0x27] @ '', got ''
                @ [CHR 0x27] @ path @ [CHR 0x27])
      else Inr (set_in_recursive node (path_parts path) new_val))"

text \<open>
  The source indexes \<^verbatim>\<open>parts[0]\<close>; \<^verbatim>\<open>split\<close> never yields an empty slice, so the first equation
  is never reached from \<open>json_remove_in\<close>.
\<close>

fun remove_in_recursive :: "json \<Rightarrow> string list \<Rightarrow> json" where
  "remove_in_recursive node [] = node"
| "remove_in_recursive node (key # rest) =
     (case node of
        Object m \<Rightarrow>
          if rest = [] then Object (bt_remove key m)
          else (case map_of m key of
             Some child \<Rightarrow>
               Object (bt_insert key (remove_in_recursive child rest) (bt_remove key m))
           | None \<Rightarrow> Object (bt_remove key m))
      | other \<Rightarrow> other)"

definition json_remove_in :: "json \<Rightarrow> string \<Rightarrow> json" where
  "json_remove_in node path =
     (if path = [] \<or> path = ''/'' then Null
      else if \<not> starts_with_slash path then node
      else remove_in_recursive node (path_parts path))"

fun json_merge :: "json \<Rightarrow> json \<Rightarrow> json" where
  "json_merge (Object base_map) (Object patch_map) =
     Object (fold (\<lambda>(k, v) m.
       let existing = (case map_of m k of Some e \<Rightarrow> e | None \<Rightarrow> Null)
       in bt_insert k (json_merge existing v) (bt_remove k m)) patch_map base_map)"
| "json_merge _ patch = patch"

subsection \<open>Reading a path\<close>

text \<open>The specification's view of a value: what is found by following the segments.\<close>

fun lookup_in :: "json \<Rightarrow> string list \<Rightarrow> json option" where
  "lookup_in j [] = Some j"
| "lookup_in j (k # ks) = (case json_get j k of Some c \<Rightarrow> lookup_in c ks | None \<Rightarrow> None)"

text \<open>Two segment lists part ways at some position, so neither node contains the other.\<close>

fun forks :: "string list \<Rightarrow> string list \<Rightarrow> bool" where
  "forks (x # xs) (y # ys) = (x \<noteq> y \<or> forks xs ys)"
| "forks _ _ = False"

lemma path_parts_not_Nil [simp]: "path_parts p \<noteq> []"
  by (simp add: path_parts_def)

lemma bt_insert_remove: "bt_ok m \<Longrightarrow> bt_insert k v (bt_remove k m) = bt_insert k v m"
  by (intro bt_eqI) auto

lemma lookup_in_Object: "lookup_in (Object m) (k # ks) = (case map_of m k of Some c \<Rightarrow> lookup_in c ks | None \<Rightarrow> None)"
  by simp

lemma lookup_set_in: "lookup_in (set_in_recursive j ks v) ks = Some v"
  by (induction j ks v rule: set_in_recursive.induct) (auto simp: Let_def)

lemma lookup_in_not_object: "\<not> is_object j \<Longrightarrow> ks \<noteq> [] \<Longrightarrow> lookup_in j ks = None"
  by (cases j; cases ks) auto

lemma lookup_set_in_forks: "forks ks ls \<Longrightarrow> lookup_in (set_in_recursive j ks v) ls = lookup_in j ls"
proof (induction j ks v arbitrary: ls rule: set_in_recursive.induct)
  case (2 node key rest val)
  then obtain l ls' where ls: "ls = l # ls'"
    by (cases ls) auto
  define m where "m = (case node of Object m \<Rightarrow> m | _ \<Rightarrow> [])"
  have node: "lookup_in node (l # ls') = (case map_of m l of Some c \<Rightarrow> lookup_in c ls' | None \<Rightarrow> None)"
    by (cases node) (auto simp: m_def)
  show ?case
  proof (cases "l = key")
    case False
    then show ?thesis
      using ls node by (simp add: m_def [symmetric] Let_def)
  next
    case True
    with 2(2) ls have fk: "forks rest ls'"
      by simp
    then have "rest \<noteq> []" "ls' \<noteq> []"
      by (cases rest; cases ls'; simp)+
    with True ls fk node "2.IH" [OF m_def \<open>rest \<noteq> []\<close> refl fk] show ?thesis
      by (auto simp: m_def [symmetric] Let_def lookup_in_not_object split: option.splits)
  qed
qed simp

lemma json_ok_set_in: "json_ok j \<Longrightarrow> json_ok v \<Longrightarrow> json_ok (set_in_recursive j ks v)"
proof (induction j ks v rule: set_in_recursive.induct)
  case (2 node key rest val)
  define m where "m = (case node of Object m \<Rightarrow> m | _ \<Rightarrow> [])"
  define child where "child = (case map_of m key of Some c \<Rightarrow> c | None \<Rightarrow> Null)"
  have m: "json_ok (Object m)"
    using "2.prems"(1) by (cases node) (auto simp: m_def)
  then have child: "json_ok child"
    by (auto simp: child_def simp del: json_ok.simps(2) split: option.splits dest: json_ok_lookup)
  show ?case
  proof (cases "rest = []")
    case True
    with m "2.prems"(2) show ?thesis
      by (simp add: m_def [symmetric] Let_def del: json_ok.simps(2))
  next
    case False
    with "2.IH" [OF m_def False child_def child "2.prems"(2)] m show ?thesis
      by (simp add: m_def [symmetric] child_def [symmetric] Let_def del: json_ok.simps(2))
  qed
qed simp

subsection \<open>Removing a path\<close>

lemma lookup_remove_in: "ks \<noteq> [] \<Longrightarrow> lookup_in (remove_in_recursive j ks) ks = None"
proof (induction j ks rule: remove_in_recursive.induct)
  case (2 node key rest)
  show ?case
  proof (cases node)
    case (Object m)
    then show ?thesis
      using "2.IH" by (auto split: option.splits)
  qed auto
qed simp

lemma lookup_remove_in_forks: "forks ks ls \<Longrightarrow> lookup_in (remove_in_recursive j ks) ls = lookup_in j ls"
proof (induction j ks arbitrary: ls rule: remove_in_recursive.induct)
  case (2 node key rest)
  then obtain l ls' where ls: "ls = l # ls'"
    by (cases ls) auto
  show ?case
  proof (cases node)
    case (Object m)
    show ?thesis
    proof (cases "l = key \<and> rest \<noteq> []")
      case True
      with 2(2) ls have "forks rest ls'"
        by simp
      with True Object ls "2.IH" show ?thesis
        by (auto split: option.splits)
    next
      case False
      with 2(2) ls have "l \<noteq> key"
        by (cases rest) auto
      with Object ls show ?thesis
        by (auto split: option.splits)
    qed
  qed auto
qed simp

lemma json_ok_remove_in: "json_ok j \<Longrightarrow> json_ok (remove_in_recursive j ks)"
proof (induction j ks rule: remove_in_recursive.induct)
  case (2 node key rest)
  show ?case
  proof (cases node)
    case (Object m)
    then have m: "json_ok (Object m)"
      using "2.prems" by simp
    then have "json_ok child" if "map_of m key = Some child" for child
      using that by (rule json_ok_lookup)
    with m Object "2.IH" show ?thesis
      by (auto simp del: json_ok.simps(2) split: option.splits)
  qed (use 2 in auto)
qed simp

subsection \<open>Merging a patch\<close>

lemma map_of_fold_merge:
  "distinct (map fst pm) \<Longrightarrow>
   map_of (fold (\<lambda>(k, v) m. let e = (case map_of m k of Some e \<Rightarrow> e | None \<Rightarrow> Null)
      in bt_insert k (f e v) (bt_remove k m)) pm bm) k =
   (case map_of pm k of
      None \<Rightarrow> map_of bm k
    | Some v \<Rightarrow> Some (f (case map_of bm k of Some e \<Rightarrow> e | None \<Rightarrow> Null) v))"
proof (induction pm arbitrary: bm)
  case (Cons e pm)
  then have "map_of pm (fst e) = None"
    by (simp add: map_of_eq_None_iff)
  with Cons show ?case
    by (cases e; cases "map_of pm k") (auto simp: Let_def)
qed simp

lemma bt_ok_fold_merge:
  "bt_ok bm \<Longrightarrow> bt_ok (fold (\<lambda>(k, v) m. let e = (case map_of m k of Some e \<Rightarrow> e | None \<Rightarrow> Null)
      in bt_insert k (f e v) (bt_remove k m)) pm bm)"
  by (induction pm arbitrary: bm) (auto simp: Let_def)

definition merge_map :: "(string, json) btree \<Rightarrow> (string, json) btree \<Rightarrow> (string, json) btree" where
  "merge_map bm pm = fold (\<lambda>(k, v) m. let e = (case map_of m k of Some e \<Rightarrow> e | None \<Rightarrow> Null)
      in bt_insert k (json_merge e v) (bt_remove k m)) pm bm"

lemma json_merge_Object: "json_merge (Object bm) (Object pm) = Object (merge_map bm pm)"
  by (simp add: merge_map_def)

lemma map_of_merge_map:
  "bt_ok pm \<Longrightarrow> map_of (merge_map bm pm) k =
   (case map_of pm k of
      None \<Rightarrow> map_of bm k
    | Some v \<Rightarrow> Some (json_merge (case map_of bm k of Some e \<Rightarrow> e | None \<Rightarrow> Null) v))"
  unfolding merge_map_def by (intro map_of_fold_merge bt_ok_distinct)

lemma bt_ok_merge_map [simp]: "bt_ok bm \<Longrightarrow> bt_ok (merge_map bm pm)"
  unfolding merge_map_def by (rule bt_ok_fold_merge)

lemma json_merge_not_objects: "\<not> (is_object b \<and> is_object p) \<Longrightarrow> json_merge b p = p"
  by (cases b; cases p) auto

lemma json_merge_Null [simp]: "json_merge Null p = p"
  by (simp add: json_merge_not_objects)

lemma json_merge_idem: "json_ok b \<Longrightarrow> json_ok p \<Longrightarrow> json_merge (json_merge b p) p = json_merge b p"
proof (induction p arbitrary: b)
  case (Object pm)
  have pm: "bt_ok pm"
    using Object.prems by simp
  have IH: "json_merge (json_merge e v) v = json_merge e v" if "map_of pm k = Some v" "json_ok e" for k v e
    using Object.IH [of "(k, v)" v e] that map_of_SomeD [OF that(1)] Object.prems(2) by force
  have self: "json_merge v v = v" if "map_of pm k = Some v" for k v
    using IH [OF that, of Null] by simp
  show ?case
  proof (cases b)
    case (Object bm)
    have bm: "json_ok (Object bm)"
      using Object Object.prems by simp
    have "map_of (merge_map (merge_map bm pm) pm) = map_of (merge_map bm pm)"
    proof
      fix k
      show "map_of (merge_map (merge_map bm pm) pm) k = map_of (merge_map bm pm) k"
        using pm IH self json_ok_lookup [OF bm, of k]
        by (auto simp: map_of_merge_map split: option.splits)
    qed
    then show ?thesis
      using Object bm pm by (simp add: json_merge_Object bt_eqI del: json_merge.simps)
  qed (use pm self in \<open>auto simp: json_merge_Object json_merge_not_objects map_of_merge_map fun_eq_iff
        simp del: json_merge.simps intro!: bt_eqI split: option.splits\<close>)
qed (auto simp: json_merge_not_objects)

lemma json_ok_merge: "json_ok b \<Longrightarrow> json_ok p \<Longrightarrow> json_ok (json_merge b p)"
proof (induction p arbitrary: b)
  case (Object pm)
  show ?case
  proof (cases b)
    case (Object bm)
    have bm: "json_ok (Object bm)" and pm: "json_ok (Object pm)"
      using Object Object.prems by simp_all
    have "json_ok v" if "(k, v) \<in> set (merge_map bm pm)" for k v
    proof -
      have "map_of (merge_map bm pm) k = Some v"
        using that bm by (intro map_of_is_SomeI bt_ok_distinct) simp_all
      moreover have "json_ok (json_merge e w)" if "map_of pm k = Some w" "json_ok e" for w e
        using Object.IH [of "(k, w)" w e] that map_of_SomeD [OF that(1)] pm by force
      ultimately show ?thesis
        using pm json_ok_lookup [OF bm, of k] json_ok_lookup [OF pm, of k]
        by (auto simp: map_of_merge_map split: option.splits)
    qed
    then show ?thesis
      using Object bm by (force simp: json_merge_Object simp del: json_merge.simps)
  qed (use Object.prems in \<open>auto simp: json_merge_not_objects\<close>)
qed (auto simp: json_merge_not_objects)

subsection \<open>The operations on paths as strings\<close>

lemma json_set_in_cases:
  assumes "json_set_in j path v = Inr j'"
  shows "path = ''/'' \<and> j' = v \<or>
    path \<noteq> ''/'' \<and> starts_with_slash path \<and> j' = set_in_recursive j (path_parts path) v"
  using assms by (auto simp: json_set_in_def split: if_splits)

lemma json_ok_json_set_in: "json_set_in j path v = Inr j' \<Longrightarrow> json_ok j \<Longrightarrow> json_ok v \<Longrightarrow> json_ok j'"
  using json_set_in_cases [of j path v j'] by (auto intro: json_ok_set_in)

lemma json_ok_json_remove_in: "json_ok j \<Longrightarrow> json_ok (json_remove_in j path)"
  by (auto simp: json_remove_in_def intro: json_ok_remove_in)

section \<open>Properties\<close>

text \<open>
  \<^verbatim>\<open>state.set_in\<close> writes exactly the addressed field: when \<^verbatim>\<open>json_set_in\<close> accepts a path
  other than the root, reading the path back gives the new value, every path that parts ways
  with it reads as before, and the result is again a well-formed value.
\<close>

theorem json_set_in_correct:
  assumes "json_set_in j path v = Inr j'" and "path \<noteq> ''/''" and "json_ok j" and "json_ok v"
  shows "lookup_in j' (path_parts path) = Some v
    \<and> (\<forall>ls. forks (path_parts path) ls \<longrightarrow> lookup_in j' ls = lookup_in j ls) \<and> json_ok j'"
  using json_set_in_cases [OF assms(1)] assms(2) json_ok_json_set_in [OF assms(1,3,4)]
  by (auto simp: lookup_set_in lookup_set_in_forks)

theorem json_set_in_correct_witness:
  "lookup_in (Object [(''a'', Object [(''x'', Bool True)]), (''b'', Null)]) [''a'', ''x''] = Some (Bool True)
    \<and> lookup_in (Object [(''a'', Object [(''x'', Bool True)]), (''b'', Null)]) [''b'']
      = lookup_in (Object [(''b'', Null)]) [''b'']"
proof -
  have "json_set_in (Object [(''b'', Null)]) ''/a/x'' (Bool True)
      = Inr (Object [(''a'', Object [(''x'', Bool True)]), (''b'', Null)])"
    by (simp add: json_set_in_def starts_with_slash_def path_parts_def trim_start_def bt_remove_def)
  from json_set_in_correct [OF this] show ?thesis
    by (simp add: path_parts_def trim_start_def bt_ok_def)
qed

text \<open>
  Presence cleanup removes the session's field and nothing else: after \<^verbatim>\<open>state.presence\<close> has
  set a path, \<^verbatim>\<open>json_remove_in\<close> on the same path leaves nothing there, while every path that
  parts ways with it still reads as it did before the session wrote.
\<close>

theorem presence_set_then_remove:
  assumes "json_set_in j path v = Inr j'" and "path \<noteq> ''/''"
  shows "lookup_in (json_remove_in j' path) (path_parts path) = None
    \<and> (\<forall>ls. forks (path_parts path) ls \<longrightarrow> lookup_in (json_remove_in j' path) ls = lookup_in j ls)"
proof -
  have j': "j' = set_in_recursive j (path_parts path) v" and "starts_with_slash path"
    using json_set_in_cases [OF assms(1)] assms(2) by auto
  moreover from this(2) have "path \<noteq> []"
    by (auto simp: starts_with_slash_def)
  ultimately have "json_remove_in j' path = remove_in_recursive j' (path_parts path)"
    using assms(2) by (simp add: json_remove_in_def)
  with j' show ?thesis
    by (simp add: lookup_remove_in lookup_remove_in_forks lookup_set_in_forks)
qed

theorem presence_set_then_remove_witness:
  "lookup_in (json_remove_in (Object [(''a'', Object [(''x'', Bool True)]), (''b'', Null)]) ''/a/x'') [''a'', ''x''] = None
    \<and> lookup_in (json_remove_in (Object [(''a'', Object [(''x'', Bool True)]), (''b'', Null)]) ''/a/x'') [''b'']
      = Some Null"
proof -
  have "json_set_in (Object [(''b'', Null)]) ''/a/x'' (Bool True)
      = Inr (Object [(''a'', Object [(''x'', Bool True)]), (''b'', Null)])"
    by (simp add: json_set_in_def starts_with_slash_def path_parts_def trim_start_def bt_remove_def)
  from presence_set_then_remove [OF this]
  have "lookup_in (json_remove_in (Object [(''a'', Object [(''x'', Bool True)]), (''b'', Null)]) ''/a/x'')
      (path_parts ''/a/x'') = None"
    and "\<forall>ls. forks (path_parts ''/a/x'') ls \<longrightarrow>
      lookup_in (json_remove_in (Object [(''a'', Object [(''x'', Bool True)]), (''b'', Null)]) ''/a/x'') ls
      = lookup_in (Object [(''b'', Null)]) ls"
    by simp_all
  from this(1) this(2) [rule_format, of "[''b'']"] show ?thesis
    by (simp add: path_parts_def trim_start_def del: lookup_in.simps) simp
qed

text \<open>
  \<^verbatim>\<open>state.patch\<close> can be retried: merging the same patch a second time changes nothing, at
  any depth of nesting.
\<close>

theorem json_merge_idempotent:
  assumes "json_ok b" and "json_ok p"
  shows "json_merge (json_merge b p) p = json_merge b p"
  using assms by (rule json_merge_idem)

theorem json_merge_idempotent_witness:
  "json_merge (Object [(''a'', Object [(''x'', Null), (''y'', Bool True)])])
      (Object [(''a'', Object [(''y'', Null)])]) = Object [(''a'', Object [(''x'', Null), (''y'', Null)])]
   \<and> json_merge (json_merge (Object [(''a'', Object [(''x'', Null), (''y'', Bool True)])])
      (Object [(''a'', Object [(''y'', Null)])])) (Object [(''a'', Object [(''y'', Null)])])
     = json_merge (Object [(''a'', Object [(''x'', Null), (''y'', Bool True)])]) (Object [(''a'', Object [(''y'', Null)])])"
proof (rule conjI)
  show "json_merge (Object [(''a'', Object [(''x'', Null), (''y'', Bool True)])])
      (Object [(''a'', Object [(''y'', Null)])]) = Object [(''a'', Object [(''x'', Null), (''y'', Null)])]"
    by (simp add: bt_remove_def)
qed (rule json_merge_idempotent, simp_all add: bt_ok_def)

text \<open>
  What a patch does at a field: an unmentioned field keeps its value, a mentioned one becomes
  the merge of its old value (null when absent) and the patch's value, so objects are merged
  at every level and any other patch value replaces what was there.
\<close>

theorem json_merge_field:
  assumes "json_ok (Object p)"
  shows "json_get (json_merge (Object b) (Object p)) k =
    (case map_of p k of
       None \<Rightarrow> map_of b k
     | Some v \<Rightarrow> Some (if is_object v \<and> (\<exists>e. map_of b k = Some e \<and> is_object e)
                      then json_merge (the (map_of b k)) v else v))"
  using assms
  by (auto simp: json_merge_Object map_of_merge_map json_merge_not_objects
      simp del: json_merge.simps split: option.splits)

theorem json_merge_field_witness:
  "json_get (json_merge (Object [(''a'', Null), (''b'', Null)]) (Object [(''a'', Bool True)])) ''b'' = Some Null
   \<and> json_get (json_merge (Object [(''a'', Null), (''b'', Null)]) (Object [(''a'', Bool True)])) ''a'' = Some (Bool True)"
  using json_merge_field [of "[(''a'', Bool True)]" "[(''a'', Null), (''b'', Null)]" "''b''"]
    json_merge_field [of "[(''a'', Bool True)]" "[(''a'', Null), (''b'', Null)]" "''a''"]
  by (simp add: bt_ok_def)

end
