(* ===== verification/Wire_Frame.thy ===== *)
theory Wire_Frame
  imports Json_Value
begin

section \<open>Wire frames\<close>

text \<open>
  The model of \<^verbatim>\<open>src/src/frame.rs\<close>: the frame type codes, the frame record and its constructors,
  the outbound messages of a session, and the hand-written MessagePack assembly of DELTA frames
  (\<^verbatim>\<open>write_uint\<close>, \<^verbatim>\<open>delta_bytes\<close>). \<^verbatim>\<open>Frame::encode\<close> and \<^verbatim>\<open>Frame::decode\<close> only call the
  \<^verbatim>\<open>rmp_serde\<close> crate; they are parameters of the server model.
\<close>

subsection \<open>Frame types\<close>

definition HELLO :: u8 where "HELLO = 0x01"
definition WATCH :: u8 where "WATCH = 0x02"
definition STATE_INIT :: u8 where "STATE_INIT = 0x03"
definition DELTA :: u8 where "DELTA = 0x04"
definition CALL :: u8 where "CALL = 0x05"
definition RESULT :: u8 where "RESULT = 0x06"
definition ERROR :: u8 where "ERROR = 0x07"
definition ACK :: u8 where "ACK = 0x08"
definition HEARTBEAT :: u8 where "HEARTBEAT = 0x09"
definition RESUME :: u8 where "RESUME = 0x0A"
definition AUTH :: u8 where "AUTH = 0x0B"
definition AUTH_OK :: u8 where "AUTH_OK = 0x0C"
definition UNWATCH :: u8 where "UNWATCH = 0x0D"

lemmas frame_type_defs = HELLO_def WATCH_def STATE_INIT_def DELTA_def CALL_def RESULT_def ERROR_def
  ACK_def HEARTBEAT_def RESUME_def AUTH_def AUTH_OK_def UNWATCH_def

subsection \<open>Frames\<close>

record frame =
  frame_type :: u8
  stream_id :: u32
  seq :: u64
  body :: json

datatype outbound_msg =
    FrameMsg frame
  | Bytes bytes
  | ArcDelta u32 bytes
  | Ping
  | Pong bytes

definition json_u64 :: "u64 \<Rightarrow> json" where
  "json_u64 n = Number (PosInt n)"

definition opt_json :: "json option \<Rightarrow> json" where
  "opt_json o1 = (case o1 of Some v \<Rightarrow> v | None \<Rightarrow> Null)"

definition hello :: "bool \<Rightarrow> json \<Rightarrow> frame" where
  "hello auth capabilities =
     \<lparr>frame_type = HELLO, stream_id = 0, seq = 0,
      body = json_obj [(''version'', String ''0.1''), (''server'', String ''SODP-RS''),
                       (''auth'', Bool auth), (''capabilities'', capabilities)]\<rparr>"

definition auth_ok :: "string \<Rightarrow> frame" where
  "auth_ok sub =
     \<lparr>frame_type = AUTH_OK, stream_id = 0, seq = 0, body = json_obj [(''sub'', String sub)]\<rparr>"

definition state_init ::
  "u32 \<Rightarrow> u64 \<Rightarrow> string \<Rightarrow> u64 \<Rightarrow> json \<Rightarrow> bool \<Rightarrow> json option \<Rightarrow> frame" where
  "state_init sid sq state_key version value initialized params =
     (let b = [(''state'', String state_key), (''version'', json_u64 version),
               (''value'', value), (''initialized'', Bool initialized)]
      in \<lparr>frame_type = STATE_INIT, stream_id = sid, seq = sq,
          body = (case params of
                    None \<Rightarrow> json_obj b
                  | Some p \<Rightarrow> json_obj (b @ [(''params'', p)]))\<rparr>)"

definition delta :: "u32 \<Rightarrow> u64 \<Rightarrow> u64 \<Rightarrow> json \<Rightarrow> frame" where
  "delta sid sq version ops =
     \<lparr>frame_type = DELTA, stream_id = sid, seq = sq,
      body = json_obj [(''version'', json_u64 version), (''ops'', ops)]\<rparr>"

definition result_ok :: "u32 \<Rightarrow> u64 \<Rightarrow> string \<Rightarrow> json option \<Rightarrow> frame" where
  "result_ok sid sq call_id data =
     \<lparr>frame_type = RESULT, stream_id = sid, seq = sq,
      body = json_obj [(''call_id'', String call_id), (''success'', Bool True), (''data'', opt_json data)]\<rparr>"

definition error :: "u32 \<Rightarrow> u64 \<Rightarrow> u32 \<Rightarrow> string \<Rightarrow> frame" where
  "error sid sq code message =
     \<lparr>frame_type = ERROR, stream_id = sid, seq = sq,
      body = json_obj [(''code'', json_u64 (ucast code)), (''message'', String message)]\<rparr>"

definition heartbeat :: frame where
  "heartbeat = \<lparr>frame_type = HEARTBEAT, stream_id = 0, seq = 0, body = Null\<rparr>"

subsection \<open>MessagePack assembly of DELTA frames\<close>

definition shr8 :: "u64 \<Rightarrow> nat \<Rightarrow> u8" where
  "shr8 v n = ucast (drop_bit n v)"

definition write_uint :: "u64 \<Rightarrow> bytes" where
  "write_uint v =
     (if v \<le> 0x7f then [shr8 v 0]
      else if v \<le> 0xff then [0xcc, shr8 v 0]
      else if v \<le> 0xffff then [0xcd, shr8 v 8, shr8 v 0]
      else if v \<le> 0xffffffff then [0xce, shr8 v 24, shr8 v 16, shr8 v 8, shr8 v 0]
      else 0xcf # map (\<lambda>i. shr8 v (i * 8)) (rev [0..<8]))"

definition delta_bytes :: "u32 \<Rightarrow> u64 \<Rightarrow> bytes \<Rightarrow> bytes" where
  "delta_bytes sid sq body_mp = [0x94, DELTA] @ write_uint (ucast sid) @ write_uint sq @ body_mp"

subsection \<open>The MessagePack format of unsigned integers\<close>

text \<open>
  The reader the MessagePack specification prescribes: a positive fixint, or one of the
  markers \<^verbatim>\<open>uint 8\<close> to \<^verbatim>\<open>uint 64\<close> followed by that many bytes in big-endian order.
\<close>

definition be_nat :: "bytes \<Rightarrow> nat" where
  "be_nat bs = foldl (\<lambda>a b. a * 256 + unat b) 0 bs"

definition take_be :: "nat \<Rightarrow> bytes \<Rightarrow> (nat \<times> bytes) option" where
  "take_be n bs = (if n \<le> length bs then Some (be_nat (take n bs), drop n bs) else None)"

fun read_uint :: "bytes \<Rightarrow> (nat \<times> bytes) option" where
  "read_uint [] = None"
| "read_uint (m # bs) =
     (if m \<le> 0x7f then Some (unat m, bs)
      else if m = 0xcc then take_be 1 bs
      else if m = 0xcd then take_be 2 bs
      else if m = 0xce then take_be 4 bs
      else if m = 0xcf then take_be 8 bs
      else None)"

text \<open>A DELTA frame: a four-element array of the type, the stream, the sequence and the body.\<close>

definition read_delta :: "bytes \<Rightarrow> (nat \<times> nat \<times> bytes) option" where
  "read_delta bs =
     (case bs of
        a # t # rest \<Rightarrow>
          if a = 0x94 \<and> t = DELTA
          then (case read_uint rest of
             None \<Rightarrow> None
           | Some (sid, rest') \<Rightarrow>
               (case read_uint rest' of
                  None \<Rightarrow> None
                | Some (sq, body_mp) \<Rightarrow> Some (sid, sq, body_mp)))
          else None
      | _ \<Rightarrow> None)"

lemma unat_shr8: "unat (shr8 v n) = unat v div 2 ^ n mod 256"
  by (simp add: shr8_def unat_low_byte unat_drop_bit)

lemma foldl_be:
  "foldl (\<lambda>a b. a * 256 + unat b) c bs = c * 256 ^ length bs + be_nat bs" for bs :: bytes
proof (induction bs arbitrary: c)
  case (Cons b bs)
  show ?case
    using Cons [of "c * 256 + unat b"] Cons [of "unat b"] by (simp add: be_nat_def algebra_simps)
qed (simp add: be_nat_def)

lemma be_nat_bytes: "be_nat (map (\<lambda>i. shr8 v (i * 8)) (rev [0..<k])) = unat v mod 256 ^ k"
proof (induction k)
  case 0
  then show ?case by (simp add: be_nat_def)
next
  case (Suc k)
  have pow: "(2 :: nat) ^ (k * 8) = 256 ^ k"
    by (subst mult.commute) (simp add: power_mult)
  have split: "unat v mod 256 ^ Suc k = unat v div 256 ^ k mod 256 * 256 ^ k + unat v mod 256 ^ k"
    using mod_mult2_eq [of "unat v" "256 ^ k" 256] by (simp add: mult.commute)
  have "be_nat (map (\<lambda>i. shr8 v (i * 8)) (rev [0..<Suc k]))
      = unat (shr8 v (k * 8)) * 256 ^ k + be_nat (map (\<lambda>i. shr8 v (i * 8)) (rev [0..<k]))"
    using foldl_be [of "unat (shr8 v (k * 8))" "map (\<lambda>i. shr8 v (i * 8)) (rev [0..<k])"]
    by (simp add: be_nat_def)
  then show ?case
    by (simp only: Suc unat_shr8 pow split)
qed

text \<open>Writing is reading backwards, whatever follows.\<close>

lemma shr8_list:
  "[shr8 v 0] = map (\<lambda>i. shr8 v (i * 8)) (rev [0..<1])"
  "[shr8 v 8, shr8 v 0] = map (\<lambda>i. shr8 v (i * 8)) (rev [0..<2])"
  "[shr8 v 24, shr8 v 16, shr8 v 8, shr8 v 0] = map (\<lambda>i. shr8 v (i * 8)) (rev [0..<4])"
  by (simp_all add: upt_rec)

lemma take_be_shr8:
  assumes "unat v < 256 ^ k"
  shows "take_be k (map (\<lambda>i. shr8 v (i * 8)) (rev [0..<k]) @ rest) = Some (unat v, rest)"
  using assms by (simp add: take_be_def be_nat_bytes)

text \<open>The five formats, by the range of the value.\<close>

lemma write_uint_cases:
  obtains "write_uint v = [shr8 v 0]" "unat v \<le> 127"
  | "write_uint v = 0xcc # map (\<lambda>i. shr8 v (i * 8)) (rev [0..<1])" "127 < unat v" "unat v < 256 ^ 1"
  | "write_uint v = 0xcd # map (\<lambda>i. shr8 v (i * 8)) (rev [0..<2])" "256 ^ 1 \<le> unat v" "unat v < 256 ^ 2"
  | "write_uint v = 0xce # map (\<lambda>i. shr8 v (i * 8)) (rev [0..<4])" "256 ^ 2 \<le> unat v" "unat v < 256 ^ 4"
  | "write_uint v = 0xcf # map (\<lambda>i. shr8 v (i * 8)) (rev [0..<8])" "256 ^ 4 \<le> unat v" "unat v < 256 ^ 8"
proof -
  have top: "unat v < 256 ^ 8"
    using unat_u64_less [of v] by simp
  have "write_uint v =
     (if unat v \<le> 127 then [shr8 v 0]
      else if unat v < 256 ^ 1 then 0xcc # map (\<lambda>i. shr8 v (i * 8)) (rev [0..<1])
      else if unat v < 256 ^ 2 then 0xcd # map (\<lambda>i. shr8 v (i * 8)) (rev [0..<2])
      else if unat v < 256 ^ 4 then 0xce # map (\<lambda>i. shr8 v (i * 8)) (rev [0..<4])
      else 0xcf # map (\<lambda>i. shr8 v (i * 8)) (rev [0..<8]))"
    unfolding write_uint_def shr8_list [symmetric] by (simp add: word_le_nat_alt)
  then show thesis
    using that top by (auto split: if_splits)
qed

lemma read_write_uint: "read_uint (write_uint v @ rest) = Some (unat v, rest)"
proof (cases v rule: write_uint_cases)
  case 1
  then have "unat (shr8 v 0) = unat v"
    by (simp add: unat_shr8)
  with 1 show ?thesis
    by (simp add: word_le_nat_alt)
qed (simp_all only: append_Cons read_uint.simps take_be_shr8, simp_all)

lemma length_write_uint: "length (write_uint v) \<in> {1, 2, 3, 5, 9}"
  by (cases v rule: write_uint_cases) simp_all

lemma read_delta_bytes: "read_delta (delta_bytes sid sq body_mp) = Some (unat sid, unat sq, body_mp)"
proof -
  have "unat (ucast sid :: u64) = unat sid"
    using unat_u32_less [of sid] by (simp add: unsigned_ucast_eq take_bit_nat_eq_self)
  then show ?thesis
    by (simp add: read_delta_def delta_bytes_def read_write_uint)
qed

text \<open>Every other encoding of the same number the reader accepts is at least as long.\<close>

lemma read_uint_length:
  assumes "read_uint bs = Some (n, rest)"
  shows "\<exists>k. length bs = length rest + 1 + k \<and> (k = 0 \<and> n \<le> 127 \<or> k \<in> {1, 2, 4, 8} \<and> n < 256 ^ k)"
proof -
  have be: "be_nat cs < 256 ^ length cs" for cs
  proof (induction cs)
    case (Cons c cs)
    have "unat c * 256 ^ length cs \<le> 255 * 256 ^ length cs"
      using unat_u8_less [of c] by (intro mult_right_mono) auto
    moreover have "be_nat (c # cs) = unat c * 256 ^ length cs + be_nat cs"
      using foldl_be [of "unat c" cs] by (simp add: be_nat_def)
    ultimately have "be_nat (c # cs) < 255 * 256 ^ length cs + 256 ^ length cs"
      using Cons by linarith
    then show ?case
      by simp
  qed (simp add: be_nat_def)
  have tk: "length cs = length rest + k \<and> n < 256 ^ k" if "take_be k cs = Some (n, rest)" for k cs
    using that be [of "take k cs"] by (auto simp: take_be_def min_def split: if_splits)
  show ?thesis
    using assms
    by (cases bs) (auto simp: word_le_nat_alt dest!: tk split: if_splits)
qed

lemma write_uint_shortest:
  assumes "read_uint bs = Some (unat v, rest)"
  shows "length (write_uint v) + length rest \<le> length bs"
proof -
  obtain k where k: "length bs = length rest + 1 + k"
    "k = 0 \<and> unat v \<le> 127 \<or> k \<in> {1, 2, 4, 8} \<and> unat v < 256 ^ k"
    using read_uint_length [OF assms] by blast
  then show ?thesis
    by (cases v rule: write_uint_cases) auto
qed

section \<open>Properties\<close>

text \<open>
  C30. The hand-written DELTA encoder is correct: reading the bytes of \<^verbatim>\<open>delta_bytes\<close> by the
  MessagePack rules gives back the stream, the sequence number and the unchanged body.
\<close>

theorem delta_bytes_roundtrip:
  "read_delta (delta_bytes sid sq body_mp) = Some (unat sid, unat sq, body_mp)"
  by (rule read_delta_bytes)

text \<open>
  \<^verbatim>\<open>write_uint\<close> uses the most compact form, as its comment says: it round-trips, and no byte
  string that MessagePack reads as the same number is shorter.
\<close>

theorem write_uint_compact:
  assumes "read_uint bs = Some (unat v, rest)"
  shows "read_uint (write_uint v @ rest) = Some (unat v, rest)
    \<and> length (write_uint v @ rest) \<le> length bs"
  using write_uint_shortest [OF assms] by (simp add: read_write_uint)

theorem write_uint_compact_witness:
  "read_uint (write_uint 5 @ [7]) = Some (5, [7]) \<and> length (write_uint 5 @ [7]) \<le> 4"
proof -
  have "read_uint [0xcd, 0, 5, 7] = Some (unat (5 :: u64), [7])"
    by (simp add: take_be_def be_nat_def)
  from write_uint_compact [OF this] show ?thesis
    by simp
qed

end
