(* ===== verification/Session_State.thy ===== *)
theory Session_State
  imports Json_Value
begin

section \<open>Sessions and rate limiting\<close>

text \<open>
  The model of \<^verbatim>\<open>src/src/session.rs\<close>: the per-connection session (its subscriptions, presence
  paths, sequence and stream counters) and the fixed-window rate limiter. Time is a number of
  nanoseconds on the monotonic clock; a call of \<^verbatim>\<open>allow\<close> gets the time at which it runs, and
  the difference of two times is truncated at zero as \<^verbatim>\<open>Instant::elapsed\<close> is. The map
  \<^verbatim>\<open>HashMap<u32, WatchEntry>\<close> is an association list in the map's iteration order.
\<close>

definition nanos_per_sec :: nat where
  "nanos_per_sec = 1000000000"

definition as_secs :: "nat \<Rightarrow> nat" where
  "as_secs d = d div nanos_per_sec"

subsection \<open>The rate limiter\<close>

record rate_limiter =
  max_per_sec :: u32
  count :: u32
  window_start :: nat

definition limiter_new :: "nat \<Rightarrow> u32 \<Rightarrow> rate_limiter" where
  "limiter_new now max_ps = \<lparr>max_per_sec = max_ps, count = 0, window_start = now\<rparr>"

definition allow :: "nat \<Rightarrow> rate_limiter \<Rightarrow> bool \<times> rate_limiter" where
  "allow now l =
     (let l1 = (if as_secs (now - window_start l) \<ge> 1
                then l\<lparr>count := 0, window_start := now\<rparr> else l)
      in if count l1 < max_per_sec l1
         then (True, l1\<lparr>count := count l1 + 1\<rparr>)
         else (False, l1))"

subsection \<open>The session\<close>

record watch_entry =
  w_key :: string
  last_seq :: u64
  w_params :: "json option"

record presence_entry =
  p_key :: string
  p_path :: string

record session =
  s_id :: string
  s_sub :: "string option"
  s_claims :: json
  watches :: "(u32 \<times> watch_entry) list"
  presence :: "presence_entry list"
  write_limiter :: "rate_limiter option"
  watch_limiter :: "rate_limiter option"
  next_stream_id :: u32
  seq_counter :: u64

definition session_new :: "string \<Rightarrow> nat \<Rightarrow> u32 option \<Rightarrow> u32 option \<Rightarrow> session" where
  "session_new uuid now write_limit watch_limit =
     \<lparr>s_id = uuid, s_sub = None, s_claims = Object [], watches = [], presence = [],
      write_limiter = map_option (limiter_new now) write_limit,
      watch_limiter = map_option (limiter_new now) watch_limit,
      next_stream_id = 10, seq_counter = 0\<rparr>"

definition next_seq :: "session \<Rightarrow> u64 \<times> session" where
  "next_seq s = (let n = seq_counter s + 1 in (n, s\<lparr>seq_counter := n\<rparr>))"

definition allocate_stream :: "session \<Rightarrow> u32 \<times> session" where
  "allocate_stream s = (next_stream_id s, s\<lparr>next_stream_id := next_stream_id s + 1\<rparr>)"

definition add_watch :: "u32 \<Rightarrow> string \<Rightarrow> json option \<Rightarrow> session \<Rightarrow> session" where
  "add_watch sid key params s =
     s\<lparr>watches := AList.update sid \<lparr>w_key = key, last_seq = 0, w_params = params\<rparr> (watches s)\<rparr>"

definition remove_watch :: "u32 \<Rightarrow> session \<Rightarrow> watch_entry option \<times> session" where
  "remove_watch sid s = (map_of (watches s) sid, s\<lparr>watches := AList.delete sid (watches s)\<rparr>)"

definition ack_stream :: "u32 \<Rightarrow> u64 \<Rightarrow> session \<Rightarrow> session" where
  "ack_stream sid sq s =
     (case map_of (watches s) sid of
        None \<Rightarrow> s
      | Some w \<Rightarrow> s\<lparr>watches := AList.update sid (w\<lparr>last_seq := sq\<rparr>) (watches s)\<rparr>)"

definition watch_stream_id :: "string \<Rightarrow> session \<Rightarrow> u32 option" where
  "watch_stream_id key s = map_option fst (find (\<lambda>(_, e). w_key e = key) (watches s))"

definition add_presence :: "string \<Rightarrow> string \<Rightarrow> session \<Rightarrow> session" where
  "add_presence key path s =
     (if list_ex (\<lambda>e. p_key e = key \<and> p_path e = path) (presence s) then s
      else s\<lparr>presence := presence s @ [\<lparr>p_key = key, p_path = path\<rparr>]\<rparr>)"

subsection \<open>The fixed-window limiter interface\<close>

text \<open>
  The contract of a limiter, seen through what it has granted in its current window
  (\<open>used\<close>), its budget and the start of the window: inside the window it grants while the budget
  lasts; a call a second or more after the start opens a new window. \<open>room l n\<close> says that the
  limiter's counter can take \<open>n\<close> more calls.
\<close>

fun run_limiter :: "(nat \<Rightarrow> 'l \<Rightarrow> bool \<times> 'l) \<Rightarrow> 'l \<Rightarrow> nat list \<Rightarrow> bool list" where
  "run_limiter alw l [] = []"
| "run_limiter alw l (t # ts) = fst (alw t l) # run_limiter alw (snd (alw t l)) ts"

definition grants :: "bool list \<Rightarrow> nat" where
  "grants bs = length (filter id bs)"

locale window_limiter =
  fixes alw :: "nat \<Rightarrow> 'l \<Rightarrow> bool \<times> 'l"
    and used :: "'l \<Rightarrow> nat"
    and budget :: "'l \<Rightarrow> nat"
    and wstart :: "'l \<Rightarrow> nat"
    and room :: "'l \<Rightarrow> nat \<Rightarrow> bool"
  assumes same_window: "room l (Suc n) \<Longrightarrow> t - wstart l < nanos_per_sec \<Longrightarrow>
      fst (alw t l) = (used l < budget l) \<and>
      used (snd (alw t l)) = (if used l < budget l then Suc (used l) else used l) \<and>
      wstart (snd (alw t l)) = wstart l"
    and new_window: "room l (Suc n) \<Longrightarrow> nanos_per_sec \<le> t - wstart l \<Longrightarrow>
      fst (alw t l) = (0 < budget l) \<and> used (snd (alw t l)) = min 1 (budget l) \<and>
      wstart (snd (alw t l)) = t"
    and keeps_budget: "budget (snd (alw t l)) = budget l"
    and keeps_room: "room l (Suc n) \<Longrightarrow> room (snd (alw t l)) n"
    and used_le: "used l \<le> budget l"
begin

text \<open>Inside one window the limiter grants exactly the first calls the budget covers.\<close>

lemma grants_in_window:
  "room l (length ts) \<Longrightarrow> \<forall>t \<in> set ts. t - wstart l < nanos_per_sec \<Longrightarrow>
     grants (run_limiter alw l ts) = min (length ts) (budget l - used l)"
proof (induction ts arbitrary: l)
  case (Cons t ts)
  have room: "room l (Suc (length ts))"
    using Cons.prems by simp
  note step = same_window [OF room, of t]
  have "grants (run_limiter alw (snd (alw t l)) ts)
      = min (length ts) (budget (snd (alw t l)) - used (snd (alw t l)))"
    using Cons.prems keeps_room [OF room] step by (intro Cons.IH) auto
  with step Cons.prems show ?case
    by (auto simp: grants_def keeps_budget)
qed (simp add: grants_def)

text \<open>Over any second, wherever the windows start, at most twice the budget.\<close>

lemma grants_after_reset:
  assumes "room l (length ts)" and "sorted ts" and "wstart l \<ge> a"
    and "\<forall>t \<in> set ts. t < a + nanos_per_sec"
  shows "grants (run_limiter alw l ts) \<le> budget l - used l"
proof -
  have "\<forall>t \<in> set ts. t - wstart l < nanos_per_sec"
    using assms(3,4) by (auto simp: nanos_per_sec_def)
  with assms(1) show ?thesis
    by (simp add: grants_in_window)
qed

lemma grants_any_second:
  "room l (length ts) \<Longrightarrow> sorted ts \<Longrightarrow> \<forall>t \<in> set ts. a \<le> t \<and> t < a + nanos_per_sec \<Longrightarrow>
     grants (run_limiter alw l ts) \<le> 2 * budget l - used l"
proof (induction ts arbitrary: l)
  case (Cons t ts)
  have room: "room l (Suc (length ts))"
    using Cons.prems by simp
  let ?l = "snd (alw t l)"
  have room': "room ?l (length ts)"
    using room by (rule keeps_room)
  show ?case
  proof (cases "t - wstart l < nanos_per_sec")
    case True
    note step = same_window [OF room True]
    have "grants (run_limiter alw ?l ts) \<le> 2 * budget ?l - used ?l"
      using Cons.prems room' by (intro Cons.IH) auto
    with step used_le [of l] show ?thesis
      by (auto simp: grants_def keeps_budget split: if_splits)
  next
    case False
    then have step: "fst (alw t l) = (0 < budget l)" "used ?l = min 1 (budget l)" "wstart ?l = t"
      using new_window [OF room, of t] by auto
    have "grants (run_limiter alw ?l ts) \<le> budget ?l - used ?l"
      using Cons.prems room' step(3) by (intro grants_after_reset [where a = a]) auto
    with step used_le [of l] show ?thesis
      by (auto simp: grants_def keeps_budget)
  qed
qed (simp add: grants_def)

end

text \<open>The session's limiter counts only what it grants, so its counter never overflows.\<close>

lemma as_secs_ge: "as_secs d \<ge> 1 \<longleftrightarrow> nanos_per_sec \<le> d"
  by (simp add: as_secs_def nanos_per_sec_def Suc_le_eq div_greater_zero_iff)

lemma unat_inc_less: "(c :: u32) < m \<Longrightarrow> unat (c + 1) = Suc (unat c)"
  using unat_u32_less [of m] unat_Suc_u32 [of c] by (simp add: word_less_nat_alt)

interpretation session_limiter: window_limiter allow
  "\<lambda>l. min (unat (count l)) (unat (max_per_sec l))" "\<lambda>l. unat (max_per_sec l)" window_start "\<lambda>l n. True"
proof unfold_locales
  fix l :: rate_limiter and t n :: nat
  assume "t - window_start l < nanos_per_sec"
  then have "\<not> as_secs (t - window_start l) \<ge> 1"
    by (simp only: as_secs_ge not_le)
  then show "fst (allow t l) = (min (unat (count l)) (unat (max_per_sec l)) < unat (max_per_sec l)) \<and>
      min (unat (count (snd (allow t l)))) (unat (max_per_sec (snd (allow t l)))) =
      (if min (unat (count l)) (unat (max_per_sec l)) < unat (max_per_sec l)
       then Suc (min (unat (count l)) (unat (max_per_sec l))) else min (unat (count l)) (unat (max_per_sec l))) \<and>
      window_start (snd (allow t l)) = window_start l"
    by (auto simp: allow_def Let_def word_less_nat_alt unat_inc_less)
next
  fix l :: rate_limiter and t n :: nat
  assume "nanos_per_sec \<le> t - window_start l"
  then have "as_secs (t - window_start l) \<ge> 1"
    by (simp only: as_secs_ge)
  then show "fst (allow t l) = (0 < unat (max_per_sec l)) \<and>
      min (unat (count (snd (allow t l)))) (unat (max_per_sec (snd (allow t l)))) = min 1 (unat (max_per_sec l)) \<and>
      window_start (snd (allow t l)) = t"
    by (auto simp: allow_def Let_def word_less_nat_alt)
next
  fix l :: rate_limiter and t :: nat
  show "unat (max_per_sec (snd (allow t l))) = unat (max_per_sec l)"
    by (simp add: allow_def Let_def)
qed simp_all

subsection \<open>The session invariant\<close>

text \<open>
  Stream numbers are handed out in ascending order from 10, so every subscription's number is
  below the next one; presence entries are registered once.
\<close>

definition session_ok :: "session \<Rightarrow> bool" where
  "session_ok s \<longleftrightarrow>
     distinct (map fst (watches s)) \<and>
     (\<forall>sid \<in> fst ` set (watches s). 10 \<le> unat sid \<and> unat sid < unat (next_stream_id s)) \<and>
     10 \<le> unat (next_stream_id s) \<and> distinct (presence s)"

lemma session_ok_new: "session_ok (session_new uuid now wl rl)"
  by (simp add: session_ok_def session_new_def)

lemma session_ok_next_seq: "session_ok s \<Longrightarrow> session_ok (snd (next_seq s))"
  by (simp add: session_ok_def next_seq_def Let_def)

lemma session_ok_ack:
  assumes "session_ok s"
  shows "session_ok (ack_stream sid sq s)"
proof (cases "map_of (watches s) sid")
  case (Some w)
  then have "fst ` set (AList.update sid (w\<lparr>last_seq := sq\<rparr>) (watches s)) = fst ` set (watches s)"
    by (auto simp: dom_update dest: map_of_SomeD intro: rev_image_eqI)
  with Some assms show ?thesis
    by (simp add: session_ok_def ack_stream_def distinct_update)
qed (use assms in \<open>simp add: ack_stream_def\<close>)

lemma session_ok_remove_watch:
  assumes "session_ok s"
  shows "session_ok (snd (remove_watch sid s))"
  using assms distinct_delete [of "watches s" sid]
  by (auto simp: session_ok_def remove_watch_def AList.delete_eq)

lemma session_ok_add_presence: "session_ok s \<Longrightarrow> session_ok (add_presence key path s)"
  by (auto simp: session_ok_def add_presence_def list_ex_iff)

lemma session_ok_subscribe:
  assumes "session_ok s" and "unat (next_stream_id s) + 1 < 2 ^ 32"
  shows "session_ok (add_watch (next_stream_id s) key params (snd (allocate_stream s)))"
  using assms unat_Suc_u32 [of "next_stream_id s"]
  by (auto simp: session_ok_def add_watch_def allocate_stream_def distinct_update dom_update
      less_Suc_eq)

lemma watch_stream_id_Some:
  "watch_stream_id key s = Some sid \<Longrightarrow> \<exists>e. (sid, e) \<in> set (watches s) \<and> w_key e = key"
  by (auto simp: watch_stream_id_def find_Some_iff) (metis nth_mem)

lemma watch_stream_id_None: "watch_stream_id key s = None \<longleftrightarrow> (\<forall>(sid, e) \<in> set (watches s). w_key e \<noteq> key)"
  by (auto simp: watch_stream_id_def find_None_iff)

section \<open>Properties\<close>

text \<open>
  C29. The write and watch limits hold: calls made within one second of the start of a fresh
  window are granted exactly up to the configured maximum, and over any second at all, however
  it lies across the windows, at most twice the maximum are granted.
\<close>

theorem rate_limit_bounds:
  assumes "sorted ts" and "\<forall>t \<in> set ts. a \<le> t \<and> t < a + nanos_per_sec"
  shows "grants (run_limiter allow l ts) \<le> 2 * unat (max_per_sec l)
    \<and> grants (run_limiter allow (limiter_new a m) ts) = min (length ts) (unat m)"
proof
  have "grants (run_limiter allow l ts) \<le> 2 * unat (max_per_sec l) - min (unat (count l)) (unat (max_per_sec l))"
    using assms by (intro session_limiter.grants_any_second) auto
  then show "grants (run_limiter allow l ts) \<le> 2 * unat (max_per_sec l)"
    by linarith
  have "\<forall>t \<in> set ts. t - window_start (limiter_new a m) < nanos_per_sec"
    using assms(2) by (auto simp: limiter_new_def nanos_per_sec_def)
  then show "grants (run_limiter allow (limiter_new a m) ts) = min (length ts) (unat m)"
    using session_limiter.grants_in_window [of ts "limiter_new a m"] by (simp add: limiter_new_def)
qed

theorem rate_limit_bounds_witness:
  "grants (run_limiter allow (limiter_new 5 2) [5, 6, 7]) = 2
   \<and> grants (run_limiter allow (limiter_new 0 1) [999999999, 1000000000]) \<le> 2
   \<and> grants (run_limiter allow (limiter_new 0 1) [999999999, 1000000000]) = 2"
proof -
  have "grants (run_limiter allow (limiter_new 5 2) [5, 6, 7]) = 2"
    using rate_limit_bounds [of "[5, 6, 7]" 5 "limiter_new 0 0" 2] by (simp add: nanos_per_sec_def)
  moreover have "grants (run_limiter allow (limiter_new 0 1) [999999999, 1000000000]) \<le> 2"
    using rate_limit_bounds [of "[999999999, 1000000000]" 999999999 "limiter_new 0 1" 1]
    by (simp add: nanos_per_sec_def limiter_new_def)
  moreover have "grants (run_limiter allow (limiter_new 0 1) [999999999, 1000000000]) = 2"
    by (simp add: nanos_per_sec_def limiter_new_def allow_def as_secs_def grants_def)
  ultimately show ?thesis
    by blast
qed

text \<open>
  A new subscription never takes over a live one: the number handed out by
  \<^verbatim>\<open>allocate_stream\<close> is not in use, adding the watch leaves every other watch as it was, and the
  session stays well-formed, as long as the 32-bit counter has not wrapped around.
\<close>

theorem subscribe_stream_fresh:
  assumes "session_ok s" and "unat (next_stream_id s) + 1 < 2 ^ 32"
  shows "map_of (watches s) (fst (allocate_stream s)) = None
    \<and> map_of (watches (add_watch (fst (allocate_stream s)) key params (snd (allocate_stream s)))) =
       (map_of (watches s))(next_stream_id s \<mapsto> \<lparr>w_key = key, last_seq = 0, w_params = params\<rparr>)
    \<and> session_ok (add_watch (fst (allocate_stream s)) key params (snd (allocate_stream s)))"
proof -
  have "next_stream_id s \<notin> fst ` set (watches s)"
    using assms(1) by (auto simp: session_ok_def)
  then show ?thesis
    using session_ok_subscribe [OF assms]
    by (simp add: allocate_stream_def add_watch_def map_of_eq_None_iff update_conv')
qed

theorem subscribe_stream_fresh_witness:
  "map_of (watches (session_new ''u'' 0 None None)) (fst (allocate_stream (session_new ''u'' 0 None None))) = None
   \<and> session_ok (add_watch 10 ''k'' None (snd (allocate_stream (session_new ''u'' 0 None None))))"
proof -
  have "session_ok (session_new ''u'' 0 None None)"
    by (rule session_ok_new)
  from subscribe_stream_fresh [OF this, of "''k''" None] show ?thesis
    by (simp add: session_new_def allocate_stream_def)
qed

end
