(* ===== verification/Schema_Check.thy ===== *)
theory Schema_Check
  imports Json_Value
begin

section \<open>Schema validation\<close>

text \<open>
  The model of \<^verbatim>\<open>src/src/schema.rs\<close>: schema nodes, the recursive validator and the registry. The
  \<^verbatim>\<open>HashMap\<close> of declared fields is an association list in the map's iteration order, which decides
  only which of several errors is reported first. \<^verbatim>\<open>Ok(())\<close> is \<open>Inr ()\<close>, \<^verbatim>\<open>Err(msg)\<close> is \<open>Inl msg\<close>.
  Reading the schema file is left out: a registry is given by its parsed contents.
\<close>

datatype schema_node =
    Simple string
  | Full string bool "(string \<times> schema_node) list"

fun type_name :: "schema_node \<Rightarrow> string" where
  "type_name (Simple t) = t"
| "type_name (Full t _ _) = t"

fun nullable :: "schema_node \<Rightarrow> bool" where
  "nullable (Simple _) = False"
| "nullable (Full _ n _) = n"

fun fields :: "schema_node \<Rightarrow> (string \<times> schema_node) list option" where
  "fields (Simple _) = None"
| "fields (Full _ _ fs) = Some fs"

fun kind :: "json \<Rightarrow> string" where
  "kind Null = ''null''"
| "kind (Bool _) = ''Bool''"
| "kind (Number n) = (case n of Float _ \<Rightarrow> ''Float'' | _ \<Rightarrow> ''Int'')"
| "kind (String _) = ''String''"
| "kind (Array _) = ''Array''"
| "kind (Object _) = ''Object''"

definition expected :: "string \<Rightarrow> string \<Rightarrow> json \<Rightarrow> string" where
  "expected path what v = path @ '': expected '' @ what @ '', got '' @ kind v"

definition field_of :: "(string, json) btree \<Rightarrow> string \<Rightarrow> json" where
  "field_of obj name = (case map_of obj name of Some v \<Rightarrow> v | None \<Rightarrow> Null)"

text \<open>\<open>validate_fields\<close> is the loop over the declared fields, which \<^verbatim>\<open>?\<close> leaves at the first error.\<close>

fun validate_node :: "json \<Rightarrow> schema_node \<Rightarrow> string \<Rightarrow> string + unit"
  and validate_fields :: "(string, json) btree \<Rightarrow> (string \<times> schema_node) list \<Rightarrow> string \<Rightarrow> string + unit"
where
  "validate_node value node path =
     (if is_null value
      then (if nullable node then Inr ()
            else Inl (path @ '': unexpected null (field is not nullable)''))
      else if type_name node = ''Any'' then Inr ()
      else if type_name node = ''String''
      then (if is_string value then Inr () else Inl (expected path ''String'' value))
      else if type_name node = ''Int''
      then (if is_i64 value \<or> is_u64 value then Inr () else Inl (expected path ''Int'' value))
      else if type_name node = ''Float''
      then (if is_number value then Inr () else Inl (expected path ''Float'' value))
      else if type_name node = ''Bool''
      then (if is_boolean value then Inr () else Inl (expected path ''Bool'' value))
      else if type_name node = ''Array''
      then (if is_array value then Inr () else Inl (expected path ''Array'' value))
      else if type_name node = ''Object''
      then (case as_object value of
              None \<Rightarrow> Inl (expected path ''Object'' value)
            | Some obj \<Rightarrow>
                (case node of
                   Simple _ \<Rightarrow> Inr ()
                 | Full _ _ fs \<Rightarrow> validate_fields obj fs path))
      else Inl (path @ '': unknown schema type '' @ [CHR 0x27] @ type_name node @ [CHR 0x27]))"
| "validate_fields obj [] path = Inr ()"
| "validate_fields obj ((field_name, field_schema) # rest) path =
     (case validate_node (field_of obj field_name) field_schema (path @ ''.'' @ field_name) of
        Inl msg \<Rightarrow> Inl msg
      | Inr _ \<Rightarrow> validate_fields obj rest path)"

declare validate_node.simps [simp del]

type_synonym schema_registry = "(string \<times> schema_node) list"

definition validate :: "schema_registry \<Rightarrow> string \<Rightarrow> json \<Rightarrow> string + unit" where
  "validate states key value =
     (case map_of states key of
        None \<Rightarrow> Inr ()
      | Some node \<Rightarrow> validate_node value node key)"

subsection \<open>What a schema promises\<close>

text \<open>The scalar type names and the values they admit.\<close>

definition admits :: "string \<Rightarrow> json \<Rightarrow> bool" where
  "admits t v \<longleftrightarrow>
     t = ''Any'' \<or> t = ''String'' \<and> is_string v \<or> t = ''Int'' \<and> (is_i64 v \<or> is_u64 v) \<or>
     t = ''Float'' \<and> is_number v \<or> t = ''Bool'' \<and> is_boolean v \<or> t = ''Array'' \<and> is_array v \<or>
     t = ''Object'' \<and> is_object v"

lemma schema_size_entry [termination_simp]:
  "(k, n) \<in> set m \<Longrightarrow> size n < Suc (size_list (size_prod (\<lambda>x. 0) size) m)"
  by (induction m) auto

text \<open>
  The declarative reading, after the comments of the source: null only where the node is nullable, otherwise a value
  of the named type, whose declared fields (null when missing) conform in turn; nothing is said of other fields. A node of
  type \<^verbatim>\<open>Any\<close> is no exception for null, although \<^verbatim>\<open>docs/guide.md\<close> lets it be any JSON value.
\<close>

fun conforms :: "schema_node \<Rightarrow> json \<Rightarrow> bool" where
  "conforms (Simple t) v = (v \<noteq> Null \<and> admits t v)"
| "conforms (Full t n fs) v =
     (if v = Null then n
      else admits t v \<and>
        (t = ''Object'' \<longrightarrow> (\<forall>(f, s) \<in> set fs. conforms s (case json_get v f of Some w \<Rightarrow> w | None \<Rightarrow> Null))))"

lemma is_null_iff: "is_null v \<longleftrightarrow> v = Null"
  by (cases v) auto

lemma validate_sound_complete:
  shows "(validate_node v n p = Inr ()) \<longleftrightarrow> conforms n v"
    and "(validate_fields obj fs p = Inr ()) \<longleftrightarrow> (\<forall>(f, s) \<in> set fs. conforms s (field_of obj f))"
proof (induction v n p and obj fs p rule: validate_node_validate_fields.induct)
  case (1 val node path)
  show ?case
  proof (cases "type_name node = ''Object'' \<and> \<not> is_null val")
    case False
    then show ?thesis
      by (cases node) (auto simp: validate_node.simps admits_def is_null_iff)
  next
    case True
    with 1 show ?thesis
      by (cases node; cases val) (auto simp: validate_node.simps admits_def field_of_def)
  qed
next
  case (3 obj f s rest path)
  then show ?case
    by (auto split: sum.splits)
qed simp

lemma validate_error_prefix:
  shows "validate_node v n p = Inl msg \<Longrightarrow> \<exists>rest. msg = p @ rest"
    and "validate_fields obj fs p = Inl msg \<Longrightarrow> \<exists>rest. msg = p @ rest"
proof (induction v n p and obj fs p rule: validate_node_validate_fields.induct)
  case (1 val node path)
  show ?case
  proof (cases "type_name node = ''Object'' \<and> \<not> is_null val")
    case False
    with 1 show ?thesis
      by (auto simp: validate_node.simps expected_def split: if_splits)
  next
    case True
    with 1 show ?thesis
      by (cases node; cases val) (auto simp: validate_node.simps expected_def)
  qed
next
  case (3 obj f s rest path)
  then show ?case
    by (fastforce split: sum.splits)
qed simp

fun declared :: "schema_node \<Rightarrow> string set" where
  "declared (Simple _) = {}"
| "declared (Full _ _ fs) = fst ` set fs"

lemma conforms_extra_field:
  "conforms n (Object m) \<Longrightarrow> f \<notin> declared n \<Longrightarrow> conforms n (Object (bt_insert f w m))"
  by (cases n) (auto simp: admits_def image_iff, force+)

section \<open>Properties\<close>

text \<open>
  C31. The validator decides the schema: a value is accepted for a key exactly when the key has
  no schema or the value conforms to it, whatever the iteration order of the field map, where null conforms to nothing but
  nullable nodes, not even to \<^verbatim>\<open>Any\<close>; and an error message always starts with the key it was raised for.
\<close>

theorem validate_iff_conforms:
  "(validate states key v = Inr () \<longleftrightarrow> (\<forall>n. map_of states key = Some n \<longrightarrow> conforms n v))
   \<and> (\<forall>msg. validate states key v = Inl msg \<longrightarrow> (\<exists>rest. msg = key @ rest))"
  by (auto simp: validate_def validate_sound_complete validate_error_prefix split: option.splits)

theorem validate_iff_conforms_witness:
  "validate [(''k'', Full ''Object'' False [(''n'', Simple ''Int'')])] ''k'' (Object [(''n'', Bool True)])
     = Inl ''k.n: expected Int, got Bool''
   \<and> \<not> conforms (Full ''Object'' False [(''n'', Simple ''Int'')]) (Object [(''n'', Bool True)])
   \<and> (\<exists>rest. ''k.n: expected Int, got Bool'' = ''k'' @ rest)"
proof -
  have e: "validate [(''k'', Full ''Object'' False [(''n'', Simple ''Int'')])] ''k'' (Object [(''n'', Bool True)])
     = Inl ''k.n: expected Int, got Bool''"
    by (simp add: validate_def validate_node.simps expected_def field_of_def)
  with validate_iff_conforms [of "[(''k'', Full ''Object'' False [(''n'', Simple ''Int'')])]" "''k''" "Object [(''n'', Bool True)]"]
  show ?thesis by simp
qed

text \<open>
  A key declared \<^verbatim>\<open>Any\<close> takes every value but null, and a field declared \<^verbatim>\<open>Any\<close> has to be present.
\<close>

theorem any_rejects_null:
  "validate [(key, Simple ''Any'')] key v = Inr () \<longleftrightarrow> v \<noteq> Null"
  "validate [(key, Full ''Object'' n [(f, Simple ''Any'')])] key (Object m) = Inr () \<longleftrightarrow>
     (\<exists>w. map_of m f = Some w \<and> w \<noteq> Null)"
  by (auto simp: validate_def validate_sound_complete admits_def split: option.splits)

text \<open>
  The schema is a floor, not a ceiling: an accepted object stays accepted when a field the
  schema does not declare is added or changed.
\<close>

theorem validate_extra_fields:
  assumes "validate states key (Object m) = Inr ()"
    and "\<forall>n. map_of states key = Some n \<longrightarrow> f \<notin> declared n"
  shows "validate states key (Object (bt_insert f w m)) = Inr ()"
  using assms by (auto simp: validate_def validate_sound_complete split: option.splits
      intro: conforms_extra_field)

theorem validate_extra_fields_witness:
  "validate [(''k'', Full ''Object'' False [(''n'', Simple ''Bool'')])] ''k''
     (Object (bt_insert ''x'' Null [(''n'', Bool True)])) = Inr ()"
  by (rule validate_extra_fields) (simp_all add: validate_def validate_node.simps field_of_def)

end
