(* ===== verification/Access_Control.thy ===== *)
theory Access_Control
  imports Json_Value
begin

section \<open>Access control\<close>

text \<open>
  The model of \<^verbatim>\<open>src/src/acl.rs\<close>: the presets of claim mappings, building a registry from a parsed
  ACL file, matching a key against a pattern, resolving a claim and checking a permission. Reading
  and parsing the file (\<^verbatim>\<open>std::fs\<close>, \<^verbatim>\<open>serde_json\<close>) is left out: \<open>registry_from_file\<close> starts from
  the parsed \<^verbatim>\<open>AclFile\<close>. The index loop of \<^verbatim>\<open>match_pattern\<close> over \<^verbatim>\<open>pat[pi..]\<close> and \<^verbatim>\<open>key[ki..]\<close> is a
  recursion on the two remaining lists.
\<close>

record acl_rule =
  r_key :: string
  r_read :: string
  r_write :: string

record acl_file =
  af_preset :: "string option"
  af_claim_mappings :: "(string \<times> string) list"
  af_rules :: "acl_rule list"

record acl_registry =
  rules :: "acl_rule list"
  mappings :: "(string \<times> string) list"

definition preset_mappings :: "string \<Rightarrow> (string \<times> string) list option" where
  "preset_mappings name =
     (if name = ''keycloak'' then Some
        [(''role'', ''realm_access.roles''), (''group'', ''groups''),
         (''perm'', ''permissions''), (''tenant'', ''tenant_id'')]
      else if name = ''auth0'' then Some
        [(''role'', ''roles''), (''group'', ''groups''),
         (''perm'', ''permissions''), (''tenant'', ''org_id'')]
      else if name = ''okta'' then Some
        [(''role'', ''groups''), (''group'', ''groups''),
         (''perm'', ''permissions''), (''tenant'', ''tenant_id'')]
      else if name = ''cognito'' then Some
        [(''role'', ''cognito:groups''), (''group'', ''cognito:groups''),
         (''perm'', ''permissions''), (''tenant'', ''custom:tenant_id'')]
      else if name = ''generic'' then Some
        [(''role'', ''roles''), (''group'', ''groups''),
         (''perm'', ''permissions''), (''tenant'', ''tenant_id'')]
      else None)"

definition registry_from_file :: "acl_file \<Rightarrow> acl_registry" where
  "registry_from_file f =
     (let base = (case af_preset f of
                    None \<Rightarrow> []
                  | Some name \<Rightarrow> (case preset_mappings name of Some m \<Rightarrow> m | None \<Rightarrow> []))
      in \<lparr>rules = af_rules f,
          mappings = fold (\<lambda>(k, v). AList.update k v) (af_claim_mappings f) base\<rparr>)"

fun match_segs :: "string list \<Rightarrow> string list \<Rightarrow> string option \<Rightarrow> string option option" where
  "match_segs [] ks captured = (if ks = [] then Some captured else None)"
| "match_segs (p # ps) ks captured =
     (if p = ''*'' then (if ks \<noteq> [] then Some captured else None)
      else if p = ''{sub}''
      then (case ks of [] \<Rightarrow> None | k # ks' \<Rightarrow> match_segs ps ks' (Some k))
      else (case ks of [] \<Rightarrow> None
            | k # ks' \<Rightarrow> if k \<noteq> p then None else match_segs ps ks' captured))"

definition match_pattern :: "string \<Rightarrow> string \<Rightarrow> string option option" where
  "match_pattern pattern key = match_segs (split_on (CHR ''.'') pattern) (split_on (CHR ''.'') key) None"

fun traverse :: "json \<Rightarrow> string list \<Rightarrow> json option" where
  "traverse current [] = Some current"
| "traverse current (part # parts) =
     (case as_object current of
        None \<Rightarrow> None
      | Some m \<Rightarrow> (case map_of m part of None \<Rightarrow> None | Some c \<Rightarrow> traverse c parts))"

definition resolve_claim :: "json \<Rightarrow> string \<Rightarrow> json option" where
  "resolve_claim claims path =
     (case as_object claims of
        None \<Rightarrow> None
      | Some obj \<Rightarrow>
          (case map_of obj path of
             Some v \<Rightarrow> Some v
           | None \<Rightarrow> traverse claims (split_on (CHR ''.'') path)))"

definition check_permission ::
  "string \<Rightarrow> string option \<Rightarrow> string option \<Rightarrow> json \<Rightarrow> (string \<times> string) list \<Rightarrow> bool" where
  "check_permission perm sub captured claims maps =
     (if perm = ''*'' then True
      else if perm = ''{sub}'' then sub \<noteq> None \<and> sub = captured
      else (case split_once (CHR '':'') perm of
         Some (prefix, raw_value) \<Rightarrow>
           (case (if raw_value = ''{sub}'' then captured else Some raw_value) of
              None \<Rightarrow> False
            | Some v \<Rightarrow>
                (case map_of maps prefix of
                   None \<Rightarrow> False
                 | Some claim_path \<Rightarrow>
                     (case resolve_claim claims claim_path of
                        Some (Array arr) \<Rightarrow> list_ex (\<lambda>item. as_str item = Some v) arr
                      | Some (String s) \<Rightarrow> s = v
                      | _ \<Rightarrow> False)))
       | None \<Rightarrow> sub = Some perm))"

fun check_rules ::
  "(string \<times> string) list \<Rightarrow> acl_rule list \<Rightarrow> string \<Rightarrow> string option \<Rightarrow> json \<Rightarrow> bool \<Rightarrow> bool" where
  "check_rules maps [] key sub claims write = False"
| "check_rules maps (rule # rest) key sub claims write =
     (case match_pattern (r_key rule) key of
        Some captured \<Rightarrow>
          check_permission (if write then r_write rule else r_read rule) sub captured claims maps
      | None \<Rightarrow> check_rules maps rest key sub claims write)"

definition check :: "acl_registry \<Rightarrow> string \<Rightarrow> string option \<Rightarrow> json \<Rightarrow> bool \<Rightarrow> bool" where
  "check acl key sub claims write = check_rules (mappings acl) (rules acl) key sub claims write"

definition can_read :: "acl_registry \<Rightarrow> string \<Rightarrow> string option \<Rightarrow> json \<Rightarrow> bool" where
  "can_read acl key sub claims = check acl key sub claims False"

definition can_write :: "acl_registry \<Rightarrow> string \<Rightarrow> string option \<Rightarrow> json \<Rightarrow> bool" where
  "can_write acl key sub claims = check acl key sub claims True"

subsection \<open>First-match rule lists\<close>

text \<open>
  The contract both access-control engines of the repository share: the first rule that matches
  the request decides, and a request no rule matches is denied.
\<close>

locale first_match =
  fixes chk :: "'r list \<Rightarrow> 'q \<Rightarrow> bool"
    and hit :: "'r \<Rightarrow> 'q \<Rightarrow> 'c option"
    and grant :: "'r \<Rightarrow> 'q \<Rightarrow> 'c \<Rightarrow> bool"
  assumes chk_Nil: "\<not> chk [] q"
    and chk_Cons: "chk (r # rs) q = (case hit r q of Some c \<Rightarrow> grant r q c | None \<Rightarrow> chk rs q)"
begin

lemma chk_append: "\<forall>r \<in> set pre. hit r q = None \<Longrightarrow> chk (pre @ rs) q = chk rs q"
  by (induction pre) (auto simp: chk_Cons)

lemma default_deny: "\<forall>r \<in> set rs. hit r q = None \<Longrightarrow> \<not> chk rs q"
  using chk_append [of rs q "[]"] by (simp add: chk_Nil)

lemma decided_by_first:
  "\<forall>x \<in> set pre. hit x q = None \<Longrightarrow> hit r q = Some c \<Longrightarrow> chk (pre @ r # post) q = grant r q c"
  by (simp add: chk_append chk_Cons)

lemma chk_iff:
  "chk rs q \<longleftrightarrow> (\<exists>pre r post c. rs = pre @ r # post \<and> (\<forall>x \<in> set pre. hit x q = None) \<and>
     hit r q = Some c \<and> grant r q c)"
proof
  show "chk rs q \<Longrightarrow> \<exists>pre r post c. rs = pre @ r # post \<and> (\<forall>x \<in> set pre. hit x q = None) \<and>
     hit r q = Some c \<and> grant r q c"
  proof (induction rs)
    case (Cons r rs)
    show ?case
    proof (cases "hit r q")
      case None
      with Cons obtain pre r' post c where
        "rs = pre @ r' # post" "\<forall>x \<in> set pre. hit x q = None" "hit r' q = Some c" "grant r' q c"
        by (auto simp: chk_Cons)
      with None have "r # rs = (r # pre) @ r' # post \<and> (\<forall>x \<in> set (r # pre). hit x q = None) \<and>
          hit r' q = Some c \<and> grant r' q c"
        by simp
      then show ?thesis by blast
    next
      case (Some c)
      with Cons.prems have "r # rs = [] @ r # rs \<and> (\<forall>x \<in> set []. hit x q = None) \<and> hit r q = Some c \<and> grant r q c"
        by (simp add: chk_Cons)
      then show ?thesis by blast
    qed
  qed (simp add: chk_Nil)
qed (auto simp: decided_by_first)

end

type_synonym acl_query = "(string \<times> string) list \<times> string \<times> string option \<times> json \<times> bool"

interpretation acl_rules: first_match
  "\<lambda>rs (maps, key, sub, claims, write). check_rules maps rs key sub claims write"
  "\<lambda>r (maps, key, sub, claims, write). match_pattern (r_key r) key"
  "\<lambda>r (maps, key, sub, claims, write) captured.
     check_permission (if write then r_write r else r_read r) sub captured claims maps"
  by unfold_locales (simp_all add: split_def split: option.split)

subsection \<open>What a pattern matches\<close>

text \<open>
  The reading of a pattern in the comments of \<^verbatim>\<open>acl.rs\<close>: its segments up to the first \<^verbatim>\<open>*\<close> stand for one key segment
  each (\<^verbatim>\<open>{sub}\<close> for any, a literal for itself); a \<^verbatim>\<open>*\<close> then takes one or more remaining
  segments, and without it none may remain. The captured value is the key segment under the
  last \<^verbatim>\<open>{sub}\<close>. \<^verbatim>\<open>SPECIFICATION.md\<close> 10.3 is stricter: there \<^verbatim>\<open>{sub}\<close> matches only the subject of the session, and
  \<^verbatim>\<open>*\<close> must be the last segment; the last theorems of this theory show where the matcher differs.
\<close>

definition fixed_part :: "string list \<Rightarrow> string list" where
  "fixed_part ps = takeWhile (\<lambda>p. p \<noteq> ''*'') ps"

definition seg_fits :: "string \<Rightarrow> string \<Rightarrow> bool" where
  "seg_fits p k \<longleftrightarrow> p = ''{sub}'' \<or> p = k"

definition capture :: "string list \<Rightarrow> string list \<Rightarrow> string option \<Rightarrow> string option" where
  "capture ps ks c = foldl (\<lambda>c (p, k). if p = ''{sub}'' then Some k else c) c (zip ps ks)"

definition pattern_spec :: "string list \<Rightarrow> string list \<Rightarrow> bool" where
  "pattern_spec ps ks \<longleftrightarrow>
     (let n = length (fixed_part ps) in
      list_all2 seg_fits (fixed_part ps) (take n ks) \<and>
      (if ''*'' \<in> set ps then n < length ks else n = length ks))"

lemma match_segs_spec:
  "match_segs ps ks c = (if pattern_spec ps ks then Some (capture (fixed_part ps) ks c) else None)"
proof (induction ps ks c rule: match_segs.induct)
  case (2 p ps ks c)
  show ?case
  proof (cases "p = ''*''")
    case True
    then show ?thesis
      by (simp add: pattern_spec_def fixed_part_def capture_def)
  next
    case False
    with 2 show ?thesis
      by (cases ks) (auto simp: pattern_spec_def fixed_part_def capture_def seg_fits_def Let_def)
  qed
qed (auto simp: pattern_spec_def fixed_part_def capture_def)

lemma capture_Some:
  "capture ps ks c = Some v \<Longrightarrow>
     c = Some v \<or> (\<exists>i < length ps. i < length ks \<and> ps ! i = ''{sub}'' \<and> ks ! i = v)"
proof (induction ps arbitrary: ks c)
  case (Cons p ps)
  show ?case
  proof (cases ks)
    case (Cons k ks')
    with Cons.prems have "capture ps ks' (if p = ''{sub}'' then Some k else c) = Some v"
      by (simp add: capture_def)
    from Cons.IH [OF this] consider
      "(if p = ''{sub}'' then Some k else c) = Some v"
      | i where "i < length ps" "i < length ks'" "ps ! i = ''{sub}''" "ks' ! i = v"
      by blast
    then show ?thesis
    proof cases
      case 1
      then show ?thesis
        using Cons by (auto split: if_splits)
    next
      case 2
      then show ?thesis
        using Cons by (intro disjI2 exI [of _ "Suc i"]) simp
    qed
  qed (use Cons.prems in \<open>simp add: capture_def\<close>)
qed (simp add: capture_def)

lemma fixed_part_nth: "i < length (fixed_part ps) \<Longrightarrow> fixed_part ps ! i = ps ! i"
  by (simp add: fixed_part_def takeWhile_nth)

lemma length_fixed_part: "length (fixed_part ps) \<le> length ps"
  by (simp add: fixed_part_def length_takeWhile_le)

lemma match_pattern_capture:
  assumes "match_pattern pattern key = Some (Some v)"
  shows "\<exists>i. i < length (split_on (CHR ''.'') pattern) \<and> i < length (split_on (CHR ''.'') key) \<and>
    split_on (CHR ''.'') pattern ! i = ''{sub}'' \<and> split_on (CHR ''.'') key ! i = v"
proof -
  have "capture (fixed_part (split_on (CHR ''.'') pattern)) (split_on (CHR ''.'') key) None = Some v"
    using assms by (auto simp: match_pattern_def match_segs_spec split: if_splits)
  from capture_Some [OF this] show ?thesis
    by (metis fixed_part_nth length_fixed_part option.distinct(1) order_less_le_trans)
qed

section \<open>Properties\<close>

text \<open>
  C15. Rules are decided first-match with default deny: access is granted exactly when some rule
  matches the key, no earlier rule does, and that rule's permission holds; later rules and the
  other permission never matter.
\<close>

theorem acl_first_match_default_deny:
  "check acl key sub claims write \<longleftrightarrow>
     (\<exists>pre r post captured. rules acl = pre @ r # post \<and>
        (\<forall>x \<in> set pre. match_pattern (r_key x) key = None) \<and>
        match_pattern (r_key r) key = Some captured \<and>
        check_permission (if write then r_write r else r_read r) sub captured claims (mappings acl))"
  using acl_rules.chk_iff [of "rules acl" "(mappings acl, key, sub, claims, write)"]
  by (simp add: check_def)

theorem acl_first_match_default_deny_witness:
  "can_read \<lparr>rules = [\<lparr>r_key = ''*'', r_read = ''*'', r_write = ''root''\<rparr>], mappings = []\<rparr> ''a.b'' None (Object [])
   \<and> \<not> can_write \<lparr>rules = [\<lparr>r_key = ''*'', r_read = ''*'', r_write = ''root''\<rparr>], mappings = []\<rparr> ''a.b'' None (Object [])"
  using acl_first_match_default_deny [of "\<lparr>rules = [\<lparr>r_key = ''*'', r_read = ''*'', r_write = ''root''\<rparr>], mappings = []\<rparr>"
      "''a.b''" None "Object []" False]
  by (simp add: can_read_def can_write_def check_def match_pattern_def check_permission_def)

text \<open>
  C34. The pattern matcher implements the pattern language of the comments in \<^verbatim>\<open>acl.rs\<close>, in which \<^verbatim>\<open>{sub}\<close> stands for any one
  segment and whatever follows a \<^verbatim>\<open>*\<close> is ignored: it answers exactly for the keys of that
  reading, and what it captures is what the last \<^verbatim>\<open>{sub}\<close> stands for.
\<close>

theorem match_pattern_spec:
  "match_pattern pattern key =
     (if pattern_spec (split_on (CHR ''.'') pattern) (split_on (CHR ''.'') key)
      then Some (capture (fixed_part (split_on (CHR ''.'') pattern)) (split_on (CHR ''.'') key) None)
      else None)"
  by (simp add: match_pattern_def match_segs_spec)

text \<open>
  Keys are isolated between subjects: when the deciding rule asks for \<^verbatim>\<open>{sub}\<close>, only an
  authenticated session whose subject is spelled in the key, at a place where the rule's
  pattern has \<^verbatim>\<open>{sub}\<close>, gets through.
\<close>

theorem acl_subject_isolation:
  assumes "rules acl = pre @ r # post"
    and "\<forall>x \<in> set pre. match_pattern (r_key x) key = None"
    and "match_pattern (r_key r) key = Some captured"
    and "(if write then r_write r else r_read r) = ''{sub}''"
    and "check acl key sub claims write"
  shows "\<exists>name i. sub = Some name \<and> i < length (split_on (CHR ''.'') key) \<and>
    split_on (CHR ''.'') key ! i = name \<and> split_on (CHR ''.'') (r_key r) ! i = ''{sub}''"
proof -
  have "check_permission (if write then r_write r else r_read r) sub captured claims (mappings acl)"
    using acl_rules.decided_by_first [of pre "(mappings acl, key, sub, claims, write)" r captured post]
      assms by (simp add: check_def)
  with assms(4) obtain name where "sub = Some name" "captured = Some name"
    by (cases sub) (auto simp: check_permission_def split: if_splits)
  with match_pattern_capture [of "r_key r" key name] assms(3) show ?thesis
    by auto
qed

theorem acl_subject_isolation_witness:
  "\<exists>name i. Some ''al'' = Some name \<and> i < length (split_on (CHR ''.'') ''user.al.x'') \<and>
    split_on (CHR ''.'') ''user.al.x'' ! i = name \<and> split_on (CHR ''.'') ''user.{sub}.*'' ! i = ''{sub}''"
proof -
  let ?r = "\<lparr>r_key = ''user.{sub}.*'', r_read = ''{sub}'', r_write = ''{sub}''\<rparr>"
  have "match_pattern (r_key ?r) ''user.al.x'' = Some (Some ''al'')"
    by (simp add: match_pattern_def)
  moreover have "check \<lparr>rules = [?r], mappings = []\<rparr> ''user.al.x'' (Some ''al'') (Object []) True"
    by (simp add: check_def match_pattern_def check_permission_def)
  ultimately show ?thesis
    using acl_subject_isolation [of "\<lparr>rules = [?r], mappings = []\<rparr>" "[]" ?r "[]" "''user.al.x''"
        "Some ''al''" True "Some ''al''" "Object []"]
    by simp
qed

text \<open>
  The subject of the session does not take part in the match: a first rule \<^verbatim>\<open>user.{sub}\<close> that is open to all readers opens the key
  of every user to every session.
\<close>

theorem sub_segment_matches_anyone:
  assumes "CHR ''.'' \<notin> set owner"
  shows "can_read \<lparr>rules = \<lparr>r_key = ''user.{sub}'', r_read = ''*'', r_write = w\<rparr> # rs, mappings = ms\<rparr> (''user.'' @ owner) sub claims"
  using assms split_on_append [of "CHR ''.''" "''user''" owner]
  by (simp add: can_read_def check_def match_pattern_def check_permission_def split_on_free)

theorem sub_segment_matches_anyone_witness:
  "can_read \<lparr>rules = [\<lparr>r_key = ''user.{sub}'', r_read = ''*'', r_write = ''{sub}''\<rparr>], mappings = []\<rparr> (''user.'' @ ''bob'') (Some ''alice'') Null"
  by (rule sub_segment_matches_anyone) simp

text \<open>Segments behind a star are accepted and ignored.\<close>

theorem star_ignores_rest: "match_segs (ps @ ''*'' # qs) ks c = match_segs (ps @ [''*'']) ks c"
  by (induction ps arbitrary: ks c) (auto split: list.split)

end
