(* ===== verification/Segment_Log.thy ===== *)
theory Segment_Log
  imports Delta_Diff "HOL-Library.Multiset"
begin

section \<open>The segmented on-disk log\<close>

text \<open>
  The model of \<^verbatim>\<open>src/src/log.rs\<close>. The log directory is an association list from file names to
  contents, in \<^verbatim>\<open>read_dir\<close> order. Every append is flushed, so what \<^verbatim>\<open>BufWriter\<close> buffers is never
  observable and writes go to the file at once. Modelled failures are those the state of the
  directory and the codec decide: a missing or already existing file, a record that does not
  encode or decode; other I/O errors of the operating system are not modelled.

  The payload codec (\<^verbatim>\<open>rmp_serde::to_vec\<close> and \<^verbatim>\<open>rmp_serde::from_slice\<close> at \<^verbatim>\<open>LogEntry\<close>) is a pair of
  parameters \<open>enc\<close> and \<open>dec\<close>; \<open>stored_ok\<close> is what a theorem assumes of them for an entry.
\<close>

record log_entry =
  le_version :: u64
  le_key :: string
  le_ops :: "delta_op list"
  le_value :: json

type_synonym encoder = "log_entry \<Rightarrow> bytes option"
type_synonym decoder = "bytes \<Rightarrow> log_entry option"
type_synonym dir = "(string \<times> bytes) list"

datatype log_error = EncodeFailed | FileExists string | FileMissing string

subsection \<open>Records\<close>

definition to_le_bytes :: "u32 \<Rightarrow> bytes" where
  "to_le_bytes v = map (\<lambda>i. ucast (drop_bit (i * 8) v)) [0..<4]"

fun from_le_bytes :: "bytes \<Rightarrow> nat" where
  "from_le_bytes [] = 0"
| "from_le_bytes (b # bs) = unat b + 256 * from_le_bytes bs"

definition write_entry :: "encoder \<Rightarrow> log_entry \<Rightarrow> bytes option" where
  "write_entry enc e =
     (case enc e of
        None \<Rightarrow> None
      | Some payload \<Rightarrow> Some (to_le_bytes (of_nat (length payload)) @ payload))"

datatype read_result = ReadOk log_entry bytes | ReadEof | ReadErr

definition read_entry :: "decoder \<Rightarrow> bytes \<Rightarrow> read_result" where
  "read_entry dec r =
     (if length r < 4 then ReadEof
      else let len = from_le_bytes (take 4 r); rest = drop 4 r
           in if length rest < len then ReadErr
              else (case dec (take len rest) of
                      None \<Rightarrow> ReadErr
                    | Some e \<Rightarrow> ReadOk e (drop len rest)))"

lemma read_entry_shorter: "read_entry dec r = ReadOk e rest \<Longrightarrow> length rest < length r"
  by (auto simp: read_entry_def Let_def split: if_splits option.splits)

text \<open>The read loop: the entries before the first clean or unclean end, and the bytes they take.\<close>

function replay_loop :: "decoder \<Rightarrow> bytes \<Rightarrow> log_entry list \<times> nat" where
  "replay_loop dec r =
     (case read_entry dec r of
        ReadOk e rest \<Rightarrow>
          (let (es, n) = replay_loop dec rest in (e # es, (length r - length rest) + n))
      | ReadEof \<Rightarrow> ([], 0)
      | ReadErr \<Rightarrow> ([], 0))"
  by pat_completeness auto
termination
  by (relation "measure (\<lambda>(dec, r). length r)") (auto dest: read_entry_shorter)

declare replay_loop.simps [simp del]

text \<open>The entries of a file and the file truncated to its last complete record.\<close>

definition replay_segment :: "decoder \<Rightarrow> bytes \<Rightarrow> log_entry list \<times> bytes" where
  "replay_segment dec content =
     (let (es, valid_pos) = replay_loop dec content
      in (es, if length content \<noteq> valid_pos then take valid_pos content else content))"

subsection \<open>Segments\<close>

definition MAX_ENTRIES_PER_SEGMENT :: nat where
  "MAX_ENTRIES_PER_SEGMENT = 100000"

definition MAX_SEGMENTS_BEFORE_COMPACT :: nat where
  "MAX_SEGMENTS_BEFORE_COMPACT = 3"

definition segment_path :: "nat \<Rightarrow> string" where
  "segment_path seg_num = ''seg_'' @ pad_left 10 (show_nat seg_num) @ ''.log''"

definition segment_number :: "string \<Rightarrow> nat option" where
  "segment_number name =
     Option.bind (strip_prefix ''seg_'' name)
       (\<lambda>rest. Option.bind (strip_suffix ''.log'' rest) (parse_bounded (2 ^ 64)))"

definition list_segments :: "dir \<Rightarrow> nat list" where
  "list_segments d = sort (List.map_filter (\<lambda>(name, _). segment_number name) d)"

record segmented_log =
  log_dir :: dir
  current_seg :: nat
  writer :: string
  entry_count :: nat
  segment_count :: nat

fun replay_all :: "decoder \<Rightarrow> dir \<Rightarrow> nat list \<Rightarrow> log_error + (log_entry list \<times> nat \<times> dir)" where
  "replay_all dec d [] = Inr ([], 0, d)"
| "replay_all dec d (n # ns) =
     (case map_of d (segment_path n) of
        None \<Rightarrow> Inl (FileMissing (segment_path n))
      | Some content \<Rightarrow>
          (let (chunk, healed) = replay_segment dec content in
           case replay_all dec (AList.update (segment_path n) healed d) ns of
             Inl err \<Rightarrow> Inl err
           | Inr (es, last_count, d') \<Rightarrow>
               Inr (chunk @ es, if ns = [] then length chunk else last_count, d')))"

definition log_open :: "decoder \<Rightarrow> dir \<Rightarrow> log_error + (segmented_log \<times> log_entry list)" where
  "log_open dec d =
     (let segments = list_segments d in
      case replay_all dec d segments of
        Inl err \<Rightarrow> Inl err
      | Inr (all_entries, last_seg_count, d') \<Rightarrow>
          (let cur = (if segments = [] then 0 else last segments);
               path = segment_path cur;
               d'' = (if map_of d' path = None then AList.update path [] d' else d')
           in Inr (\<lparr>log_dir = d'', current_seg = cur, writer = path, entry_count = last_seg_count,
                    segment_count = max (length segments) 1\<rparr>, all_entries)))"

definition next_seg :: "nat \<Rightarrow> nat" where
  "next_seg n = (n + 1) mod 2 ^ 64"

text \<open>\<^verbatim>\<open>OpenOptions::create_new\<close>: fails when the file exists, otherwise creates it empty.\<close>

definition create_new :: "dir \<Rightarrow> string \<Rightarrow> log_error + dir" where
  "create_new d path =
     (if map_of d path = None then Inr (AList.update path [] d) else Inl (FileExists path))"

definition rotate :: "segmented_log \<Rightarrow> (log_error + unit) \<times> segmented_log" where
  "rotate lg =
     (let log1 = lg\<lparr>current_seg := next_seg (current_seg lg)\<rparr>;
          path = segment_path (current_seg log1)
      in case create_new (log_dir log1) path of
           Inl err \<Rightarrow> (Inl err, log1)
         | Inr d \<Rightarrow> (Inr (), log1\<lparr>log_dir := d, writer := path, entry_count := 0,
                                segment_count := segment_count log1 + 1\<rparr>))"

definition append_bytes :: "dir \<Rightarrow> string \<Rightarrow> bytes \<Rightarrow> dir" where
  "append_bytes d path bs =
     (case map_of d path of
        None \<Rightarrow> d
      | Some content \<Rightarrow> AList.update path (content @ bs) d)"

definition log_append :: "encoder \<Rightarrow> segmented_log \<Rightarrow> log_entry \<Rightarrow> (log_error + unit) \<times> segmented_log" where
  "log_append enc lg entry =
     (let (r, log1) = (if entry_count lg \<ge> MAX_ENTRIES_PER_SEGMENT then rotate lg else (Inr (), lg))
      in case r of
           Inl err \<Rightarrow> (Inl err, log1)
         | Inr _ \<Rightarrow>
             (case write_entry enc entry of
                None \<Rightarrow> (Inl EncodeFailed, log1)
              | Some bs \<Rightarrow>
                  (Inr (), log1\<lparr>log_dir := append_bytes (log_dir log1) (writer log1) bs,
                               entry_count := entry_count log1 + 1\<rparr>)))"

definition needs_compact :: "segmented_log \<Rightarrow> bool" where
  "needs_compact lg \<longleftrightarrow> segment_count lg > MAX_SEGMENTS_BEFORE_COMPACT"

text \<open>Writing a snapshot stops at the first entry that does not encode; what was written stays.\<close>

fun write_entries :: "encoder \<Rightarrow> log_entry list \<Rightarrow> bytes \<times> bool" where
  "write_entries enc [] = ([], True)"
| "write_entries enc (e # es) =
     (case write_entry enc e of
        None \<Rightarrow> ([], False)
      | Some bs \<Rightarrow> (let (bs', ok) = write_entries enc es in (bs @ bs', ok)))"

definition compact :: "encoder \<Rightarrow> segmented_log \<Rightarrow> log_entry list \<Rightarrow> (log_error + unit) \<times> segmented_log" where
  "compact enc lg snapshot =
     (let old_segs = list_segments (log_dir lg);
          log1 = lg\<lparr>current_seg := next_seg (current_seg lg)\<rparr>;
          snap_path = segment_path (current_seg log1)
      in case create_new (log_dir log1) snap_path of
           Inl err \<Rightarrow> (Inl err, log1)
         | Inr d1 \<Rightarrow>
             (let (bs, ok) = write_entries enc snapshot;
                  log2 = log1\<lparr>log_dir := append_bytes d1 snap_path bs\<rparr>
              in if \<not> ok then (Inl EncodeFailed, log2)
                 else let log3 = log2\<lparr>current_seg := next_seg (current_seg log2)\<rparr>;
                          new_path = segment_path (current_seg log3)
                      in case create_new (log_dir log3) new_path of
                           Inl err \<Rightarrow> (Inl err, log3)
                         | Inr d3 \<Rightarrow>
                             (Inr (), log3\<lparr>log_dir := fold (\<lambda>n. AList.delete (segment_path n)) old_segs d3,
                                          writer := new_path, entry_count := 0, segment_count := 2\<rparr>)))"

subsection \<open>Records round-trip\<close>

definition stored_ok :: "encoder \<Rightarrow> decoder \<Rightarrow> log_entry \<Rightarrow> bool" where
  "stored_ok enc dec e \<longleftrightarrow>
     (case enc e of None \<Rightarrow> False | Some p \<Rightarrow> length p < 2 ^ 32 \<and> dec p = Some e)"

definition entry_bytes :: "encoder \<Rightarrow> log_entry \<Rightarrow> bytes" where
  "entry_bytes enc e = (case write_entry enc e of Some bs \<Rightarrow> bs | None \<Rightarrow> [])"

definition file_of :: "encoder \<Rightarrow> log_entry list \<Rightarrow> bytes" where
  "file_of enc es = concat (map (entry_bytes enc) es)"

lemma length_to_le_bytes [simp]: "length (to_le_bytes v) = 4"
  by (simp add: to_le_bytes_def)

lemma from_to_le_bytes: "from_le_bytes (to_le_bytes v) = unat v"
proof -
  have b: "unat (ucast (drop_bit (i * 8) v) :: u8) = unat v div 2 ^ (i * 8) mod 256" for i
    by (simp add: unat_low_byte unat_drop_bit)
  have bytes: "to_le_bytes v = [ucast (drop_bit (0 * 8) v), ucast (drop_bit (1 * 8) v),
      ucast (drop_bit (2 * 8) v), ucast (drop_bit (3 * 8) v)]"
    by (simp add: to_le_bytes_def upt_rec)
  have "n mod 256 + 256 * (n div 256 mod 256 + 256 * (n div 65536 mod 256 + 256 * (n div 16777216 mod 256))) = n"
    if "n < 2 ^ 32" for n :: nat
  proof -
    have d: "n div 65536 = n div 256 div 256" "n div 16777216 = n div 256 div 256 div 256"
      by (simp_all add: div_mult2_eq [symmetric])
    have "n div 256 div 256 div 256 mod 256 = n div 256 div 256 div 256"
      using that by (simp add: div_mult2_eq [symmetric])
    then show ?thesis
      unfolding d by simp
  qed
  note sum = this [OF unat_u32_less [of v]]
  have "from_le_bytes (to_le_bytes v) = unat v mod 256 + 256 * (unat v div 256 mod 256
      + 256 * (unat v div 65536 mod 256 + 256 * (unat v div 16777216 mod 256)))"
    unfolding bytes by (simp only: from_le_bytes.simps b) simp
  then show ?thesis
    by (rule trans [OF _ sum])
qed

lemma stored_okE:
  assumes "stored_ok enc dec e"
  obtains p where "enc e = Some p" "length p < 2 ^ 32" "dec p = Some e"
    "write_entry enc e = Some (to_le_bytes (of_nat (length p)) @ p)"
    "entry_bytes enc e = to_le_bytes (of_nat (length p)) @ p"
  using assms by (auto simp: stored_ok_def entry_bytes_def write_entry_def split: option.splits)

lemma write_entry_ok: "stored_ok enc dec e \<Longrightarrow> write_entry enc e = Some (entry_bytes enc e)"
  by (elim stored_okE) simp

lemma from_le_length: "n < 2 ^ 32 \<Longrightarrow> from_le_bytes (to_le_bytes (of_nat n)) = n"
  by (simp add: from_to_le_bytes unat_of_nat)

lemma read_written:
  assumes "stored_ok enc dec e"
  shows "read_entry dec (entry_bytes enc e @ rest) = ReadOk e rest"
  using assms by (elim stored_okE) (simp add: read_entry_def from_le_length Let_def)

text \<open>A proper prefix of a record is never read as a record.\<close>

lemma read_torn:
  assumes "stored_ok enc dec e" and "n < length (entry_bytes enc e)"
  shows "read_entry dec (take n (entry_bytes enc e)) \<in> {ReadEof, ReadErr}"
  using assms by (elim stored_okE) (auto simp: read_entry_def from_le_length Let_def min_def)

lemma length_entry_bytes: "stored_ok enc dec e \<Longrightarrow> 4 \<le> length (entry_bytes enc e)"
  by (elim stored_okE) simp

lemma replay_written:
  assumes "\<forall>e \<in> set es. stored_ok enc dec e" and "read_entry dec torn \<in> {ReadEof, ReadErr}"
  shows "replay_loop dec (file_of enc es @ torn) = (es, length (file_of enc es))"
  using assms(1)
proof (induction es)
  case Nil
  then show ?case
    using assms(2) by (subst replay_loop.simps) (auto simp: file_of_def)
next
  case (Cons e es)
  then show ?case
    by (subst replay_loop.simps) (simp add: file_of_def read_written)
qed

lemma read_empty: "read_entry dec [] = ReadEof"
  by (simp add: read_entry_def)

lemma replay_clean:
  assumes "\<forall>e \<in> set es. stored_ok enc dec e"
  shows "replay_segment dec (file_of enc es) = (es, file_of enc es)"
  using replay_written [OF assms, of "[]"] by (simp add: replay_segment_def read_empty)


lemma file_of_Nil [simp]: "file_of enc [] = []"
  by (simp add: file_of_def)

lemma file_of_append [simp]: "file_of enc (xs @ ys) = file_of enc xs @ file_of enc ys"
  by (simp add: file_of_def)

lemma file_of_single: "file_of enc [e] = entry_bytes enc e"
  by (simp add: file_of_def)

text \<open>Cutting a file anywhere leaves some whole records and a torn one that is not read.\<close>

lemma cut_file:
  assumes "\<forall>e \<in> set es. stored_ok enc dec e"
  shows "\<exists>k torn. k \<le> length es \<and> take n (file_of enc es) = file_of enc (take k es) @ torn \<and>
           read_entry dec torn \<in> {ReadEof, ReadErr} \<and>
           (k < length es \<longrightarrow> n < length (file_of enc (take (Suc k) es)))"
  using assms
proof (induction es arbitrary: n)
  case Nil
  then show ?case
    by (simp add: read_empty)
next
  case (Cons e es)
  let ?b = "entry_bytes enc e"
  show ?case
  proof (cases "n < length ?b")
    case True
    then show ?thesis
      using read_torn [of enc dec e n] Cons.prems
      by (intro exI [of _ 0] exI [of _ "take n ?b"]) (simp add: file_of_def)
  next
    case False
    obtain k torn where "k \<le> length es" "take (n - length ?b) (file_of enc es) = file_of enc (take k es) @ torn"
      "read_entry dec torn \<in> {ReadEof, ReadErr}"
      "k < length es \<longrightarrow> n - length ?b < length (file_of enc (take (Suc k) es))"
      using Cons.IH [of "n - length ?b"] Cons.prems by auto
    with False show ?thesis
      by (intro exI [of _ "Suc k"] exI [of _ torn]) (auto simp: file_of_def)
  qed
qed

lemma replay_cut:
  assumes "\<forall>e \<in> set es. stored_ok enc dec e"
  shows "\<exists>k \<le> length es. replay_segment dec (take n (file_of enc es)) = (take k es, file_of enc (take k es)) \<and>
           length (file_of enc (take k es)) \<le> n \<and>
           (k < length es \<longrightarrow> n < length (file_of enc (take (Suc k) es)))"
proof -
  obtain k torn where k: "k \<le> length es" "take n (file_of enc es) = file_of enc (take k es) @ torn"
    "read_entry dec torn \<in> {ReadEof, ReadErr}"
    "k < length es \<longrightarrow> n < length (file_of enc (take (Suc k) es))"
    using cut_file [OF assms, of n] by blast
  have "\<forall>e \<in> set (take k es). stored_ok enc dec e"
    using assms by (meson in_set_takeD)
  from replay_written [OF this k(3)] k(2)
  have "replay_segment dec (take n (file_of enc es)) = (take k es, file_of enc (take k es))"
    by (simp add: replay_segment_def)
  moreover have "length (file_of enc (take k es)) \<le> n"
    using arg_cong [OF k(2), of length] by simp
  ultimately show ?thesis
    using k by blast
qed

text \<open>A record that does not decode ends the replay: the file is cut in front of it.\<close>

lemma replay_undecodable:
  assumes "\<forall>x \<in> set es. stored_ok enc dec x"
    and "enc e = Some p" "length p < 2 ^ 32" "dec p = None"
  shows "replay_segment dec (file_of enc es @ entry_bytes enc e @ rest) = (es, file_of enc es)"
proof -
  have "read_entry dec (entry_bytes enc e @ rest) = ReadErr"
    using assms(2-4) by (simp add: read_entry_def entry_bytes_def write_entry_def from_le_length Let_def)
  then show ?thesis
    using replay_written [OF assms(1), of "entry_bytes enc e @ rest"]
    by (simp add: replay_segment_def)
qed

subsection \<open>The directory and its view\<close>

definition whole_records :: "encoder \<Rightarrow> decoder \<Rightarrow> bytes \<Rightarrow> bool" where
  "whole_records enc dec content \<longleftrightarrow>
     (\<forall>e \<in> set (fst (replay_segment dec content)). stored_ok enc dec e) \<and>
     content = file_of enc (fst (replay_segment dec content))"

definition seg_file_ok :: "encoder \<Rightarrow> decoder \<Rightarrow> string \<times> bytes \<Rightarrow> bool" where
  "seg_file_ok enc dec f \<longleftrightarrow>
     (case segment_number (fst f) of
        None \<Rightarrow> True
      | Some n \<Rightarrow> fst f = segment_path n \<and> whole_records enc dec (snd f))"

definition dir_ok :: "encoder \<Rightarrow> decoder \<Rightarrow> dir \<Rightarrow> bool" where
  "dir_ok enc dec d \<longleftrightarrow>
     distinct (map fst d) \<and> (\<forall>f \<in> set d. seg_file_ok enc dec f) \<and> list_segments d \<noteq> []"

definition segment_entries :: "decoder \<Rightarrow> dir \<Rightarrow> nat \<Rightarrow> log_entry list" where
  "segment_entries dec d n =
     (case map_of d (segment_path n) of
        None \<Rightarrow> []
      | Some content \<Rightarrow> fst (replay_segment dec content))"

text \<open>The entries a directory holds, and the log that writes to it.\<close>

definition disk_entries :: "decoder \<Rightarrow> dir \<Rightarrow> log_entry list" where
  "disk_entries dec d = concat (map (segment_entries dec d) (list_segments d))"

definition log_of :: "decoder \<Rightarrow> dir \<Rightarrow> segmented_log" where
  "log_of dec d =
     \<lparr>log_dir = d, current_seg = last (list_segments d),
      writer = segment_path (last (list_segments d)),
      entry_count = length (segment_entries dec d (last (list_segments d))),
      segment_count = length (list_segments d)\<rparr>"

definition log_ok :: "encoder \<Rightarrow> decoder \<Rightarrow> segmented_log \<Rightarrow> bool" where
  "log_ok enc dec lg \<longleftrightarrow> dir_ok enc dec (log_dir lg) \<and> lg = log_of dec (log_dir lg)"

lemma segment_number_path: "n < 2 ^ 64 \<Longrightarrow> segment_number (segment_path n) = Some n"
  unfolding segment_number_def segment_path_def strip_prefix_append Option.bind.bind_lunit
    strip_suffix_append
  by (rule parse_pad_show)

lemma segment_number_bound: "segment_number name = Some n \<Longrightarrow> n < 2 ^ 64"
  by (auto simp: segment_number_def parse_bounded_def bind_eq_Some_conv Let_def split: if_splits)

lemma segment_path_inj: "m < 2 ^ 64 \<Longrightarrow> n < 2 ^ 64 \<Longrightarrow> segment_path m = segment_path n \<Longrightarrow> m = n"
  by (metis option.inject segment_number_path)

lemma list_segments_keys: "list_segments d = sort (List.map_filter segment_number (map fst d))"
  by (simp add: list_segments_def List.map_filter_def filter_map comp_def split_def)

lemma in_list_segments: "n \<in> set (list_segments d) \<longleftrightarrow> (\<exists>f \<in> set d. segment_number (fst f) = Some n)"
  by (force simp: list_segments_keys List.map_filter_def)

lemma list_segments_bound: "n \<in> set (list_segments d) \<Longrightarrow> n < 2 ^ 64"
  by (auto simp: in_list_segments dest: segment_number_bound)

lemma sorted_list_segments [simp]: "sorted (list_segments d)"
  by (simp add: list_segments_keys)

lemma list_segments_last: "n \<in> set (list_segments d) \<Longrightarrow> n \<le> last (list_segments d)"
  using sorted_list_segments [of d]
  by (metis append_butlast_last_id empty_iff empty_set in_set_conv_decomp last_in_set order_refl
      rotate1.simps(2) set_ConsD set_rotate1 sorted_append)

lemma whole_recordsD:
  "whole_records enc dec content \<Longrightarrow> replay_segment dec content = (fst (replay_segment dec content), content)"
  unfolding whole_records_def by (metis replay_clean)

lemma whole_file_of:
  "\<forall>e \<in> set es. stored_ok enc dec e \<Longrightarrow> whole_records enc dec (file_of enc es)"
  by (simp add: whole_records_def replay_clean)

lemma dir_file:
  assumes "dir_ok enc dec d" and "n \<in> set (list_segments d)"
  obtains content where "map_of d (segment_path n) = Some content" "whole_records enc dec content"
proof -
  obtain name content where f: "(name, content) \<in> set d" "segment_number name = Some n"
    using assms(2) by (auto simp: in_list_segments)
  then have "seg_file_ok enc dec (name, content)" and dist: "distinct (map fst d)"
    using assms(1) by (auto simp: dir_ok_def)
  with f(2) have "name = segment_path n" "whole_records enc dec content"
    by (simp_all add: seg_file_ok_def)
  moreover from f(1) dist have "map_of d name = Some content"
    by simp
  ultimately show thesis
    using that by simp
qed

lemma update_same: "map_of d k = Some v \<Longrightarrow> AList.update k v d = d"
  by (induction d) (auto split: if_splits)

lemma update_new: "map_of d k = None \<Longrightarrow> AList.update k v d = d @ [(k, v)]"
  by (induction d) (auto split: if_splits)

subsection \<open>Reopening\<close>

lemma replay_all_last:
  assumes "\<forall>n \<in> set ns. \<exists>content. map_of d (segment_path n) = Some content \<and>
             snd (replay_segment dec content) = content"
    and "map_of d (segment_path m) = Some content" and "replay_segment dec content = (chunk, healed)"
  shows "replay_all dec d (ns @ [m]) =
           Inr (concat (map (segment_entries dec d) ns) @ chunk, length chunk,
                AList.update (segment_path m) healed d)"
  using assms(1)
proof (induction ns)
  case Nil
  then show ?case
    using assms(2,3) by simp
next
  case (Cons n ns)
  then obtain c where c: "map_of d (segment_path n) = Some c" "snd (replay_segment dec c) = c"
    by auto
  then show ?case
    using Cons by (simp add: split_def update_same segment_entries_def)
qed

lemma log_open_last:
  assumes "dir_ok enc dec d0" and "list_segments d = list_segments d0"
    and others: "\<forall>n. n \<noteq> m \<and> n < 2 ^ 64 \<longrightarrow> map_of d (segment_path n) = map_of d0 (segment_path n)"
    and "m = last (list_segments d0)" and dist: "distinct (list_segments d0)"
    and "map_of d (segment_path m) = Some content" and "replay_segment dec content = (chunk, healed)"
  shows "log_open dec d =
           Inr (\<lparr>log_dir = AList.update (segment_path m) healed d, current_seg = m,
                 writer = segment_path m, entry_count = length chunk,
                 segment_count = length (list_segments d0)\<rparr>,
                concat (map (segment_entries dec d0) (butlast (list_segments d0))) @ chunk)"
proof -
  let ?ns = "butlast (list_segments d0)"
  have ne: "list_segments d0 \<noteq> []"
    using assms(1) by (simp add: dir_ok_def)
  then have segs: "list_segments d0 = ?ns @ [m]"
    using assms(4) by simp
  then have "m \<notin> set ?ns"
    using dist by (metis distinct_append disjoint_insert(2) list.set(2))
  then have same: "map_of d (segment_path n) = map_of d0 (segment_path n)" if "n \<in> set ?ns" for n
    using others that by (metis in_set_butlastD list_segments_bound)
  have clean: "\<forall>n \<in> set ?ns. \<exists>c. map_of d (segment_path n) = Some c \<and> snd (replay_segment dec c) = c"
    using dir_file [OF assms(1)] same whole_recordsD by (metis in_set_butlastD snd_conv)
  have eq: "map (segment_entries dec d) ?ns = map (segment_entries dec d0) ?ns"
    using same by (simp add: segment_entries_def)
  have "replay_all dec d (list_segments d) =
      Inr (concat (map (segment_entries dec d0) ?ns) @ chunk, length chunk,
           AList.update (segment_path m) healed d)"
    using replay_all_last [OF clean assms(6,7)] segs assms(2) eq by simp
  moreover have "max (length (list_segments d0)) 1 = length (list_segments d0)"
    using ne by (cases "list_segments d0") simp_all
  ultimately show ?thesis
    using ne assms(2,4) by (simp add: log_open_def Let_def update_conv' del: One_nat_def)
qed


lemma distinct_list_segments:
  assumes "dir_ok enc dec d"
  shows "distinct (list_segments d)"
proof -
  let ?names = "filter (\<lambda>name. segment_number name \<noteq> None) (map fst d)"
  have "segment_path (the (segment_number name)) = name" if "name \<in> set ?names" for name
    using assms that by (force simp: dir_ok_def seg_file_ok_def split: option.splits)
  then have "inj_on (\<lambda>name. the (segment_number name)) (set ?names)"
    by (rule inj_on_inverseI [of _ segment_path])
  moreover have "distinct ?names"
    using assms by (simp add: dir_ok_def)
  ultimately show ?thesis
    by (simp add: list_segments_keys List.map_filter_def distinct_map comp_def)
qed

lemma disk_entries_last:
  assumes "list_segments d \<noteq> []"
  shows "disk_entries dec d =
           concat (map (segment_entries dec d) (butlast (list_segments d))) @
           segment_entries dec d (last (list_segments d))"
proof -
  have "list_segments d = butlast (list_segments d) @ [last (list_segments d)]"
    using assms by simp
  then show ?thesis
    unfolding disk_entries_def by (metis concat.simps concat_append append_Nil2 list.simps(8,9) map_append)
qed

lemma last_file:
  assumes "dir_ok enc dec d"
  obtains es where "map_of d (segment_path (last (list_segments d))) = Some (file_of enc es)"
    "\<forall>e \<in> set es. stored_ok enc dec e" "segment_entries dec d (last (list_segments d)) = es"
proof -
  have "last (list_segments d) \<in> set (list_segments d)"
    using assms by (simp add: dir_ok_def)
  from dir_file [OF assms this] obtain c where
    c: "map_of d (segment_path (last (list_segments d))) = Some c" "whole_records enc dec c" .
  show thesis
  proof (rule that [of "fst (replay_segment dec c)"])
    show "map_of d (segment_path (last (list_segments d))) = Some (file_of enc (fst (replay_segment dec c)))"
      using c by (simp add: whole_records_def)
  qed (use c in \<open>simp_all add: whole_records_def segment_entries_def\<close>)
qed

text \<open>Replacing the contents of an existing segment.\<close>

lemma list_segments_update:
  "map_of d k \<noteq> None \<Longrightarrow> list_segments (AList.update k v d) = list_segments d"
  by (simp add: list_segments_keys keys_update_existing)

lemma dir_ok_update:
  assumes "dir_ok enc dec d" and "map_of d (segment_path n) \<noteq> None" and "n < 2 ^ 64"
    and "whole_records enc dec content"
  shows "dir_ok enc dec (AList.update (segment_path n) content d)"
  unfolding dir_ok_def
proof (intro conjI ballI)
  show "distinct (map fst (AList.update (segment_path n) content d))"
    using assms(1) by (simp add: dir_ok_def distinct_update)
  show "list_segments (AList.update (segment_path n) content d) \<noteq> []"
    using assms(1,2) by (simp add: list_segments_update dir_ok_def)
next
  fix f assume "f \<in> set (AList.update (segment_path n) content d)"
  then have "f \<in> set d \<or> f = (segment_path n, content)"
    using set_update_subset [of "segment_path n" content d] by auto
  moreover have "seg_file_ok enc dec (segment_path n, content)"
    unfolding seg_file_ok_def fst_conv snd_conv segment_number_path [OF assms(3)]
    using assms(4) by simp
  ultimately show "seg_file_ok enc dec f"
    using assms(1) unfolding dir_ok_def by blast
qed

lemma reopen:
  assumes "dir_ok enc dec d"
  shows "log_open dec d = Inr (log_of dec d, disk_entries dec d)"
proof -
  obtain es where es: "map_of d (segment_path (last (list_segments d))) = Some (file_of enc es)"
    "\<forall>e \<in> set es. stored_ok enc dec e" "segment_entries dec d (last (list_segments d)) = es"
    using last_file [OF assms] .
  have ne: "list_segments d \<noteq> []"
    using assms by (simp add: dir_ok_def)
  show ?thesis
    using log_open_last [OF assms refl _ refl distinct_list_segments [OF assms] es(1) replay_clean [OF es(2)]]
      disk_entries_last [OF ne, of dec] es
    by (simp add: log_of_def update_same)
qed


subsection \<open>The last segment rewritten, a new segment added\<close>

lemma rewrite_last:
  assumes "dir_ok enc dec d" and "\<forall>e \<in> set es. stored_ok enc dec e"
  defines "m \<equiv> last (list_segments d)"
  defines "d' \<equiv> AList.update (segment_path m) (file_of enc es) d"
  shows "dir_ok enc dec d'" and "list_segments d' = list_segments d"
    and "segment_entries dec d' m = es"
    and "disk_entries dec d' = concat (map (segment_entries dec d) (butlast (list_segments d))) @ es"
proof -
  have ne: "list_segments d \<noteq> []"
    using assms(1) by (simp add: dir_ok_def)
  then have m: "m \<in> set (list_segments d)"
    by (simp add: m_def)
  obtain c where c: "map_of d (segment_path m) = Some c"
    using dir_file [OF assms(1) m] .
  then show segs: "list_segments d' = list_segments d"
    unfolding d'_def by (simp add: list_segments_update)
  show "dir_ok enc dec d'"
    unfolding d'_def using assms(1) c list_segments_bound [OF m] whole_file_of [OF assms(2)]
    by (intro dir_ok_update) simp_all
  show last: "segment_entries dec d' m = es"
    by (simp add: segment_entries_def d'_def update_conv' replay_clean [OF assms(2)])
  have "segment_entries dec d' n = segment_entries dec d n" if "n \<in> set (butlast (list_segments d))" for n
  proof -
    have "n \<noteq> m"
      using that distinct_list_segments [OF assms(1)] ne unfolding m_def
      by (metis append_butlast_last_id distinct_append disjoint_insert(2) list.set(2))
    then have "segment_path n \<noteq> segment_path m"
      using segment_path_inj list_segments_bound m that by (metis in_set_butlastD)
    then show ?thesis
      by (simp add: segment_entries_def d'_def update_conv')
  qed
  then have "map (segment_entries dec d') (butlast (list_segments d)) =
      map (segment_entries dec d) (butlast (list_segments d))"
    by simp
  then show "disk_entries dec d' = concat (map (segment_entries dec d) (butlast (list_segments d))) @ es"
    using disk_entries_last [of d' dec] ne last segs by (simp add: m_def del: map_eq_conv)
qed

lemma sort_snoc: "\<forall>x \<in> set xs. x \<le> n \<Longrightarrow> sort (xs @ [n]) = sort xs @ [n :: nat]"
  by (rule properties_for_sort) (auto simp: sorted_append)

lemma fresh_path:
  assumes "dir_ok enc dec d" and "n < 2 ^ 64" and "last (list_segments d) < n"
  shows "map_of d (segment_path n) = None"
proof (rule ccontr)
  assume "map_of d (segment_path n) \<noteq> None"
  then obtain c where "(segment_path n, c) \<in> set d"
    by (metis map_of_SomeD option.exhaust)
  then have "n \<in> set (list_segments d)"
    unfolding in_list_segments using segment_number_path [OF assms(2)] by force
  then show False
    using list_segments_last [of n d] assms(3) by linarith
qed

lemma add_segment:
  assumes "dir_ok enc dec d" and "n < 2 ^ 64" and "last (list_segments d) < n"
    and "\<forall>e \<in> set es. stored_ok enc dec e"
  defines "d' \<equiv> d @ [(segment_path n, file_of enc es)]"
  shows "dir_ok enc dec d'" and "list_segments d' = list_segments d @ [n]"
    and "segment_entries dec d' n = es" and "disk_entries dec d' = disk_entries dec d @ es"
proof -
  note fresh = fresh_path [OF assms(1-3)]
  have "\<forall>x \<in> set (List.map_filter segment_number (map fst d)). x \<le> n"
    using list_segments_last [of _ d] assms(3) by (force simp: list_segments_keys)
  then show segs: "list_segments d' = list_segments d @ [n]"
    unfolding list_segments_keys d'_def
    using segment_number_path [OF assms(2)] by (simp add: map_filter_def sort_snoc)
  have "seg_file_ok enc dec (segment_path n, file_of enc es)"
    unfolding seg_file_ok_def fst_conv snd_conv segment_number_path [OF assms(2)]
    using whole_file_of [OF assms(4)] by simp
  then show "dir_ok enc dec d'"
    using assms(1) fresh segs unfolding dir_ok_def d'_def by (auto simp: map_of_eq_None_iff)
  show last: "segment_entries dec d' n = es"
    using fresh by (simp add: segment_entries_def d'_def map_add_def replay_clean [OF assms(4)])
  have "segment_entries dec d' k = segment_entries dec d k" if k: "k \<in> set (list_segments d)" for k
  proof -
    have "segment_path k \<noteq> segment_path n"
      using segment_path_inj [OF list_segments_bound [OF k] assms(2)] list_segments_last [OF k] assms(3)
      by force
    then show ?thesis
      by (auto simp: segment_entries_def d'_def map_add_def split: option.splits)
  qed
  then have "map (segment_entries dec d') (list_segments d) = map (segment_entries dec d) (list_segments d)"
    by simp
  then show "disk_entries dec d' = disk_entries dec d @ es"
    using segs last by (simp add: disk_entries_def del: map_eq_conv)
qed


subsection \<open>Operations on a log in order\<close>

lemma log_okE:
  assumes "log_ok enc dec lg"
  obtains d where "dir_ok enc dec d" "lg = log_of dec d" "log_dir lg = d"
  using assms unfolding log_ok_def by blast

lemma log_of_simps [simp]:
  "log_dir (log_of dec d) = d"
  "current_seg (log_of dec d) = last (list_segments d)"
  "entry_count (log_of dec d) = length (segment_entries dec d (last (list_segments d)))"
  "segment_count (log_of dec d) = length (list_segments d)"
  by (simp_all add: log_of_def)

lemma log_ok_log_of: "dir_ok enc dec d \<Longrightarrow> log_ok enc dec (log_of dec d)"
  by (simp add: log_ok_def)

lemma rotate_ok:
  assumes "log_ok enc dec lg" and "current_seg lg + 1 < 2 ^ 64"
  obtains lg' where "rotate lg = (Inr (), lg')" "log_ok enc dec lg'" "entry_count lg' = 0"
    "current_seg lg' = current_seg lg + 1"
    "disk_entries dec (log_dir lg') = disk_entries dec (log_dir lg)"
proof -
  obtain d where d: "dir_ok enc dec d" "lg = log_of dec d"
    using log_okE [OF assms(1)] by metis
  let ?n = "last (list_segments d) + 1"
  have n: "?n < 2 ^ 64" "next_seg (last (list_segments d)) = ?n"
    using assms(2) d(2) by (simp_all add: log_of_def next_seg_def)
  note new = add_segment [OF d(1) n(1), of "[]", simplified]
  have path: "map_of d (segment_path ?n) = None"
    using fresh_path [OF d(1) n(1)] by simp
  show thesis
  proof (rule that)
    show "rotate lg = (Inr (), log_of dec (d @ [(segment_path ?n, [])]))"
      using new path n(2) unfolding d(2) rotate_def log_of_def
      by (simp add: create_new_def update_new Let_def)
  qed (use new d in \<open>simp_all add: log_ok_log_of\<close>)
qed

lemma append_here:
  assumes "log_ok enc dec lg" and "stored_ok enc dec e"
  defines "lg' \<equiv> lg\<lparr>log_dir := append_bytes (log_dir lg) (writer lg) (entry_bytes enc e),
                    entry_count := entry_count lg + 1\<rparr>"
  shows "log_ok enc dec lg'" and "disk_entries dec (log_dir lg') = disk_entries dec (log_dir lg) @ [e]"
proof -
  obtain d where d: "dir_ok enc dec d" "lg = log_of dec d"
    using log_okE [OF assms(1)] by metis
  obtain es where es: "map_of d (segment_path (last (list_segments d))) = Some (file_of enc es)"
    "\<forall>e \<in> set es. stored_ok enc dec e" "segment_entries dec d (last (list_segments d)) = es"
    using last_file [OF d(1)] .
  have all: "\<forall>x \<in> set (es @ [e]). stored_ok enc dec x"
    using es(2) assms(2) by auto
  note upd = rewrite_last [OF d(1) all]
  let ?d = "AList.update (segment_path (last (list_segments d))) (file_of enc (es @ [e])) d"
  have "lg' = log_of dec ?d"
    using upd(2,3) es(1,3) unfolding lg'_def d(2)
    by (simp add: log_of_def append_bytes_def file_of_single)
  then show "log_ok enc dec lg'" "disk_entries dec (log_dir lg') = disk_entries dec (log_dir lg) @ [e]"
    using upd(1,4) disk_entries_last [of d dec] es(3) d
    by (simp_all add: log_ok_log_of dir_ok_def)
qed

lemma log_append_ok:
  assumes "log_ok enc dec lg" and "stored_ok enc dec e" and "current_seg lg + 1 < 2 ^ 64"
  obtains lg' where "log_append enc lg e = (Inr (), lg')" "log_ok enc dec lg'"
    "disk_entries dec (log_dir lg') = disk_entries dec (log_dir lg) @ [e]"
    "current_seg lg' \<le> current_seg lg + 1"
proof -
  note we = write_entry_ok [OF assms(2)]
  show thesis
  proof (cases "entry_count lg \<ge> MAX_ENTRIES_PER_SEGMENT")
    case True
    obtain lg1 where r: "rotate lg = (Inr (), lg1)" "log_ok enc dec lg1"
      "current_seg lg1 = current_seg lg + 1"
      "disk_entries dec (log_dir lg1) = disk_entries dec (log_dir lg)"
      using rotate_ok [OF assms(1,3)] by metis
    show thesis
      by (rule that [of "lg1\<lparr>log_dir := append_bytes (log_dir lg1) (writer lg1) (entry_bytes enc e),
          entry_count := entry_count lg1 + 1\<rparr>"])
        (use True r we append_here [OF r(2) assms(2)] in \<open>simp_all add: log_append_def\<close>)
  next
    case False
    show thesis
      by (rule that [of "lg\<lparr>log_dir := append_bytes (log_dir lg) (writer lg) (entry_bytes enc e),
          entry_count := entry_count lg + 1\<rparr>"])
        (use False we append_here [OF assms(1,2)] in \<open>simp_all add: log_append_def\<close>)
  qed
qed

lemma write_entries_ok:
  "\<forall>e \<in> set es. stored_ok enc dec e \<Longrightarrow> write_entries enc es = (file_of enc es, True)"
proof (induction es)
  case (Cons e es)
  then show ?case
    by (simp add: file_of_def write_entry_ok [of enc dec])
qed simp


subsection \<open>Compaction\<close>

lemma delete_all:
  "fold (\<lambda>n. AList.delete (segment_path n)) ns d = filter (\<lambda>f. fst f \<notin> segment_path ` set ns) d"
proof (induction ns arbitrary: d)
  case (Cons n ns)
  then show ?case
    by (auto simp: AList.delete_eq intro!: filter_cong)
qed simp

lemma update_snoc: "map_of d k = None \<Longrightarrow> AList.update k v (d @ [(k, x)]) = d @ [(k, v)]"
  by (induction d) (auto split: if_splits)

text \<open>Deleting the old segments from the directory extended by two new ones leaves the new ones.\<close>

lemma later_segment_path:
  assumes "last (list_segments d) < n" and "n < 2 ^ 64"
  shows "segment_path n \<notin> segment_path ` set (list_segments d)"
proof
  assume "segment_path n \<in> segment_path ` set (list_segments d)"
  then obtain k where k: "k \<in> set (list_segments d)" "segment_path n = segment_path k"
    by blast
  have "n = k"
    using segment_path_inj [OF assms(2) list_segments_bound [OF k(1)] k(2)] .
  then show False
    using list_segments_last [OF k(1)] assms(1) by linarith
qed

lemma other_files:
  assumes "dir_ok enc dec d" and "f \<in> set d" and "fst f \<notin> segment_path ` set (list_segments d)"
  shows "segment_number (fst f) = None"
proof (cases "segment_number (fst f)")
  case (Some n)
  then have "n \<in> set (list_segments d)"
    using assms(2) by (auto simp: in_list_segments)
  moreover have "fst f = segment_path n"
    using assms(1,2) Some by (auto simp: dir_ok_def seg_file_ok_def)
  ultimately show ?thesis
    using assms(3) by blast
qed

lemma delete_old_segments:
  assumes "dir_ok enc dec d" and "n2 < 2 ^ 64" and "last (list_segments d) < n1" and "n1 < n2"
    and es: "\<forall>e \<in> set es. stored_ok enc dec e"
  defines "d3 \<equiv> (d @ [(segment_path n1, file_of enc es)]) @ [(segment_path n2, [])]"
  defines "d4 \<equiv> fold (\<lambda>n. AList.delete (segment_path n)) (list_segments d) d3"
  shows "dir_ok enc dec d4" and "list_segments d4 = [n1, n2]"
    and "segment_entries dec d4 n1 = es" and "segment_entries dec d4 n2 = []"
proof -
  have n1: "n1 < 2 ^ 64"
    using assms(2,4) by linarith
  note a1 = add_segment [OF assms(1) n1 assms(3) es]
  have "last (list_segments (d @ [(segment_path n1, file_of enc es)])) < n2"
    using a1(2) assms(4) by simp
  note a2 = add_segment [OF a1(1) assms(2) this, of "[]", simplified]
  have d3: "dir_ok enc dec d3" "list_segments d3 = list_segments d @ [n1, n2]"
    using a1 a2 by (simp_all add: d3_def)
  have d4: "d4 = filter (\<lambda>f. fst f \<notin> segment_path ` set (list_segments d)) d
      @ [(segment_path n1, file_of enc es), (segment_path n2, [])]"
    using later_segment_path [of d n1] later_segment_path [of d n2] assms(2-4) n1 by (simp add: d4_def d3_def delete_all)
  have "List.map_filter segment_number
      (map fst (filter (\<lambda>f. fst f \<notin> segment_path ` set (list_segments d)) d)) = []"
    using other_files [OF assms(1)] by (auto simp: List.map_filter_def filter_empty_conv)
  then show segs: "list_segments d4 = [n1, n2]"
    unfolding list_segments_keys d4
    using segment_number_path [OF assms(2)] segment_number_path [OF n1] assms(4)
    by (simp add: map_filter_def)
  have "set d4 \<subseteq> set d3" "distinct (map fst d4)"
    using d3(1) by (auto simp: d4_def delete_all dir_ok_def distinct_map_filter)
  then show "dir_ok enc dec d4"
    using d3(1) segs by (auto simp: dir_ok_def)
  have "(segment_path n1, file_of enc es) \<in> set d4" "(segment_path n2, file_of enc []) \<in> set d4"
    by (simp_all add: d4)
  with \<open>distinct (map fst d4)\<close> have "map_of d4 (segment_path n1) = Some (file_of enc es)"
    "map_of d4 (segment_path n2) = Some (file_of enc [])"
    by simp_all
  then show "segment_entries dec d4 n1 = es" "segment_entries dec d4 n2 = []"
    using replay_clean [OF es] replay_clean [of "[]" enc dec] by (simp_all add: segment_entries_def)
qed

lemma compact_ok:
  assumes "log_ok enc dec lg" and es: "\<forall>e \<in> set snapshot. stored_ok enc dec e"
    and "current_seg lg + 2 < 2 ^ 64"
  obtains lg' where "compact enc lg snapshot = (Inr (), lg')" "log_ok enc dec lg'"
    "disk_entries dec (log_dir lg') = snapshot" "segment_count lg' = 2"
    "current_seg lg' = current_seg lg + 2"
proof -
  obtain d where d: "dir_ok enc dec d" "lg = log_of dec d"
    using log_okE [OF assms(1)] by metis
  define m where "m = last (list_segments d)"
  have m: "m + 2 < 2 ^ 64" "current_seg lg = m"
    using assms(3) d(2) by (simp_all add: log_of_def m_def)
  have next_eq: "next_seg m = m + 1" "next_seg (m + 1) = m + 2"
    using m(1) by (simp_all add: next_seg_def)
  define d2 where "d2 = d @ [(segment_path (m + 1), file_of enc snapshot)]"
  define d4 where "d4 = fold (\<lambda>n. AList.delete (segment_path n)) (list_segments d) (d2 @ [(segment_path (m + 2), [])])"
  have old: "dir_ok enc dec d4" "list_segments d4 = [m + 1, m + 2]"
    "segment_entries dec d4 (m + 1) = snapshot" "segment_entries dec d4 (m + 2) = []"
    using delete_old_segments [OF d(1) m(1) _ _ es, of "m + 1"] by (simp_all add: d4_def d2_def m_def)
  have fresh1: "map_of d (segment_path (m + 1)) = None"
    using fresh_path [OF d(1), of "m + 1"] m(1) by (simp add: m_def)
  have d2: "dir_ok enc dec d2" "list_segments d2 = list_segments d @ [m + 1]"
    using add_segment [OF d(1) _ _ es, of "m + 1"] m(1) by (simp_all add: d2_def m_def)
  then have fresh2: "map_of d2 (segment_path (m + 2)) = None"
    using fresh_path [of enc dec d2 "m + 2"] m(1) by simp
  have dirs: "create_new d (segment_path (m + 1)) = Inr (d @ [(segment_path (m + 1), [])])"
    "append_bytes (d @ [(segment_path (m + 1), [])]) (segment_path (m + 1)) (file_of enc snapshot) = d2"
    "create_new d2 (segment_path (m + 2)) = Inr (d2 @ [(segment_path (m + 2), [])])"
    using fresh1 fresh2 by (simp_all add: create_new_def append_bytes_def update_new update_snoc d2_def map_add_def)
  have "compact enc lg snapshot = (Inr (), log_of dec d4)"
    using dirs old(2,4) next_eq write_entries_ok [OF es] unfolding d(2) compact_def
    by (simp add: log_of_def Let_def m_def [symmetric]) (simp add: d4_def)
  then show thesis
    by (rule that) (use old m d in \<open>simp_all add: log_ok_log_of disk_entries_def\<close>)
qed


subsection \<open>The first segment\<close>

lemma single_dir:
  assumes "\<forall>e \<in> set es. stored_ok enc dec e"
  shows "dir_ok enc dec [(segment_path 0, file_of enc es)]"
    and "list_segments [(segment_path 0, file_of enc es)] = [0]"
    and "segment_entries dec [(segment_path 0, file_of enc es)] 0 = es"
proof -
  have num: "segment_number (segment_path 0) = Some 0"
    by (rule segment_number_path) simp
  then show segs: "list_segments [(segment_path 0, file_of enc es)] = [0]"
    by (simp add: list_segments_keys map_filter_def)
  show "dir_ok enc dec [(segment_path 0, file_of enc es)]"
    using num segs whole_file_of [OF assms] by (simp add: dir_ok_def seg_file_ok_def)
  show "segment_entries dec [(segment_path 0, file_of enc es)] 0 = es"
    by (simp add: segment_entries_def replay_clean [OF assms])
qed

lemma open_empty: "log_open dec [] = Inr (log_of dec [(segment_path 0, [])], [])"
  using single_dir [of "[]" undefined dec]
  by (simp add: log_open_def Let_def list_segments_def [of "[]"] map_filter_def log_of_def)

subsection \<open>Crashes\<close>

text \<open>A crash while the last segment was being written leaves a prefix of its bytes.\<close>

definition tear :: "dir \<Rightarrow> nat \<Rightarrow> dir" where
  "tear d n =
     (let path = segment_path (last (list_segments d)) in
      case map_of d path of
        None \<Rightarrow> d
      | Some content \<Rightarrow> AList.update path (take n content) d)"

lemma tear_open:
  assumes "dir_ok enc dec d"
  defines "m \<equiv> last (list_segments d)"
  shows "\<exists>k \<le> length (segment_entries dec d m). \<exists>d'. dir_ok enc dec d' \<and>
           log_open dec (tear d n) = Inr (log_of dec d', disk_entries dec d') \<and>
           disk_entries dec d' = concat (map (segment_entries dec d) (butlast (list_segments d)))
                                 @ take k (segment_entries dec d m) \<and>
           length (file_of enc (take k (segment_entries dec d m))) \<le> n \<and>
           (k < length (segment_entries dec d m) \<longrightarrow>
              n < length (file_of enc (take (Suc k) (segment_entries dec d m))))"
proof -
  obtain es where es: "map_of d (segment_path m) = Some (file_of enc es)"
    "\<forall>e \<in> set es. stored_ok enc dec e" "segment_entries dec d m = es"
    using last_file [OF assms(1)] unfolding m_def .
  obtain k where k: "k \<le> length es"
    "replay_segment dec (take n (file_of enc es)) = (take k es, file_of enc (take k es))"
    "length (file_of enc (take k es)) \<le> n" "k < length es \<longrightarrow> n < length (file_of enc (take (Suc k) es))"
    using replay_cut [OF es(2), of n] by blast
  let ?torn = "AList.update (segment_path m) (take n (file_of enc es)) d"
  let ?d = "AList.update (segment_path m) (file_of enc (take k es)) d"
  have torn: "tear d n = ?torn"
    using es(1) by (simp add: tear_def m_def)
  have "\<forall>e \<in> set (take k es). stored_ok enc dec e"
    using es(2) by (meson in_set_takeD)
  note upd = rewrite_last [OF assms(1) this, folded m_def]
  have mb: "m < 2 ^ 64"
    using assms(1) unfolding m_def by (intro list_segments_bound [of _ d]) (simp add: dir_ok_def)
  have "log_open dec ?torn = Inr (log_of dec ?d, disk_entries dec ?d)"
  proof (subst log_open_last [OF assms(1) _ _ m_def [THEN meta_eq_to_obj_eq] distinct_list_segments [OF assms(1)] _ k(2)])
    show "list_segments ?torn = list_segments d"
      using es(1) by (simp add: list_segments_update)
    show "\<forall>x. x \<noteq> m \<and> x < 2 ^ 64 \<longrightarrow> map_of ?torn (segment_path x) = map_of d (segment_path x)"
      using segment_path_inj [OF mb] by (metis fun_upd_other update_conv')
  qed (use upd in \<open>simp_all add: log_of_def m_def update_conv' update_last\<close>)
  with k(3,4) upd(1,4) show ?thesis
    unfolding es(3) torn
    by (intro exI [of _ k] conjI [OF k(1)] exI [of _ ?d]) simp
qed

text \<open>
  A record that does not decode, and whatever was appended after it, is cut off when the log is opened: the log
  is the one from before that record.
\<close>

lemma open_undecodable:
  assumes "log_ok enc dec lg" and "enc e = Some p" "length p < 2 ^ 32" "dec p = None"
  shows "log_open dec (append_bytes (log_dir lg) (writer lg) (entry_bytes enc e @ rest)) =
    Inr (lg, disk_entries dec (log_dir lg))"
proof -
  obtain d where d: "dir_ok enc dec d" "lg = log_of dec d"
    using log_okE [OF assms(1)] by metis
  define m where "m = last (list_segments d)"
  obtain es where es: "map_of d (segment_path m) = Some (file_of enc es)"
    "\<forall>e \<in> set es. stored_ok enc dec e" "segment_entries dec d m = es"
    using last_file [OF d(1)] unfolding m_def .
  have mb: "m < 2 ^ 64"
    using d(1) unfolding m_def by (intro list_segments_bound [of _ d]) (simp add: dir_ok_def)
  let ?d = "append_bytes d (segment_path m) (entry_bytes enc e @ rest)"
  have d': "?d = AList.update (segment_path m) (file_of enc es @ entry_bytes enc e @ rest) d"
    using es(1) by (simp add: append_bytes_def)
  have ne: "list_segments d \<noteq> []"
    using d(1) by (simp add: dir_ok_def)
  have content: "map_of ?d (segment_path m) = Some (file_of enc es @ entry_bytes enc e @ rest)"
    by (simp add: d' update_conv')
  have healed: "AList.update (segment_path m) (file_of enc es) ?d = d"
    using es(1) by (simp add: d' update_last update_same)
  have segs: "list_segments ?d = list_segments d"
    using es(1) by (simp add: d' list_segments_update)
  have others: "\<forall>x. x \<noteq> m \<and> x < 2 ^ 64 \<longrightarrow> map_of ?d (segment_path x) = map_of d (segment_path x)"
    using segment_path_inj [OF mb] unfolding d' by (metis fun_upd_other update_conv')
  have "log_open dec ?d = Inr (log_of dec d, disk_entries dec d)"
    unfolding log_open_last [OF d(1) segs others m_def distinct_list_segments [OF d(1)] content
        replay_undecodable [OF es(2) assms(2-4)]] healed
    using es(3) disk_entries_last [OF ne, of dec] by (simp add: log_of_def m_def)
  then show ?thesis
    using d(2) by (simp add: log_of_def m_def)
qed

subsection \<open>Properties\<close>

text \<open>A concrete codec for the witnesses: one byte, the low byte of the version, per entry.\<close>

definition byte_enc :: encoder where
  "byte_enc e = Some [ucast (le_version e)]"

definition byte_dec :: decoder where
  "byte_dec bs =
     (case bs of
        [b] \<Rightarrow> if b = 255 then None
               else Some \<lparr>le_version = ucast b, le_key = ''k'', le_ops = [], le_value = Null\<rparr>
      | _ \<Rightarrow> None)"

definition byte_entry :: "u64 \<Rightarrow> log_entry" where
  "byte_entry v = \<lparr>le_version = v, le_key = ''k'', le_ops = [], le_value = Null\<rparr>"

text \<open>
  C14. Crash recovery. Take a directory whose segments consist of whole records that decode again, and cut its last segment at
  any byte \<open>n\<close> (a crash in the middle of a write). Opening the log succeeds, returns all entries of the earlier
  segments and of the last one the first \<open>k\<close> records, where these fit into \<open>n\<close> bytes and one more record does not, and
  leaves a directory that is again in order, so that later appends extend whole records.
\<close>

theorem log_crash_recovery:
  assumes "dir_ok enc dec d"
  shows "\<exists>k d'. log_open dec (tear d n) = Inr (log_of dec d', disk_entries dec d') \<and> dir_ok enc dec d' \<and>
           disk_entries dec d' = concat (map (segment_entries dec d) (butlast (list_segments d)))
                                 @ take k (segment_entries dec d (last (list_segments d))) \<and>
           length (file_of enc (take k (segment_entries dec d (last (list_segments d))))) \<le> n \<and>
           (k < length (segment_entries dec d (last (list_segments d))) \<longrightarrow>
              n < length (file_of enc (take (Suc k) (segment_entries dec d (last (list_segments d))))))"
  using tear_open [OF assms, of n] by blast

text \<open>
  Durability of an append. On a log in order, appending an entry that the codec stores
  faithfully succeeds (rotating first when the segment is full), keeps the log in order, and
  opening the resulting directory gives back this very log and all earlier entries followed by the
  new one.
\<close>

theorem log_append_durable:
  assumes "log_ok enc dec lg" and "stored_ok enc dec e" and "current_seg lg + 1 < 2 ^ 64"
  shows "\<exists>lg'. log_append enc lg e = (Inr (), lg') \<and> log_ok enc dec lg' \<and>
           log_open dec (log_dir lg') = Inr (lg', disk_entries dec (log_dir lg) @ [e])"
proof -
  obtain lg' where lg': "log_append enc lg e = (Inr (), lg')" "log_ok enc dec lg'"
    "disk_entries dec (log_dir lg') = disk_entries dec (log_dir lg) @ [e]"
    using log_append_ok [OF assms] by metis
  with reopen [of enc dec "log_dir lg'"] show ?thesis
    by (auto simp: log_ok_def)
qed

text \<open>
  Compaction. On a log in order, compacting with a storable snapshot succeeds, and opening
  the resulting directory gives back this very log with exactly the snapshot's entries: all older
  segments are gone and nothing else is.
\<close>

theorem log_compact_snapshot:
  assumes "log_ok enc dec lg" and "\<forall>e \<in> set snapshot. stored_ok enc dec e"
    and "current_seg lg + 2 < 2 ^ 64"
  shows "\<exists>lg'. compact enc lg snapshot = (Inr (), lg') \<and> log_ok enc dec lg' \<and>
           \<not> needs_compact lg' \<and> log_open dec (log_dir lg') = Inr (lg', snapshot)"
proof -
  obtain lg' where lg': "compact enc lg snapshot = (Inr (), lg')" "log_ok enc dec lg'"
    "disk_entries dec (log_dir lg') = snapshot" "segment_count lg' = 2"
    using compact_ok [OF assms] by metis
  with reopen [of enc dec "log_dir lg'"] show ?thesis
    by (auto simp: log_ok_def needs_compact_def MAX_SEGMENTS_BEFORE_COMPACT_def)
qed

text \<open>
  A complete record whose payload does not decode is treated like a torn one: the replay
  returns only the entries in front of it and the file is cut there, so every later record of the
  segment is lost although it was written completely.
\<close>

theorem replay_drops_after_undecodable:
  assumes "\<forall>x \<in> set es. stored_ok enc dec x"
    and "enc e = Some p" and "length p < 2 ^ 32" and "dec p = None"
  shows "replay_segment dec (file_of enc (es @ e # later)) = (es, file_of enc es)"
  using replay_undecodable [OF assms, of "file_of enc later"] by (simp add: file_of_def)


lemma byte_stored:
  "stored_ok byte_enc byte_dec (byte_entry 1)" "stored_ok byte_enc byte_dec (byte_entry 2)"
  "stored_ok byte_enc byte_dec (byte_entry 3)"
  by (simp_all add: stored_ok_def byte_enc_def byte_dec_def byte_entry_def)

definition byte_dir :: dir where
  "byte_dir = [(segment_path 0, file_of byte_enc [byte_entry 1, byte_entry 2])]"

lemma byte_dir_simps:
  "dir_ok byte_enc byte_dec byte_dir" "list_segments byte_dir = [0]"
  "segment_entries byte_dec byte_dir 0 = [byte_entry 1, byte_entry 2]"
  using single_dir [of "[byte_entry 1, byte_entry 2]" byte_enc byte_dec] byte_stored
  by (simp_all add: byte_dir_def)

lemma byte_log_ok: "log_ok byte_enc byte_dec (log_of byte_dec byte_dir)"
  by (rule log_ok_log_of [OF byte_dir_simps(1)])

theorem log_crash_recovery_witness:
  "dir_ok byte_enc byte_dec byte_dir \<and>
   (\<exists>d'. log_open byte_dec (tear byte_dir 7) = Inr (log_of byte_dec d', disk_entries byte_dec d') \<and>
      dir_ok byte_enc byte_dec d' \<and> disk_entries byte_dec d' = [byte_entry 1])"
proof -
  obtain k d' where d': "log_open byte_dec (tear byte_dir 7) = Inr (log_of byte_dec d', disk_entries byte_dec d')"
    "dir_ok byte_enc byte_dec d'" "disk_entries byte_dec d' = take k [byte_entry 1, byte_entry 2]"
    "length (file_of byte_enc (take k [byte_entry 1, byte_entry 2])) \<le> 7"
    "k < length [byte_entry 1, byte_entry 2] \<longrightarrow> 7 < length (file_of byte_enc (take (Suc k) [byte_entry 1, byte_entry 2]))"
    using log_crash_recovery [OF byte_dir_simps(1), of 7, unfolded byte_dir_simps(2) last.simps butlast.simps if_P [OF refl]
        byte_dir_simps(3) list.map concat.simps append_Nil] by blast
  have len: "length (file_of byte_enc [byte_entry 1]) = 5" "length (file_of byte_enc [byte_entry 1, byte_entry 2]) = 10"
    by (simp_all add: file_of_def entry_bytes_def write_entry_def byte_enc_def byte_entry_def to_le_bytes_def)
  then have "k = 1"
    using d'(4,5) by (cases "k = 0"; cases "k = 1"; cases "k = 2") auto
  with d' byte_dir_simps show ?thesis
    by auto
qed

theorem log_append_durable_witness:
  "\<exists>lg'. log_append byte_enc (log_of byte_dec byte_dir) (byte_entry 3) = (Inr (), lg') \<and>
     log_open byte_dec (log_dir lg') = Inr (lg', [byte_entry 1, byte_entry 2, byte_entry 3])"
  using log_append_durable [OF byte_log_ok byte_stored(3)] byte_dir_simps
  by (auto simp: disk_entries_def)

theorem log_compact_snapshot_witness:
  "\<exists>lg'. compact byte_enc (log_of byte_dec byte_dir) [byte_entry 3] = (Inr (), lg') \<and>
     log_open byte_dec (log_dir lg') = Inr (lg', [byte_entry 3])"
  using log_compact_snapshot [OF byte_log_ok, of "[byte_entry 3]"] byte_stored byte_dir_simps by auto

theorem replay_drops_after_undecodable_witness:
  "replay_segment byte_dec (file_of byte_enc ([byte_entry 3] @ byte_entry 255 # [byte_entry 4])) =
     ([byte_entry 3], file_of byte_enc [byte_entry 3])"
proof -
  have "byte_enc (byte_entry 255) = Some [255]" "byte_dec [255] = None"
    by (simp_all add: byte_enc_def byte_dec_def byte_entry_def)
  then show ?thesis
    using replay_drops_after_undecodable [of "[byte_entry 3]" byte_enc byte_dec "byte_entry 255" "[255]"] byte_stored
    by simp
qed

end
