(* ===== verification/State_Store.thy ===== *)
theory State_Store
  imports Client_Apply Segment_Log
begin

section \<open>The versioned state store\<close>

text \<open>
  The model of \<^verbatim>\<open>src/src/state.rs\<close>: the map of live entries, the global version counter, the
  capped per-key delta log that serves RESUME, and the optional on-disk log. Each operation is one
  step on a record of these four parts; \<open>Store_Threads\<close> has the critical sections of concurrent
  operations and their interleavings. An error of the on-disk log is logged by the code and otherwise ignored, so
  the store keeps whatever state the log was left in. \<^verbatim>\<open>sort_unstable_by_key\<close> is modelled by the
  stable sort.
\<close>

record state_entry =
  e_version :: u64
  e_value :: json

type_synonym delta_rec = "u64 \<times> delta_op list"
type_synonym delta_log = "(string \<times> delta_rec list) list"

definition MAX_DELTA_LOG_ENTRIES_PER_KEY :: nat where
  "MAX_DELTA_LOG_ENTRIES_PER_KEY = 1000"

subsection \<open>The delta log\<close>

definition dl_entries :: "delta_log \<Rightarrow> string \<Rightarrow> delta_rec list" where
  "dl_entries l key = (case map_of l key of None \<Rightarrow> [] | Some es \<Rightarrow> es)"

definition dl_append :: "delta_log \<Rightarrow> string \<Rightarrow> u64 \<Rightarrow> delta_op list \<Rightarrow> delta_log" where
  "dl_append l key version ops =
     (let entry = dl_entries l key @ [(version, ops)];
          entry' = (if length entry > MAX_DELTA_LOG_ENTRIES_PER_KEY
                    then drop (length entry - MAX_DELTA_LOG_ENTRIES_PER_KEY) entry else entry)
      in AList.update key entry' l)"

definition dl_since :: "delta_log \<Rightarrow> string \<Rightarrow> u64 \<Rightarrow> delta_rec list" where
  "dl_since l key since_version =
     (case map_of l key of
        None \<Rightarrow> []
      | Some es \<Rightarrow> filter (\<lambda>(v, _). v > since_version) es)"

subsection \<open>The store\<close>

record state_store =
  st_entries :: "(string \<times> state_entry) list"
  st_version :: u64
  st_log :: delta_log
  st_plog :: "segmented_log option"

definition store_new :: state_store where
  "store_new = \<lparr>st_entries = [], st_version = 0, st_log = [], st_plog = None\<rparr>"

definition rebuild_entry :: "(string \<times> state_entry) list \<times> delta_log \<Rightarrow> log_entry
    \<Rightarrow> (string \<times> state_entry) list \<times> delta_log" where
  "rebuild_entry = (\<lambda>(entries, dlog) e.
     (AList.update (le_key e) \<lparr>e_version = le_version e, e_value = le_value e\<rparr> entries,
      if le_ops e \<noteq> [] then dl_append dlog (le_key e) (le_version e) (le_ops e) else dlog))"

text \<open>
  The code sorts with \<^verbatim>\<open>sort_unstable_by_key\<close>. \<^const>\<open>sort_key\<close> is one of the orders it may produce;
  the records of one mutation share a version, a key and a value, so it does not matter which of them comes last.
\<close>

definition store_open :: "decoder \<Rightarrow> dir \<Rightarrow> log_error + state_store" where
  "store_open dec d =
     (case log_open dec d of
        Inl err \<Rightarrow> Inl err
      | Inr (plog, replayed) \<Rightarrow>
          (let all_entries = sort_key le_version replayed;
               max_version = (if all_entries = [] then 0 else le_version (last all_entries));
               (entries, dlog) = foldl rebuild_entry ([], []) all_entries
           in Inr \<lparr>st_entries = entries, st_version = max_version, st_log = dlog, st_plog = Some plog\<rparr>))"

definition key_count :: "state_store \<Rightarrow> nat" where
  "key_count s = length (st_entries s)"

definition store_get :: "state_store \<Rightarrow> string \<Rightarrow> state_entry option" where
  "store_get s key = map_of (st_entries s) key"

definition snapshot_entries :: "state_store \<Rightarrow> log_entry list" where
  "snapshot_entries s =
     map (\<lambda>(k, e). \<lparr>le_version = e_version e, le_key = k, le_ops = [], le_value = e_value e\<rparr>) (st_entries s)"

definition compact_plog :: "encoder \<Rightarrow> state_store \<Rightarrow> state_store" where
  "compact_plog enc s =
     (case st_plog s of
        None \<Rightarrow> s
      | Some lg \<Rightarrow> s\<lparr>st_plog := Some (snd (compact enc lg (snapshot_entries s)))\<rparr>)"

text \<open>The shared tail of \<^verbatim>\<open>apply\<close> and \<^verbatim>\<open>delete\<close>: append to the on-disk log, compact when due.\<close>

definition persist :: "encoder \<Rightarrow> state_store \<Rightarrow> log_entry \<Rightarrow> state_store" where
  "persist enc s entry =
     (case st_plog s of
        None \<Rightarrow> s
      | Some lg \<Rightarrow>
          (let lg1 = snd (log_append enc lg entry);
               s1 = s\<lparr>st_plog := Some lg1\<rparr>
           in if needs_compact lg1 then compact_plog enc s1 else s1))"

definition store_apply :: "encoder \<Rightarrow> state_store \<Rightarrow> string \<Rightarrow> json \<Rightarrow> (u64 \<times> delta_op list) \<times> state_store" where
  "store_apply enc s key new_value =
     (let version = st_version s + 1;
          ops = (case store_get s key of
                   Some existing \<Rightarrow> diff (e_value existing) new_value
                 | None \<Rightarrow> [op_add ''/'' new_value]);
          s1 = s\<lparr>st_version := version,
                 st_entries := AList.update key \<lparr>e_version = version, e_value = new_value\<rparr> (st_entries s)\<rparr>;
          s2 = (if ops \<noteq> []
                then persist enc (s1\<lparr>st_log := dl_append (st_log s1) key version ops\<rparr>)
                       \<lparr>le_version = version, le_key = key, le_ops = ops, le_value = new_value\<rparr>
                else s1)
      in ((version, ops), s2))"

definition store_delete :: "encoder \<Rightarrow> state_store \<Rightarrow> string \<Rightarrow> (u64 \<times> delta_op list) option \<times> state_store" where
  "store_delete enc s key =
     (case store_get s key of
        None \<Rightarrow> (None, s)
      | Some _ \<Rightarrow>
          (let version = st_version s + 1;
               ops = [op_remove ''/''];
               s1 = s\<lparr>st_entries := AList.delete key (st_entries s), st_version := version,
                      st_log := dl_append (st_log s) key version ops\<rparr>
           in (Some (version, ops),
               persist enc s1 \<lparr>le_version = version, le_key = key, le_ops = ops, le_value = Null\<rparr>)))"

definition deltas_since :: "state_store \<Rightarrow> string \<Rightarrow> u64 \<Rightarrow> delta_rec list" where
  "deltas_since s key since_version = dl_since (st_log s) key since_version"

definition current_version :: "state_store \<Rightarrow> u64" where
  "current_version s = st_version s"

definition load_entry :: "(string \<times> state_entry) list \<Rightarrow> string \<times> u64 \<times> json \<Rightarrow> (string \<times> state_entry) list" where
  "load_entry es = (\<lambda>(key, version, value).
     let cur = (case map_of es key of Some e \<Rightarrow> e_version e | None \<Rightarrow> 0)
     in if version > cur then AList.update key \<lparr>e_version = version, e_value = value\<rparr> es else es)"

definition load_entries :: "state_store \<Rightarrow> (string \<times> u64 \<times> json) list \<Rightarrow> state_store" where
  "load_entries s entries =
     (let max_version = foldl (\<lambda>m (_, version, _). max m version) 0 entries
      in s\<lparr>st_entries := foldl load_entry (st_entries s) entries,
           st_version := (if max_version > st_version s then max_version else st_version s)\<rparr>)"

subsection \<open>Runs of mutations\<close>

datatype mutation = Apply string json | Delete string

definition mutate :: "encoder \<Rightarrow> state_store \<Rightarrow> mutation \<Rightarrow> state_store" where
  "mutate enc s m =
     (case m of
        Apply key v \<Rightarrow> snd (store_apply enc s key v)
      | Delete key \<Rightarrow> snd (store_delete enc s key))"

definition mutation_key :: "mutation \<Rightarrow> string" where
  "mutation_key m = (case m of Apply key _ \<Rightarrow> key | Delete key \<Rightarrow> key)"

text \<open>What a client holds for a key that is not in the store is null.\<close>

definition value_of :: "state_store \<Rightarrow> string \<Rightarrow> json" where
  "value_of s key = (case store_get s key of Some e \<Rightarrow> e_value e | None \<Rightarrow> Null)"

definition replicable :: "json \<Rightarrow> bool" where
  "replicable v \<longleftrightarrow> json_ok v \<and> slash_free v \<and> root_keys_ok v"

definition deltas_ok :: "u64 \<Rightarrow> delta_rec list \<Rightarrow> bool" where
  "deltas_ok version ds \<longleftrightarrow>
     sorted_wrt (<) (map fst ds) \<and> (\<forall>d \<in> set ds. fst d \<le> version \<and> snd d \<noteq> []) \<and>
     length ds \<le> MAX_DELTA_LOG_ENTRIES_PER_KEY"

definition store_ok :: "state_store \<Rightarrow> bool" where
  "store_ok s \<longleftrightarrow>
     distinct (map fst (st_entries s)) \<and>
     (\<forall>x \<in> set (st_entries s). e_version (snd x) \<le> st_version s \<and> json_ok (e_value (snd x))) \<and>
     distinct (map fst (st_log s)) \<and> (\<forall>x \<in> set (st_log s). deltas_ok (st_version s) (snd x))"

text \<open>A mutation the invariant allows: the counter does not wrap, the value is a JSON value.\<close>

definition mutation_ok :: "state_store \<Rightarrow> mutation \<Rightarrow> bool" where
  "mutation_ok s m \<longleftrightarrow>
     unat (st_version s) + 1 < 2 ^ 64 \<and> (case m of Apply _ v \<Rightarrow> replicable v | Delete _ \<Rightarrow> True)"

subsection \<open>Facts on the delta log\<close>

definition cap :: "'a list \<Rightarrow> 'a list" where
  "cap xs = drop (length xs - MAX_DELTA_LOG_ENTRIES_PER_KEY) xs"

lemma cap_cap: "cap (cap xs @ ys) = cap (xs @ ys)"
proof -
  have "length ys + (length xs - (length xs - n)) - n + (length xs - n) = length xs + length ys - n" for n
    by simp
  then show ?thesis
    by (simp add: cap_def min_def add.commute)
qed

lemma cap_short: "length xs \<le> MAX_DELTA_LOG_ENTRIES_PER_KEY \<Longrightarrow> cap xs = xs"
  by (simp add: cap_def)

lemma length_cap: "length (cap xs) \<le> MAX_DELTA_LOG_ENTRIES_PER_KEY"
  by (simp add: cap_def)

lemma set_cap: "x \<in> set (cap xs) \<Longrightarrow> x \<in> set xs"
  by (simp add: cap_def in_set_dropD)

lemma sorted_wrt_cap: "sorted_wrt P (map f xs) \<Longrightarrow> sorted_wrt P (map f (cap xs))"
  by (simp add: cap_def drop_map [symmetric] sorted_wrt_drop)

lemma dl_entries_append:
  "dl_entries (dl_append l key v ops) k =
     (if k = key then cap (dl_entries l key @ [(v, ops)]) else dl_entries l k)"
  by (simp add: dl_entries_def dl_append_def cap_def update_conv' Let_def split: option.split)

lemma dl_since_filter: "dl_since l key v0 = filter (\<lambda>d. v0 < fst d) (dl_entries l key)"
  by (simp add: dl_since_def dl_entries_def split_def split: option.split)

text \<open>In ascending order the deltas after a version are a suffix, which the cap does not touch.\<close>

lemma filter_drop_ascending:
  fixes ds :: "delta_rec list"
  assumes "sorted_wrt (<) (map fst ds)" and "length (filter (\<lambda>d. v0 < fst d) ds) + n \<le> length ds"
  shows "filter (\<lambda>d. v0 < fst d) (drop n ds) = filter (\<lambda>d. v0 < fst d) ds"
  using assms
proof (induction ds arbitrary: n)
  case (Cons d ds)
  show ?case
  proof (cases "v0 < fst d")
    case True
    then have "filter (\<lambda>d. v0 < fst d) (d # ds) = d # ds"
      using Cons.prems(1) by (auto simp: filter_id_conv)
    with Cons.prems(2) show ?thesis
      by simp
  next
    case False
    with Cons show ?thesis
      by (cases n) auto
  qed
qed simp

lemma filter_cap:
  fixes ds :: "delta_rec list"
  assumes "sorted_wrt (<) (map fst ds)"
    and "length (filter (\<lambda>d. v0 < fst d) ds) \<le> MAX_DELTA_LOG_ENTRIES_PER_KEY"
  shows "filter (\<lambda>d. v0 < fst d) (cap ds) = filter (\<lambda>d. v0 < fst d) ds"
  unfolding cap_def
proof (rule filter_drop_ascending [OF assms(1)])
  show "length (filter (\<lambda>d. v0 < fst d) ds) + (length ds - MAX_DELTA_LOG_ENTRIES_PER_KEY) \<le> length ds"
    using assms(2) length_filter_le [of "\<lambda>d. v0 < fst d" ds] by linarith
qed

lemma dl_entries_ok:
  assumes "\<forall>x \<in> set l. deltas_ok v (snd x)"
  shows "deltas_ok v (dl_entries l key)"
proof (cases "map_of l key")
  case None
  then show ?thesis
    by (simp add: dl_entries_def deltas_ok_def)
next
  case (Some ds)
  then show ?thesis
    using bspec [OF assms map_of_SomeD [OF Some]] by (simp add: dl_entries_def)
qed

lemma deltas_ok_entries: "store_ok s \<Longrightarrow> deltas_ok (st_version s) (dl_entries (st_log s) key)"
  by (simp add: store_ok_def dl_entries_ok)

lemma deltas_ok_mono: "deltas_ok v ds \<Longrightarrow> v \<le> v' \<Longrightarrow> deltas_ok v' ds"
  by (force simp: deltas_ok_def)

lemma deltas_ok_snoc:
  assumes "deltas_ok v ds" and "v < v'" and "ops \<noteq> []"
  shows "deltas_ok v' (cap (ds @ [(v', ops)]))"
  using assms sorted_wrt_cap [of "(<)" fst "ds @ [(v', ops)]"]
  by (force simp: deltas_ok_def length_cap sorted_wrt_append dest!: set_cap)

lemma dlog_append_ok:
  assumes "distinct (map fst l)" and "\<forall>x \<in> set l. deltas_ok v (snd x)" and "v < v'" and "ops \<noteq> []"
  shows "distinct (map fst (dl_append l key v' ops)) \<and>
         (\<forall>x \<in> set (dl_append l key v' ops). deltas_ok v' (snd x))"
proof -
  have "deltas_ok v (dl_entries l key)"
    by (rule dl_entries_ok [OF assms(2)])
  then have new: "deltas_ok v' (cap (dl_entries l key @ [(v', ops)]))"
    using assms(3,4) by (rule deltas_ok_snoc)
  have eq: "dl_append l key v' ops = AList.update key (cap (dl_entries l key @ [(v', ops)])) l"
    by (simp add: dl_append_def cap_def Let_def)
  show ?thesis
    using assms(1-3) new set_update_subset [of key _ l] deltas_ok_mono [of v _ v']
    unfolding eq by (fastforce simp: distinct_update)
qed


subsection \<open>What the operations do\<close>

lemma persist_simps [simp]:
  "st_entries (persist enc s e) = st_entries s" "st_version (persist enc s e) = st_version s"
  "st_log (persist enc s e) = st_log s"
  by (simp_all add: persist_def compact_plog_def Let_def split: option.split)

definition apply_delta :: "state_store \<Rightarrow> string \<Rightarrow> json \<Rightarrow> delta_op list" where
  "apply_delta s key v =
     (case store_get s key of Some e \<Rightarrow> diff (e_value e) v | None \<Rightarrow> [op_add ''/'' v])"

lemma store_apply_result: "fst (store_apply enc s key v) = (st_version s + 1, apply_delta s key v)"
  by (simp add: store_apply_def apply_delta_def Let_def)

lemma store_apply_parts [simp]:
  "st_entries (snd (store_apply enc s key v)) =
     AList.update key \<lparr>e_version = st_version s + 1, e_value = v\<rparr> (st_entries s)"
  "st_version (snd (store_apply enc s key v)) = st_version s + 1"
  "st_log (snd (store_apply enc s key v)) =
     (if apply_delta s key v = [] then st_log s
      else dl_append (st_log s) key (st_version s + 1) (apply_delta s key v))"
  by (simp_all add: store_apply_def apply_delta_def [symmetric] Let_def)

lemma store_get_apply:
  "store_get (snd (store_apply enc s key v)) k =
     (if k = key then Some \<lparr>e_version = st_version s + 1, e_value = v\<rparr> else store_get s k)"
  by (simp add: store_get_def update_conv')

lemma store_delete_absent: "store_get s key = None \<Longrightarrow> store_delete enc s key = (None, s)"
  by (simp add: store_delete_def)

lemma store_delete_parts:
  assumes "store_get s key = Some e"
  shows "fst (store_delete enc s key) = Some (st_version s + 1, [op_remove ''/''])"
    and "st_entries (snd (store_delete enc s key)) = AList.delete key (st_entries s)"
    and "st_version (snd (store_delete enc s key)) = st_version s + 1"
    and "st_log (snd (store_delete enc s key)) = dl_append (st_log s) key (st_version s + 1) [op_remove ''/'']"
  using assms by (simp_all add: store_delete_def Let_def)

lemma store_get_delete:
  "store_get (snd (store_delete enc s key)) k = (if k = key then None else store_get s k)"
proof (cases "store_get s key")
  case None
  then show ?thesis
    by (simp add: store_delete_absent)
next
  case (Some e)
  then show ?thesis
    using store_delete_parts(2) [OF Some] by (simp add: store_get_def delete_conv')
qed

lemma st_version_mutate_le:
  "unat (st_version s) + 1 < 2 ^ 64 \<Longrightarrow> st_version s \<le> st_version (mutate enc s m)"
  by (cases m; cases "store_get s (mutation_key m)")
    (auto simp: mutate_def mutation_key_def store_delete_absent store_delete_parts(3) word_le_nat_alt unat_Suc_u64)

subsection \<open>The invariant\<close>

lemma version_less: "unat (v :: u64) + 1 < 2 ^ 64 \<Longrightarrow> v < v + 1"
  by (simp add: word_less_nat_alt unat_Suc_u64)

lemma store_ok_new: "store_ok store_new"
  by (simp add: store_ok_def store_new_def)

lemma store_ok_apply:
  assumes "store_ok s" and "unat (st_version s) + 1 < 2 ^ 64" and "json_ok v"
  shows "store_ok (snd (store_apply enc s key v))"
proof -
  note less = version_less [OF assms(2)]
  let ?e = "\<lparr>e_version = st_version s + 1, e_value = v\<rparr>"
  have entries: "e_version (snd x) \<le> st_version s + 1 \<and> json_ok (e_value (snd x))"
    if "x \<in> set (AList.update key ?e (st_entries s))" for x
    using that set_update_subset [of key ?e "st_entries s"] assms(1,3) less by (fastforce simp: store_ok_def)
  have log: "distinct (map fst (st_log (snd (store_apply enc s key v)))) \<and>
      (\<forall>x \<in> set (st_log (snd (store_apply enc s key v))). deltas_ok (st_version s + 1) (snd x))"
    using assms(1) less dlog_append_ok [of "st_log s" "st_version s" "st_version s + 1" "apply_delta s key v" key]
    by (auto simp: store_ok_def intro: deltas_ok_mono [OF _ less_imp_le])
  show ?thesis
    using assms(1) entries log by (simp add: store_ok_def distinct_update)
qed

lemma store_ok_delete:
  assumes "store_ok s" and "unat (st_version s) + 1 < 2 ^ 64"
  shows "store_ok (snd (store_delete enc s key))"
proof (cases "store_get s key")
  case None
  with assms(1) show ?thesis
    by (simp add: store_delete_absent)
next
  case (Some e)
  note less = version_less [OF assms(2)]
  have "distinct (map fst (AList.delete key (st_entries s)))"
    "set (AList.delete key (st_entries s)) \<subseteq> set (st_entries s)"
    using assms(1) by (auto simp: store_ok_def AList.delete_eq intro: distinct_map_filter)
  then show ?thesis
    using assms(1) less dlog_append_ok [of "st_log s" "st_version s" "st_version s + 1" "[op_remove ''/'']" key]
    unfolding store_ok_def store_delete_parts [OF Some] by fastforce
qed

lemma store_ok_mutate: "store_ok s \<Longrightarrow> mutation_ok s m \<Longrightarrow> store_ok (mutate enc s m)"
  by (cases m) (simp_all add: mutate_def mutation_ok_def replicable_def store_ok_apply store_ok_delete)

lemma unat_version_mutate: "unat (st_version (mutate enc s m)) \<le> unat (st_version s) + 1"
proof -
  have "st_version (mutate enc s m) \<in> {st_version s, st_version s + 1}"
    by (cases m; cases "store_get s (mutation_key m)")
      (auto simp: mutate_def mutation_key_def store_delete_absent store_delete_parts(3))
  moreover have "unat (st_version s + 1) \<le> unat (st_version s) + 1"
    by (simp add: unat_word_ariths)
  ultimately show ?thesis
    by auto
qed

lemma run_ok_mutations:
  "unat (st_version s) + length ms < 2 ^ 64 \<Longrightarrow>
     list_all (\<lambda>m. case m of Apply _ v \<Rightarrow> replicable v | Delete _ \<Rightarrow> True) ms \<Longrightarrow>
     run_ok (mutate enc) mutation_ok s ms"
proof (induction ms arbitrary: s)
  case (Cons m ms)
  have "unat (st_version (mutate enc s m)) + length ms < 2 ^ 64"
    using unat_version_mutate [of enc s m] Cons.prems(1) by simp
  with Cons show ?case
    by (simp add: mutation_ok_def)
qed simp

interpretation store_runs: inv_system "mutate enc" store_ok mutation_ok for enc
  by unfold_locales (rule store_ok_mutate)


subsection \<open>Replaying the missed deltas\<close>

text \<open>A client applies the deltas it is sent one after the other.\<close>

definition replay :: "json \<Rightarrow> delta_rec list \<Rightarrow> json" where
  "replay v ds = foldl (\<lambda>acc d. apply_ops acc (snd d)) v ds"

lemma replay_snoc [simp]: "replay v (ds @ [d]) = apply_ops (replay v ds) (snd d)"
  by (simp add: replay_def)

lemma apply_root_ops:
  "apply_ops v [op_add ''/'' w] = w" "apply_ops v [op_remove ''/''] = Null"
  by (simp_all add: apply_ops_def apply_one_def parse_path_def op_add_def op_remove_def op_value_def)

lemma apply_delta_replay:
  assumes "replicable v" and "\<forall>e. store_get s key = Some e \<longrightarrow> replicable (e_value e)"
  shows "apply_ops (value_of s key) (apply_delta s key v) = v"
proof (cases "store_get s key")
  case None
  then show ?thesis
    by (simp add: apply_delta_def apply_root_ops)
next
  case (Some e)
  with assms show ?thesis
    by (simp add: apply_delta_def value_of_def replicable_def apply_ops_diff)
qed

text \<open>
  Synchronisation of a client that saw version \<open>v0\<close> with value \<open>c\<close>: replaying what the store has
  since then gives the current value; \<open>n\<close> bounds the number of those deltas.
\<close>

definition synced :: "string \<Rightarrow> u64 \<Rightarrow> json \<Rightarrow> nat \<Rightarrow> state_store \<Rightarrow> bool" where
  "synced key v0 c n s \<longleftrightarrow>
     store_ok s \<and> v0 \<le> st_version s \<and> replicable (value_of s key) \<and>
     length (deltas_since s key v0) \<le> n \<and> replay c (deltas_since s key v0) = value_of s key"

lemma replicable_Null [simp]: "replicable Null"
  by (simp add: replicable_def)

lemma deltas_since_append:
  assumes "store_ok s" and "v0 \<le> st_version s" and "st_version s < v'"
    and "length (deltas_since s key v0) < MAX_DELTA_LOG_ENTRIES_PER_KEY"
  shows "dl_since (dl_append (st_log s) key v' ops) key v0 = deltas_since s key v0 @ [(v', ops)]"
proof -
  let ?ds = "dl_entries (st_log s) key"
  have "deltas_ok (st_version s) ?ds"
    using assms(1) by (rule deltas_ok_entries)
  then have "sorted_wrt (<) (map fst (?ds @ [(v', ops)]))"
    using assms(3) by (force simp: deltas_ok_def sorted_wrt_append)
  moreover have new: "v0 < v'"
    using assms(2,3) by simp
  ultimately show ?thesis
    using filter_cap [of "?ds @ [(v', ops)]" v0] assms(4)
    by (simp add: deltas_since_def dl_since_filter dl_entries_append)
qed

lemma dl_since_other: "k \<noteq> key \<Longrightarrow> dl_since (dl_append l key v ops) k v0 = dl_since l k v0"
  by (simp add: dl_since_filter dl_entries_append)

lemma synced_apply:
  assumes "synced key v0 c n s" and "unat (st_version s) + 1 < 2 ^ 64" and "replicable v"
    and "n < MAX_DELTA_LOG_ENTRIES_PER_KEY"
  shows "synced key v0 c (Suc n) (snd (store_apply enc s key v))"
proof -
  have s: "store_ok s" "v0 \<le> st_version s" "length (deltas_since s key v0) \<le> n"
    "replay c (deltas_since s key v0) = value_of s key" "replicable (value_of s key)"
    using assms(1) by (simp_all add: synced_def)
  note less = version_less [OF assms(2)]
  have step: "apply_ops (value_of s key) (apply_delta s key v) = v"
    by (rule apply_delta_replay) (use assms(3) s(5) in \<open>auto simp: value_of_def\<close>)
  have len: "length (deltas_since s key v0) < MAX_DELTA_LOG_ENTRIES_PER_KEY"
    using s(3) assms(4) by simp
  have val: "value_of (snd (store_apply enc s key v)) key = v"
    by (simp add: value_of_def store_get_apply)
  have since: "deltas_since (snd (store_apply enc s key v)) key v0 =
      (if apply_delta s key v = [] then deltas_since s key v0
       else deltas_since s key v0 @ [(st_version s + 1, apply_delta s key v)])"
    using deltas_since_append [OF s(1,2) less len] by (simp add: deltas_since_def)
  show ?thesis
    using store_ok_apply [OF s(1) assms(2)] s step less assms(3) val
    unfolding synced_def since by (auto simp: replicable_def apply_ops_def)
qed

lemma synced_delete:
  assumes "synced key v0 c n s" and "unat (st_version s) + 1 < 2 ^ 64"
    and "n < MAX_DELTA_LOG_ENTRIES_PER_KEY"
  shows "synced key v0 c (Suc n) (snd (store_delete enc s key))"
proof (cases "store_get s key")
  case None
  with assms(1) show ?thesis
    by (simp add: store_delete_absent synced_def)
next
  case (Some e)
  have s: "store_ok s" "v0 \<le> st_version s" "length (deltas_since s key v0) \<le> n"
    "replay c (deltas_since s key v0) = value_of s key"
    using assms(1) by (simp_all add: synced_def)
  note less = version_less [OF assms(2)]
  have len: "length (deltas_since s key v0) < MAX_DELTA_LOG_ENTRIES_PER_KEY"
    using s(3) assms(3) by simp
  have "deltas_since (snd (store_delete enc s key)) key v0 =
      deltas_since s key v0 @ [(st_version s + 1, [op_remove ''/''])]"
    using deltas_since_append [OF s(1,2) less len] by (simp add: deltas_since_def store_delete_parts(4) [OF Some])
  moreover have "value_of (snd (store_delete enc s key)) key = Null"
    by (simp add: value_of_def store_get_delete)
  ultimately show ?thesis
    using store_ok_delete [OF s(1) assms(2)] s less
    by (auto simp: synced_def store_delete_parts(3) [OF Some] apply_root_ops)
qed

lemma synced_other:
  assumes "synced key v0 c n s" and "mutation_ok s m" and "mutation_key m \<noteq> key"
  shows "synced key v0 c n (mutate enc s m)"
proof -
  have room: "unat (st_version s) + 1 < 2 ^ 64"
    using assms(2) by (simp add: mutation_ok_def)
  have "store_ok (mutate enc s m)" "v0 \<le> st_version (mutate enc s m)"
    using assms(1,2) store_ok_mutate st_version_mutate_le [OF room, of enc m] by (auto simp: synced_def)
  moreover have "value_of (mutate enc s m) key = value_of s key"
    using assms(3) by (cases m) (simp_all add: mutate_def mutation_key_def value_of_def store_get_apply store_get_delete)
  moreover have "deltas_since (mutate enc s m) key v0 = deltas_since s key v0"
  proof (cases m)
    case (Apply k v)
    then show ?thesis
      using assms(3) by (simp add: mutate_def mutation_key_def deltas_since_def dl_since_other)
  next
    case (Delete k)
    then show ?thesis
      using assms(3) by (cases "store_get s k")
        (simp_all add: mutate_def mutation_key_def deltas_since_def dl_since_other store_delete_absent store_delete_parts(4))
  qed
  ultimately show ?thesis
    using assms(1) by (simp add: synced_def)
qed

lemma synced_run:
  assumes "synced key v0 c n s" and "run_ok (mutate enc) mutation_ok s ms"
    and "n + length (filter (\<lambda>m. mutation_key m = key) ms) \<le> MAX_DELTA_LOG_ENTRIES_PER_KEY"
  shows "synced key v0 c (n + length (filter (\<lambda>m. mutation_key m = key) ms)) (foldl (mutate enc) s ms)"
  using assms
proof (induction ms arbitrary: s n)
  case (Cons m ms)
  have ok: "mutation_ok s m" "run_ok (mutate enc) mutation_ok (mutate enc s m) ms"
    using Cons.prems(2) by simp_all
  show ?case
  proof (cases "mutation_key m = key")
    case True
    then have "synced key v0 c (Suc n) (mutate enc s m)"
      using Cons.prems(1,3) ok(1)
      by (cases m) (simp_all add: mutate_def mutation_ok_def mutation_key_def synced_apply synced_delete)
    from Cons.IH [OF this ok(2)] True Cons.prems(3) show ?thesis
      by simp
  next
    case False
    from Cons.IH [OF synced_other [OF Cons.prems(1) ok(1) False] ok(2)] False Cons.prems(3) show ?thesis
      by simp
  qed
qed simp


subsection \<open>Restart from disk\<close>

text \<open>The last entry on disk for a key, in disk order.\<close>

definition disk_last :: "log_entry list \<Rightarrow> string \<Rightarrow> log_entry option" where
  "disk_last D k = (let es = filter (\<lambda>e. le_key e = k) D in if es = [] then None else Some (last es))"

definition entry_of :: "log_entry \<Rightarrow> state_entry" where
  "entry_of e = \<lparr>e_version = le_version e, e_value = le_value e\<rparr>"

text \<open>The disk mirrors the memory: same live values, and null for a key that was deleted.\<close>

definition mirrors :: "log_entry list \<Rightarrow> state_store \<Rightarrow> bool" where
  "mirrors D s \<longleftrightarrow>
     (\<forall>e \<in> set D. le_version e \<le> st_version s \<and> json_ok (le_value e)) \<and>
     (\<forall>k. sorted_wrt (<) (map le_version (filter (\<lambda>e. le_key e = k) D))) \<and>
     (\<forall>k. (case store_get s k of
             Some e \<Rightarrow> (\<exists>d. disk_last D k = Some d \<and> le_value d = e_value e)
           | None \<Rightarrow> (\<forall>d. disk_last D k = Some d \<longrightarrow> le_value d = Null)))"

definition durable :: "encoder \<Rightarrow> decoder \<Rightarrow> state_store \<Rightarrow> bool" where
  "durable enc dec s \<longleftrightarrow>
     store_ok s \<and>
     (case st_plog s of
        None \<Rightarrow> False
      | Some lg \<Rightarrow> log_ok enc dec lg \<and> mirrors (disk_entries dec (log_dir lg)) s)"

text \<open>
  A mutation the disk can take: what it writes (the entry, and the snapshot if it compacts) is
  stored faithfully by the codec, and segment numbers do not run out.
\<close>

definition entry_written :: "state_store \<Rightarrow> mutation \<Rightarrow> log_entry" where
  "entry_written s m =
     (case m of
        Apply key v \<Rightarrow> \<lparr>le_version = st_version s + 1, le_key = key, le_ops = apply_delta s key v, le_value = v\<rparr>
      | Delete key \<Rightarrow> \<lparr>le_version = st_version s + 1, le_key = key, le_ops = [op_remove ''/''], le_value = Null\<rparr>)"

definition disk_mutation_ok :: "encoder \<Rightarrow> decoder \<Rightarrow> state_store \<Rightarrow> mutation \<Rightarrow> bool" where
  "disk_mutation_ok enc dec s m \<longleftrightarrow>
     mutation_ok s m \<and> stored_ok enc dec (entry_written s m) \<and>
     (\<forall>e \<in> set (snapshot_entries (mutate enc s m)). stored_ok enc dec e) \<and>
     (case st_plog s of None \<Rightarrow> False | Some lg \<Rightarrow> current_seg lg + 3 < 2 ^ 64)"

lemma disk_last_append: "disk_last (D @ [e]) k = (if le_key e = k then Some e else disk_last D k)"
  by (simp add: disk_last_def)

lemma disk_last_mem: "disk_last D k = Some d \<Longrightarrow> d \<in> set D \<and> le_key d = k"
  using last_in_set [of "filter (\<lambda>e. le_key e = k) D"]
  by (auto simp: disk_last_def Let_def split: if_splits)

lemma rebuild_entry_parts:
  "fst (rebuild_entry acc e) = AList.update (le_key e) (entry_of e) (fst acc)"
  "snd (rebuild_entry acc e) =
     (if le_ops e \<noteq> [] then dl_append (snd acc) (le_key e) (le_version e) (le_ops e) else snd acc)"
  by (simp_all add: rebuild_entry_def entry_of_def split_def)

lemma map_of_rebuild:
  "map_of (fst (foldl rebuild_entry acc D)) k =
     (case disk_last D k of Some e \<Rightarrow> Some (entry_of e) | None \<Rightarrow> map_of (fst acc) k)"
proof (induction D rule: rev_induct)
  case (snoc e D)
  then show ?case
    by (simp add: rebuild_entry_parts update_conv' disk_last_append)
qed (simp add: disk_last_def)

lemma distinct_rebuild:
  "distinct (map fst (fst acc)) \<Longrightarrow> distinct (map fst (fst (foldl rebuild_entry acc D)))"
  by (induction D rule: rev_induct) (simp_all add: rebuild_entry_parts distinct_update)

text \<open>Sorting by version keeps the order per key, so the last write of each key wins.\<close>

lemma filter_sorted:
  assumes "sorted_wrt (<) (map le_version (filter (\<lambda>e. le_key e = k) D))"
  shows "filter (\<lambda>e. le_key e = k) (sort_key le_version D) = filter (\<lambda>e. le_key e = k) D"
proof -
  have "sorted (map le_version (filter (\<lambda>e. le_key e = k) D))"
    using assms by (simp add: strict_sorted_iff)
  then show ?thesis
    by (simp add: filter_sort sort_key_id_if_sorted)
qed

lemma disk_last_sorted:
  "sorted_wrt (<) (map le_version (filter (\<lambda>e. le_key e = k) D)) \<Longrightarrow>
     disk_last (sort_key le_version D) k = disk_last D k"
  by (simp add: disk_last_def filter_sorted)


lemma dl_entries_rebuild:
  "dl_entries (snd (foldl rebuild_entry ([], []) D)) k =
     cap (map (\<lambda>e. (le_version e, le_ops e)) (filter (\<lambda>e. le_key e = k \<and> le_ops e \<noteq> []) D))"
proof (induction D rule: rev_induct)
  case (snoc e D)
  then show ?case
    by (auto simp: rebuild_entry_parts dl_entries_append cap_cap)
qed (simp add: dl_entries_def cap_def)

lemma distinct_dlog_rebuild: "distinct (map fst (snd (foldl rebuild_entry ([], []) D)))"
  by (induction D rule: rev_induct)
    (simp_all add: rebuild_entry_parts dl_append_def distinct_update Let_def)

lemma deltas_ok_rebuild:
  assumes "\<forall>k. sorted_wrt (<) (map le_version (filter (\<lambda>e. le_key e = k) D))"
    and "\<forall>e \<in> set D. le_version e \<le> v"
    and "x \<in> set (snd (foldl rebuild_entry ([], []) D))"
  shows "deltas_ok v (snd x)"
proof -
  let ?l = "snd (foldl rebuild_entry ([], []) D)"
  let ?ds = "map (\<lambda>e. (le_version e, le_ops e)) (filter (\<lambda>e. le_key e = fst x \<and> le_ops e \<noteq> []) D)"
  have "map_of ?l (fst x) = Some (snd x)"
    using distinct_dlog_rebuild assms(3) by simp
  then have x: "snd x = cap ?ds"
    using dl_entries_rebuild [of D "fst x"] by (simp add: dl_entries_def)
  have "filter (\<lambda>e. le_key e = fst x \<and> le_ops e \<noteq> []) D =
      filter (\<lambda>e. le_ops e \<noteq> []) (filter (\<lambda>e. le_key e = fst x) D)"
    by (simp add: conj_commute)
  then have "sorted_wrt (<) (map fst ?ds)"
    using assms(1) [rule_format, of "fst x"]
    by (simp only: map_map comp_def fst_conv sorted_wrt_map) (rule sorted_wrt_filter)
  with assms(2) show ?thesis
    unfolding x deltas_ok_def
    by (auto simp: length_cap sorted_wrt_cap dest!: set_cap)
qed

lemma sorted_last_max:
  assumes "e \<in> set D"
  shows "le_version e \<le> le_version (last (sort_key le_version D))"
proof -
  let ?S = "sort_key le_version D"
  have S: "e \<in> set ?S" "sorted (map le_version ?S)"
    using assms by simp_all
  have "le_version x \<le> le_version (last xs)" if "x \<in> set xs" "sorted (map le_version xs)" for x xs
    using that by (induction xs) auto
  from this [OF S] show ?thesis .
qed


lemma rebuilt_entry:
  assumes "x \<in> set (fst (foldl rebuild_entry ([], []) (sort_key le_version D)))"
    and "\<And>k. sorted_wrt (<) (map le_version (filter (\<lambda>e. le_key e = k) D))"
  obtains d where "d \<in> set D" "snd x = entry_of d"
proof -
  let ?S = "sort_key le_version D"
  let ?es = "fst (foldl rebuild_entry ([], []) ?S)"
  have "map_of ?es (fst x) = Some (snd x)"
    using assms(1) distinct_rebuild [of "([], [])" ?S] by simp
  then have "map_option entry_of (disk_last D (fst x)) = Some (snd x)"
    using map_of_rebuild [of "([], [])" ?S "fst x"] disk_last_sorted [OF assms(2), of "fst x"]
    by (cases "disk_last D (fst x)") simp_all
  then show thesis
    using that disk_last_mem [of D "fst x"] by auto
qed

lemma recover:
  assumes "durable enc dec s" and "st_plog s = Some lg"
  obtains s' where "store_open dec (log_dir lg) = Inr s'" "durable enc dec s'" "st_plog s' = Some lg"
    "st_version s' \<le> st_version s" "\<And>k. store_get s' k = map_option entry_of (disk_last (disk_entries dec (log_dir lg)) k)"
proof -
  define D where "D = disk_entries dec (log_dir lg)"
  define S where "S = sort_key le_version D"
  have lg: "log_ok enc dec lg" "mirrors D s"
    using assms by (simp_all add: durable_def D_def)
  have D: "\<And>e. e \<in> set D \<Longrightarrow> le_version e \<le> st_version s \<and> json_ok (le_value e)"
    and asc: "\<And>k. sorted_wrt (<) (map le_version (filter (\<lambda>e. le_key e = k) D))"
    using lg(2) by (auto simp: mirrors_def)
  have open_lg: "log_open dec (log_dir lg) = Inr (lg, D)"
    using lg(1) reopen [of enc dec "log_dir lg"] by (simp add: log_ok_def D_def)
  define mv where "mv = (if S = [] then 0 else le_version (last S))"
  define s' where "s' = \<lparr>st_entries = fst (foldl rebuild_entry ([], []) S), st_version = mv,
      st_log = snd (foldl rebuild_entry ([], []) S), st_plog = Some lg\<rparr>"
  have "store_open dec (log_dir lg) = Inr s'"
    by (simp add: store_open_def open_lg S_def s'_def mv_def Let_def split_def)
  have mv: "le_version e \<le> mv" if "e \<in> set D" for e
  proof -
    have "e \<in> set S"
      using that by (simp add: S_def)
    then show ?thesis
      using sorted_last_max [OF that] by (auto simp: mv_def S_def [symmetric])
  qed
  have get: "store_get s' k = map_option entry_of (disk_last D k)" for k
    using map_of_rebuild [of "([], [])" S k] disk_last_sorted [OF asc, of k]
    by (cases "disk_last D k") (simp_all add: store_get_def s'_def S_def)
  have "e_version (snd x) \<le> mv \<and> json_ok (e_value (snd x))" if x: "x \<in> set (st_entries s')" for x
  proof -
    obtain d where "d \<in> set D" "snd x = entry_of d"
      using rebuilt_entry [OF _ asc, of x] x by (auto simp: s'_def S_def)
    then show ?thesis
      using mv D by (simp add: entry_of_def)
  qed
  moreover have "\<forall>k. sorted_wrt (<) (map le_version (filter (\<lambda>e. le_key e = k) S))"
    using asc by (simp add: S_def filter_sorted)
  ultimately have "store_ok s'"
    using distinct_rebuild [of "([], [])" S] distinct_dlog_rebuild [of S] mv deltas_ok_rebuild [of S mv]
    unfolding store_ok_def by (simp add: s'_def S_def)
  moreover have "mirrors D s'"
    unfolding mirrors_def using mv D asc get by (auto simp: s'_def entry_of_def split: option.split)
  ultimately have "durable enc dec s'"
    using lg(1) by (simp add: durable_def s'_def D_def)
  moreover have "mv \<le> st_version s"
    using D [of "last S"] last_in_set [of S] by (auto simp: mv_def S_def)
  ultimately show thesis
    using that \<open>store_open dec (log_dir lg) = Inr s'\<close> get by (simp add: s'_def D_def)
qed

lemma mirrors_at:
  "mirrors D s \<Longrightarrow>
     (case store_get s k of
        Some e \<Rightarrow> (\<exists>d. disk_last D k = Some d \<and> le_value d = e_value e)
      | None \<Rightarrow> (\<forall>d. disk_last D k = Some d \<longrightarrow> le_value d = Null))"
  by (simp add: mirrors_def)

lemma recover_values:
  assumes "mirrors D s" and "\<And>k. store_get s' k = map_option entry_of (disk_last D k)"
  shows "value_of s' k = value_of s k" and "store_get s k \<noteq> None \<Longrightarrow> store_get s' k \<noteq> None"
proof -
  note m = mirrors_at [OF assms(1), of k]
  then show "value_of s' k = value_of s k"
    by (cases "store_get s k"; cases "disk_last D k") (auto simp: value_of_def assms(2) entry_of_def)
  from m show "store_get s k \<noteq> None \<Longrightarrow> store_get s' k \<noteq> None"
    by (cases "store_get s k") (auto simp: assms(2))
qed


lemma filter_snapshot:
  "filter (\<lambda>e. le_key e = k) (snapshot_entries s) =
     map (\<lambda>(k, e). \<lparr>le_version = e_version e, le_key = k, le_ops = [], le_value = e_value e\<rparr>)
       (filter (\<lambda>x. fst x = k) (st_entries s))"
  by (simp add: snapshot_entries_def filter_map comp_def split_def)

lemma filter_key:
  "distinct (map fst m) \<Longrightarrow>
     filter (\<lambda>x. fst x = k) m = (case map_of m k of Some v \<Rightarrow> [(k, v)] | None \<Rightarrow> [])"
proof (induction m)
  case (Cons x m)
  show ?case
  proof (cases "fst x = k")
    case True
    then have "filter (\<lambda>x. fst x = k) m = []"
      using Cons.prems by (auto simp: filter_empty_conv image_iff)
    with True show ?thesis
      by auto
  next
    case False
    with Cons show ?thesis
      by simp
  qed
qed simp

lemma mirrors_snapshot:
  assumes "store_ok s"
  shows "mirrors (snapshot_entries s) s"
  unfolding mirrors_def
proof (intro conjI allI ballI)
  have dist: "distinct (map fst (st_entries s))"
    using assms by (simp add: store_ok_def)
  fix k
  have f: "filter (\<lambda>e. le_key e = k) (snapshot_entries s) =
      (case store_get s k of
         Some e \<Rightarrow> [\<lparr>le_version = e_version e, le_key = k, le_ops = [], le_value = e_value e\<rparr>]
       | None \<Rightarrow> [])"
    by (simp add: filter_snapshot filter_key [OF dist] store_get_def split: option.split)
  then show "sorted_wrt (<) (map le_version (filter (\<lambda>e. le_key e = k) (snapshot_entries s)))"
    by (simp split: option.split)
  from f show "case store_get s k of
        None \<Rightarrow> \<forall>d. disk_last (snapshot_entries s) k = Some d \<longrightarrow> le_value d = Null
      | Some e \<Rightarrow> \<exists>d. disk_last (snapshot_entries s) k = Some d \<and> le_value d = e_value e"
    by (simp add: disk_last_def split: option.split)
qed (use assms in \<open>auto simp: store_ok_def snapshot_entries_def\<close>)

lemma mirrors_cong:
  "st_entries s = st_entries s' \<Longrightarrow> st_version s = st_version s' \<Longrightarrow> mirrors D s = mirrors D s'"
  by (simp add: mirrors_def store_get_def)

lemma store_ok_cong:
  "st_entries s = st_entries s' \<Longrightarrow> st_version s = st_version s' \<Longrightarrow> st_log s = st_log s' \<Longrightarrow>
     store_ok s = store_ok s'"
  by (simp add: store_ok_def)

lemma persist_durable:
  assumes "store_ok s" and "st_plog s = Some lg" and "log_ok enc dec lg"
    and "mirrors (disk_entries dec (log_dir lg) @ [e]) s" and "stored_ok enc dec e"
    and "\<forall>x \<in> set (snapshot_entries s). stored_ok enc dec x" and "current_seg lg + 3 < 2 ^ 64"
  shows "durable enc dec (persist enc s e)"
proof -
  obtain lg1 where lg1: "log_append enc lg e = (Inr (), lg1)" "log_ok enc dec lg1"
    "disk_entries dec (log_dir lg1) = disk_entries dec (log_dir lg) @ [e]" "current_seg lg1 \<le> current_seg lg + 1"
    using log_append_ok [OF assms(3,5)] assms(7) by auto
  have room: "current_seg lg1 + 2 < 2 ^ 64"
    using lg1(4) assms(7) by linarith
  have snap: "snapshot_entries (s\<lparr>st_plog := Some lg1\<rparr>) = snapshot_entries s"
    by (simp add: snapshot_entries_def)
  obtain lg2 where lg2: "compact enc lg1 (snapshot_entries s) = (Inr (), lg2)" "log_ok enc dec lg2"
    "disk_entries dec (log_dir lg2) = snapshot_entries s"
    using compact_ok [OF lg1(2) assms(6) room] by metis
  have ok: "store_ok (persist enc s e)"
    using assms(1) store_ok_cong [of "persist enc s e" s] by simp
  have mir: "mirrors D (persist enc s e) = mirrors D s" for D
    by (rule mirrors_cong) simp_all
  have plog: "st_plog (persist enc s e) = Some (if needs_compact lg1 then lg2 else lg1)"
    using assms(2) lg1(1) lg2(1) by (simp add: persist_def compact_plog_def snap)
  show ?thesis
    unfolding durable_def plog using ok mir lg1 lg2 assms(4) mirrors_snapshot [OF assms(1)] by simp
qed

lemma mirrors_snoc:
  assumes "mirrors D s" and "st_version s < v'" "st_version s' = v'" "json_ok (le_value e)"
    and "le_version e = v'"
    and "\<And>k. k \<noteq> le_key e \<Longrightarrow> store_get s' k = store_get s k"
    and "case store_get s' (le_key e) of Some x \<Rightarrow> e_value x = le_value e | None \<Rightarrow> le_value e = Null"
  shows "mirrors (D @ [e]) s'"
  unfolding mirrors_def
proof (intro conjI allI ballI)
  fix x assume "x \<in> set (D @ [e])"
  then show "le_version x \<le> st_version s'" "json_ok (le_value x)"
    using assms(1-5) by (auto simp: mirrors_def intro: order_trans less_imp_le)
next
  fix k
  show "sorted_wrt (<) (map le_version (filter (\<lambda>e. le_key e = k) (D @ [e])))"
    using assms(1,2,5) by (force simp: mirrors_def sorted_wrt_append intro: le_less_trans)
  show "case store_get s' k of
      None \<Rightarrow> \<forall>d. disk_last (D @ [e]) k = Some d \<longrightarrow> le_value d = Null
    | Some x \<Rightarrow> \<exists>d. disk_last (D @ [e]) k = Some d \<and> le_value d = e_value x"
  proof (cases "k = le_key e")
    case True
    with assms(7) show ?thesis
      by (simp add: disk_last_append split: option.splits)
  next
    case False
    with mirrors_at [OF assms(1), of k] assms(6) [of k] show ?thesis
      by (simp add: disk_last_append split: option.splits)
  qed
qed


lemma st_plog_apply_noop:
  "apply_delta s key v = [] \<Longrightarrow> st_plog (snd (store_apply enc s key v)) = st_plog s"
  by (simp add: store_apply_def apply_delta_def [symmetric] Let_def)

lemma apply_delta_Nil:
  assumes "store_ok s" and "json_ok v" and "apply_delta s key v = []"
  obtains e where "store_get s key = Some e" "e_value e = v"
proof (cases "store_get s key")
  case None
  with assms(3) show thesis
    by (simp add: apply_delta_def)
next
  case (Some e)
  then have "json_ok (e_value e)"
    using assms(1) by (auto simp: store_ok_def store_get_def dest!: map_of_SomeD)
  with Some assms(2,3) show thesis
    by (auto simp: apply_delta_def diff_def intro: that dest: diff_at_Nil_imp_eq)
qed

text \<open>An apply that changes nothing writes nothing, and the log still mirrors the store.\<close>

lemma mirrors_apply_noop:
  assumes "mirrors D s" and "store_get s key = Some e" and "e_value e = v" and "st_version s < st_version s + 1"
  shows "mirrors D (snd (store_apply enc s key v))"
  unfolding mirrors_def
proof (intro conjI allI ballI)
  fix k
  show "case store_get (snd (store_apply enc s key v)) k of
      None \<Rightarrow> \<forall>d. disk_last D k = Some d \<longrightarrow> le_value d = Null
    | Some x \<Rightarrow> \<exists>d. disk_last D k = Some d \<and> le_value d = e_value x"
    using mirrors_at [OF assms(1), of k] assms(2,3) by (cases "k = key") (simp_all add: store_get_apply)
qed (use assms(1,4) in \<open>auto simp: mirrors_def intro: order_trans less_imp_le\<close>)

text \<open>An apply that changes something is an append of its record, up to the compaction.\<close>

lemma durable_apply_logged:
  assumes "store_ok s" and lg: "st_plog s = Some lg" "log_ok enc dec lg" "mirrors (disk_entries dec (log_dir lg)) s"
    and m: "unat (st_version s) + 1 < 2 ^ 64" "json_ok v" "current_seg lg + 3 < 2 ^ 64"
      "stored_ok enc dec (entry_written s (Apply key v))"
      "\<forall>e \<in> set (snapshot_entries (snd (store_apply enc s key v))). stored_ok enc dec e"
    and False: "apply_delta s key v \<noteq> []"
  shows "durable enc dec (snd (store_apply enc s key v))"
proof -
  define s1 where "s1 = s\<lparr>st_version := st_version s + 1,
      st_entries := AList.update key \<lparr>e_version = st_version s + 1, e_value = v\<rparr> (st_entries s),
      st_log := dl_append (st_log s) key (st_version s + 1) (apply_delta s key v)\<rparr>"
  have s2: "snd (store_apply enc s key v) = persist enc s1 (entry_written s (Apply key v))"
    using False by (simp add: store_apply_def apply_delta_def [symmetric] Let_def s1_def entry_written_def)
  have parts: "st_entries s1 = st_entries (snd (store_apply enc s key v))"
    "st_version s1 = st_version s + 1" "st_plog s1 = Some lg"
    using lg(1) by (simp_all add: s1_def)
  have get: "store_get s1 k = store_get (snd (store_apply enc s key v)) k" for k
    by (simp add: store_get_def parts)
  show ?thesis
    unfolding s2
  proof (rule persist_durable [OF _ parts(3) lg(2) _ m(4) _ m(3)])
    show "store_ok s1"
      using store_ok_apply [OF assms(1) m(1,2), of enc key] False store_ok_cong [of s1 "snd (store_apply enc s key v)"] parts
      by (simp add: s1_def)
    show "mirrors (disk_entries dec (log_dir lg) @ [entry_written s (Apply key v)]) s1"
      by (rule mirrors_snoc [OF lg(3) version_less [OF m(1)] parts(2)])
        (use m(2) in \<open>simp_all add: entry_written_def get store_get_apply\<close>)
    show "\<forall>x \<in> set (snapshot_entries s1). stored_ok enc dec x"
      using m(5) parts(1) by (simp add: snapshot_entries_def)
  qed
qed

lemma durable_apply:
  assumes "durable enc dec s" and "disk_mutation_ok enc dec s (Apply key v)"
  shows "durable enc dec (snd (store_apply enc s key v))"
proof -
  obtain lg where lg: "st_plog s = Some lg" "log_ok enc dec lg" "mirrors (disk_entries dec (log_dir lg)) s"
    and s: "store_ok s"
    using assms(1) by (auto simp: durable_def split: option.splits)
  have m: "unat (st_version s) + 1 < 2 ^ 64" "json_ok v" "current_seg lg + 3 < 2 ^ 64"
    "stored_ok enc dec (entry_written s (Apply key v))"
    "\<forall>e \<in> set (snapshot_entries (snd (store_apply enc s key v))). stored_ok enc dec e"
    using assms(2) lg(1) by (simp_all add: disk_mutation_ok_def mutation_ok_def replicable_def mutate_def)
  show ?thesis
  proof (cases "apply_delta s key v = []")
    case True
    obtain e where e: "store_get s key = Some e" "e_value e = v"
      using apply_delta_Nil [OF s m(2) True] .
    show ?thesis
      using mirrors_apply_noop [OF lg(3) e version_less [OF m(1)], of enc] store_ok_apply [OF s m(1,2), of enc key] lg
      by (simp add: durable_def st_plog_apply_noop [OF True])
  qed (rule durable_apply_logged [OF s lg m])
qed

lemma durable_delete:
  assumes "durable enc dec s" and "disk_mutation_ok enc dec s (Delete key)"
  shows "durable enc dec (snd (store_delete enc s key))"
proof (cases "store_get s key")
  case None
  with assms(1) show ?thesis
    by (simp add: store_delete_absent)
next
  case (Some e)
  obtain lg where lg: "st_plog s = Some lg" "log_ok enc dec lg" "mirrors (disk_entries dec (log_dir lg)) s"
    and s: "store_ok s"
    using assms(1) by (auto simp: durable_def split: option.splits)
  have m: "unat (st_version s) + 1 < 2 ^ 64" "current_seg lg + 3 < 2 ^ 64"
    "stored_ok enc dec (entry_written s (Delete key))"
    "\<forall>e \<in> set (snapshot_entries (snd (store_delete enc s key))). stored_ok enc dec e"
    using assms(2) lg(1) by (simp_all add: disk_mutation_ok_def mutation_ok_def mutate_def)
  note less = version_less [OF m(1)]
  define s1 where "s1 = s\<lparr>st_entries := AList.delete key (st_entries s), st_version := st_version s + 1,
      st_log := dl_append (st_log s) key (st_version s + 1) [op_remove ''/'']\<rparr>"
  have s2: "snd (store_delete enc s key) = persist enc s1 (entry_written s (Delete key))"
    using Some by (simp add: store_delete_def Let_def s1_def entry_written_def)
  have parts: "st_version s1 = st_version s + 1" "st_plog s1 = Some lg"
    "st_entries s1 = st_entries (snd (store_delete enc s key))"
    using lg(1) by (simp_all add: s1_def store_delete_parts(2) [OF Some])
  have get: "store_get s1 k = store_get (snd (store_delete enc s key)) k" for k
    by (simp add: store_get_def parts)
  show ?thesis
    unfolding s2
  proof (rule persist_durable [OF _ parts(2) lg(2) _ m(3) _ m(2)])
    show "store_ok s1"
      using store_ok_delete [OF s m(1), of enc key] store_ok_cong [of s1 "snd (store_delete enc s key)"] parts
      by (simp add: s1_def store_delete_parts [OF Some])
    show "mirrors (disk_entries dec (log_dir lg) @ [entry_written s (Delete key)]) s1"
      by (rule mirrors_snoc [OF lg(3) less parts(1)])
        (simp_all add: entry_written_def get store_get_delete)
    show "\<forall>x \<in> set (snapshot_entries s1). stored_ok enc dec x"
      using m(4) parts(3) by (simp add: snapshot_entries_def)
  qed
qed

lemma durable_mutate: "durable enc dec s \<Longrightarrow> disk_mutation_ok enc dec s m \<Longrightarrow> durable enc dec (mutate enc s m)"
  by (cases m) (simp_all add: mutate_def durable_apply durable_delete)

interpretation durable_runs: inv_system "mutate enc" "durable enc dec" "disk_mutation_ok enc dec" for enc dec
  by unfold_locales (rule durable_mutate)


subsection \<open>A fresh store\<close>

definition fresh_store :: "decoder \<Rightarrow> state_store" where
  "fresh_store dec =
     \<lparr>st_entries = [], st_version = 0, st_log = [], st_plog = Some (log_of dec [(segment_path 0, [])])\<rparr>"

lemma store_open_empty: "store_open dec [] = Inr (fresh_store dec)"
  by (simp add: store_open_def open_empty fresh_store_def)

lemma durable_fresh: "durable enc dec (fresh_store dec)"
proof -
  note dir = single_dir [of "[]" enc dec, simplified]
  have "disk_entries dec [(segment_path 0, [])] = []"
    using dir by (simp add: disk_entries_def)
  then show ?thesis
    using dir(1) by (simp add: durable_def fresh_store_def store_ok_def log_ok_log_of mirrors_def
        disk_last_def store_get_def)
qed

text \<open>Without rotation and compaction an append leaves the old entries in place.\<close>

lemma persist_plain:
  assumes "st_plog s = Some lg" and "log_ok enc dec lg" and "stored_ok enc dec e"
    and "entry_count lg < MAX_ENTRIES_PER_SEGMENT" and "\<not> needs_compact lg"
  obtains lg1 where "st_plog (persist enc s e) = Some lg1"
    "disk_entries dec (log_dir lg1) = disk_entries dec (log_dir lg) @ [e]"
proof -
  let ?lg1 = "lg\<lparr>log_dir := append_bytes (log_dir lg) (writer lg) (entry_bytes enc e),
                 entry_count := entry_count lg + 1\<rparr>"
  have "log_append enc lg e = (Inr (), ?lg1)"
    using assms(4) write_entry_ok [OF assms(3)] by (simp add: log_append_def)
  moreover have "\<not> needs_compact ?lg1"
    using assms(5) by (simp add: needs_compact_def)
  ultimately have "st_plog (persist enc s e) = Some ?lg1"
    using assms(1) by (simp add: persist_def Let_def)
  then show thesis
    using append_here(2) [OF assms(2,3)] by (rule that)
qed

subsection \<open>A record that is not read back\<close>

text \<open>The log \<open>lg\<close> with bytes appended to its current segment.\<close>

definition log_tail :: "segmented_log \<Rightarrow> bytes \<Rightarrow> nat \<Rightarrow> segmented_log" where
  "log_tail lg bs n = lg\<lparr>log_dir := append_bytes (log_dir lg) (writer lg) bs, entry_count := entry_count lg + n\<rparr>"

lemma append_bytes_twice: "append_bytes (append_bytes d p xs) p ys = append_bytes d p (xs @ ys)"
  by (simp add: append_bytes_def update_conv' update_last split: option.split)

lemma log_append_tail:
  assumes "entry_count lg + n < MAX_ENTRIES_PER_SEGMENT"
  shows "snd (log_append enc (log_tail lg bs n) e) =
    (case write_entry enc e of None \<Rightarrow> log_tail lg bs n | Some w \<Rightarrow> log_tail lg (bs @ w) (Suc n))"
  using assms by (simp add: log_append_def log_tail_def append_bytes_twice split: option.split)

lemma persist_tail:
  assumes "st_plog s = Some (log_tail lg bs n)" and "entry_count lg + n < MAX_ENTRIES_PER_SEGMENT" and "\<not> needs_compact lg"
  shows "\<exists>w n'. n' \<le> Suc n \<and> st_plog (persist enc s e) = Some (log_tail lg (bs @ w) n')"
proof -
  have "\<not> needs_compact (log_tail lg b i)" for b i
    using assms(3) by (simp add: needs_compact_def log_tail_def)
  then have "st_plog (persist enc s e) = Some (snd (log_append enc (log_tail lg bs n) e))"
    using assms(1) log_append_tail [OF assms(2), of enc bs e] by (simp add: persist_def Let_def split: option.split)
  then show ?thesis
    unfolding log_append_tail [OF assms(2)]
    by (cases "write_entry enc e") (metis append_Nil2 le_SucI le_refl option.simps(4), auto)
qed

lemma mutate_tail:
  assumes "st_plog s = Some (log_tail lg bs n)" and "entry_count lg + n < MAX_ENTRIES_PER_SEGMENT" and "\<not> needs_compact lg"
  shows "\<exists>w n'. n' \<le> Suc n \<and> st_plog (mutate enc s m) = Some (log_tail lg (bs @ w) n')"
proof -
  have "(\<exists>s1 e. mutate enc s m = persist enc s1 e \<and> st_plog s1 = st_plog s) \<or> st_plog (mutate enc s m) = st_plog s"
    by (cases m) (auto simp: mutate_def store_apply_def store_delete_def Let_def split: option.split)
  then show ?thesis
  proof
    assume "\<exists>s1 e. mutate enc s m = persist enc s1 e \<and> st_plog s1 = st_plog s"
    then show ?thesis
      using persist_tail [OF _ assms(2,3)] assms(1) by metis
  next
    assume "st_plog (mutate enc s m) = st_plog s"
    then show ?thesis
      using assms(1) by (intro exI [of _ "[]"] exI [of _ n]) simp
  qed
qed

lemma run_tail:
  assumes "st_plog s = Some (log_tail lg bs n)" and "entry_count lg + n + length ms \<le> MAX_ENTRIES_PER_SEGMENT" and "\<not> needs_compact lg"
  shows "\<exists>w n'. st_plog (foldl (mutate enc) s ms) = Some (log_tail lg (bs @ w) n')"
  using assms(1,2)
proof (induction ms arbitrary: s bs n)
  case Nil
  then show ?case
    by (metis append_Nil2 foldl_Nil)
next
  case (Cons m ms)
  obtain w n' where step: "n' \<le> Suc n" "st_plog (mutate enc s m) = Some (log_tail lg (bs @ w) n')"
    using mutate_tail [OF Cons.prems(1) _ assms(3), of enc m] Cons.prems(2) by auto
  have "entry_count lg + n' + length ms \<le> MAX_ENTRIES_PER_SEGMENT"
    using step(1) Cons.prems(2) by simp
  from Cons.IH [OF step(2) this] show ?case
    by auto
qed

lemma mutate_logs:
  assumes "st_plog s = Some lg" and "entry_count lg < MAX_ENTRIES_PER_SEGMENT" and "\<not> needs_compact lg"
    and "case m of Apply k v \<Rightarrow> apply_delta s k v \<noteq> [] | Delete k \<Rightarrow> store_get s k \<noteq> None"
    and "enc (entry_written s m) = Some p"
  shows "st_plog (mutate enc s m) = Some (log_tail lg (entry_bytes enc (entry_written s m)) 1)"
proof -
  obtain s1 where s1: "mutate enc s m = persist enc s1 (entry_written s m)" "st_plog s1 = Some lg"
    using assms(1,4)
    by (cases m) (auto simp: mutate_def store_apply_def store_delete_def entry_written_def Let_def
        simp flip: apply_delta_def split: option.splits)
  have "\<not> needs_compact (log_tail lg (entry_bytes enc (entry_written s m)) 1)"
    using assms(3) by (simp add: needs_compact_def log_tail_def)
  then show ?thesis
    using s1(2) assms(2,5)
    by (simp add: s1(1) persist_def log_append_def log_tail_def write_entry_def entry_bytes_def Let_def)
qed

subsection \<open>The specification: a versioned map\<close>

type_synonym spec_state = "(string \<rightharpoonup> json) \<times> u64"

definition abs_store :: "state_store \<Rightarrow> spec_state" where
  "abs_store s = (\<lambda>k. map_option e_value (store_get s k), st_version s)"

definition spec_mutate :: "spec_state \<Rightarrow> mutation \<Rightarrow> spec_state" where
  "spec_mutate = (\<lambda>(m, v) op.
     case op of
       Apply key x \<Rightarrow> (m(key \<mapsto> x), v + 1)
     | Delete key \<Rightarrow> if m key = None then (m, v) else (m(key := None), v + 1))"

lemma abs_store_mutate: "abs_store (mutate enc s m) = spec_mutate (abs_store s) m"
proof (cases m)
  case (Apply key v)
  then show ?thesis
    by (auto simp: abs_store_def mutate_def spec_mutate_def store_get_apply fun_eq_iff)
next
  case (Delete key)
  then show ?thesis
    by (cases "store_get s key")
      (auto simp: abs_store_def mutate_def spec_mutate_def store_get_delete store_delete_absent
        store_delete_parts(3) fun_eq_iff)
qed

lemma abs_store_run: "abs_store (foldl (mutate enc) s ms) = foldl spec_mutate (abs_store s) ms"
  by (induction ms arbitrary: s) (simp_all add: abs_store_mutate)

subsection \<open>Loading entries of another node\<close>

definition newer :: "state_entry option \<Rightarrow> (u64 \<times> json) option \<Rightarrow> state_entry option" where
  "newer cur given =
     (case given of
        None \<Rightarrow> cur
      | Some (v, x) \<Rightarrow>
          if (case cur of Some e \<Rightarrow> e_version e < v | None \<Rightarrow> 0 < v)
          then Some \<lparr>e_version = v, e_value = x\<rparr> else cur)"

lemma map_of_load_entry:
  "map_of (load_entry es x) k = newer (map_of es k) (if k = fst x then Some (snd x) else None)"
  by (cases x) (auto simp: load_entry_def newer_def update_conv' split: option.split)

lemma map_of_load_entries:
  assumes "distinct (map fst es)"
  shows "map_of (foldl load_entry m es) k = newer (map_of m k) (map_of es k)"
  using assms
proof (induction es arbitrary: m)
  case (Cons x es)
  then have "map_of es (fst x) = None"
    by (simp add: map_of_eq_None_iff)
  with Cons show ?case
    by (cases "k = fst x") (simp_all add: map_of_load_entry newer_def split: option.split)
qed (simp add: newer_def)

lemma load_max:
  fixes m :: u64
  shows "foldl (\<lambda>m (_, version, _). max m version) m es = fold max (map (fst \<circ> snd) es) m"
  by (induction es arbitrary: m) (auto simp: max.commute)

lemma fold_max_bounds:
  fixes m :: u64
  shows "m \<le> fold max vs m" and "v \<in> set vs \<Longrightarrow> v \<le> fold max vs m"
  by (induction vs arbitrary: m) (auto intro: order_trans [OF max.cobounded2] order_trans [OF max.cobounded1])


lemma load_entries_spec:
  assumes "distinct (map fst es)"
  shows "(\<forall>k. store_get (load_entries s es) k = newer (store_get s k) (map_of es k)) \<and>
         st_version s \<le> st_version (load_entries s es) \<and>
         (\<forall>e \<in> set es. fst (snd e) \<le> st_version (load_entries s es))"
proof -
  let ?m = "fold max (map (fst \<circ> snd) es) 0"
  have v: "st_version (load_entries s es) = (if ?m > st_version s then ?m else st_version s)"
    by (simp add: load_entries_def load_max Let_def)
  have "fst (snd e) \<le> ?m" if "e \<in> set es" for e
    using that by (intro fold_max_bounds(2)) auto
  then show ?thesis
    using map_of_load_entries [OF assms] v
    by (fastforce simp: store_get_def load_entries_def Let_def)
qed

subsection \<open>Properties\<close>

text \<open>
  C12. RESUME is complete. A client saw the value of a key at version \<open>v0\<close> and no delta of that key
  is newer. After any sequence of mutations in which at most 1000 concern the key, and whose values are well-formed, have
  no slash in an object key and no empty key at the root (as has the value the client saw), replaying on the client
  the deltas the store returns for \<open>v0\<close> turns the old value into the current one (null for a key
  that does not exist).
\<close>

theorem resume_complete:
  assumes "store_ok s" and "run_ok (mutate enc) mutation_ok s ms"
    and "v0 \<le> st_version s" and "deltas_since s key v0 = []" and "replicable (value_of s key)"
    and "length (filter (\<lambda>m. mutation_key m = key) ms) \<le> MAX_DELTA_LOG_ENTRIES_PER_KEY"
  shows "replay (value_of s key) (deltas_since (foldl (mutate enc) s ms) key v0) =
           value_of (foldl (mutate enc) s ms) key"
proof -
  have "synced key v0 (value_of s key) 0 s"
    using assms by (simp add: synced_def replay_def)
  from synced_run [OF this assms(2)] assms(6) show ?thesis
    by (simp add: synced_def)
qed

definition demo_run :: "mutation list" where
  "demo_run = [Apply ''k'' (Bool True), Apply ''x'' Null, Delete ''k'', Apply ''k'' (Object [(''a'', Null)])]"

theorem resume_complete_witness:
  "replay Null (deltas_since (foldl (mutate (\<lambda>_. None)) store_new demo_run) ''k'' 0) = Object [(''a'', Null)]"
proof -
  have run: "run_ok (mutate (\<lambda>_. None)) mutation_ok store_new demo_run"
    by (rule run_ok_mutations) (simp_all add: demo_run_def store_new_def replicable_def bt_ok_def)
  have val: "value_of store_new ''k'' = Null"
    "value_of (foldl (mutate (\<lambda>_. None)) store_new demo_run) ''k'' = Object [(''a'', Null)]"
    by (simp add: value_of_def store_get_def store_new_def)
      (simp add: demo_run_def mutate_def value_of_def store_get_apply)
  show ?thesis
    using resume_complete [OF store_ok_new run, of 0 "''k''"] val
    by (simp add: deltas_since_def dl_since_def store_new_def demo_run_def mutation_key_def
        MAX_DELTA_LOG_ENTRIES_PER_KEY_def)
qed

text \<open>
  When more than 1000 deltas of a key are newer than the version a client resumes from, the store
  still returns deltas: exactly the newest 1000, without those in front of them and without any
  sign of the gap.
\<close>

theorem resume_evicted_gap:
  assumes "sorted_wrt (<) (map fst ds)" and "\<forall>d \<in> set ds. v0 < fst d"
    and "length ds > MAX_DELTA_LOG_ENTRIES_PER_KEY"
  shows "dl_since (foldl (\<lambda>l d. dl_append l key (fst d) (snd d)) [] ds) key v0 =
           drop (length ds - MAX_DELTA_LOG_ENTRIES_PER_KEY) ds \<and>
         dl_since (foldl (\<lambda>l d. dl_append l key (fst d) (snd d)) [] ds) key v0 \<noteq> []"
proof -
  have "dl_entries (foldl (\<lambda>l d. dl_append l key (fst d) (snd d)) [] xs) key = cap xs" for xs
    by (induction xs rule: rev_induct) (simp_all add: dl_entries_append cap_cap, simp add: dl_entries_def cap_def)
  then have "dl_since (foldl (\<lambda>l d. dl_append l key (fst d) (snd d)) [] ds) key v0 = cap ds"
    using assms(2) by (auto simp: dl_since_filter filter_id_conv dest: set_cap)
  then show ?thesis
    using assms(3) by (simp add: cap_def MAX_DELTA_LOG_ENTRIES_PER_KEY_def)
qed

text \<open>
  Two stores with the same values, in which no live key of the first is missing from the second: live keys have
  their value, and keys that were not live are absent or null.
\<close>

lemma restored_alt:
  assumes "\<forall>k. value_of s' k = value_of s k" and "\<forall>k. store_get s k \<noteq> None \<longrightarrow> store_get s' k \<noteq> None"
  shows "(\<forall>k e. store_get s k = Some e \<longrightarrow> (\<exists>e'. store_get s' k = Some e' \<and> e_value e' = e_value e)) \<and>
         (\<forall>k e'. store_get s k = None \<longrightarrow> store_get s' k = Some e' \<longrightarrow> e_value e' = Null)"
proof (intro conjI allI impI)
  fix k e assume k: "store_get s k = Some e"
  with assms(2) obtain e' where "store_get s' k = Some e'"
    by fastforce
  with k assms(1) [rule_format, of k] show "\<exists>e'. store_get s' k = Some e' \<and> e_value e' = e_value e"
    by (simp add: value_of_def)
next
  fix k e' assume "store_get s k = None" "store_get s' k = Some e'"
  with assms(1) [rule_format, of k] show "e_value e' = Null"
    by (simp add: value_of_def)
qed

text \<open>Recovery, for any run of mutations.\<close>

lemma reopen_after_run:
  assumes "durable enc dec s" and "run_ok (mutate enc) (disk_mutation_ok enc dec) s ms"
  shows "\<exists>lg s'. st_plog (foldl (mutate enc) s ms) = Some lg \<and> store_open dec (log_dir lg) = Inr s' \<and>
           durable enc dec s' \<and> st_version s' \<le> st_version (foldl (mutate enc) s ms) \<and>
           (\<forall>k. value_of s' k = value_of (foldl (mutate enc) s ms) k) \<and>
           (\<forall>k. store_get (foldl (mutate enc) s ms) k \<noteq> None \<longrightarrow> store_get s' k \<noteq> None)"
proof -
  let ?t = "foldl (mutate enc) s ms"
  have t: "durable enc dec ?t"
    using assms by (rule durable_runs.run_inv)
  then obtain lg where lg: "st_plog ?t = Some lg" "mirrors (disk_entries dec (log_dir lg)) ?t"
    by (auto simp: durable_def split: option.splits)
  from recover [OF t lg(1)] obtain s' where
    "store_open dec (log_dir lg) = Inr s'" "durable enc dec s'" "st_version s' \<le> st_version ?t"
    "\<And>k. store_get s' k = map_option entry_of (disk_last (disk_entries dec (log_dir lg)) k)" by metis
  with lg recover_values [OF lg(2)] show ?thesis
    by blast
qed


text \<open>A codec for the witnesses: the position of an entry in a fixed table.\<close>

definition table_enc :: "log_entry list \<Rightarrow> encoder" where
  "table_enc es e = map_option (\<lambda>i. [of_nat i]) (map_of (zip es [0..<length es]) e)"

definition table_dec :: "log_entry list \<Rightarrow> decoder" where
  "table_dec es bs =
     (case bs of [b] \<Rightarrow> if unat b < length es then Some (es ! unat b) else None | _ \<Rightarrow> None)"

definition demo_table :: "log_entry list" where
  "demo_table =
     [\<lparr>le_version = 1, le_key = ''k'', le_ops = [op_add ''/'' (Bool True)], le_value = Bool True\<rparr>,
      \<lparr>le_version = 1, le_key = ''k'', le_ops = [], le_value = Bool True\<rparr>,
      \<lparr>le_version = 2, le_key = ''k'', le_ops = [op_remove ''/''], le_value = Null\<rparr>]"

lemma demo_stored: "e \<in> set demo_table \<Longrightarrow> stored_ok (table_enc demo_table) (table_dec demo_table) e"
  by (auto simp: demo_table_def stored_ok_def table_enc_def table_dec_def upt_rec)

lemma demo_entry_written:
  "entry_written (fresh_store dec) (Apply ''k'' (Bool True)) \<in> set demo_table"
  "snapshot_entries (mutate enc (fresh_store dec) (Apply ''k'' (Bool True))) = [demo_table ! 1]"
  by (simp_all add: entry_written_def demo_table_def fresh_store_def apply_delta_def store_get_def
      mutate_def snapshot_entries_def)

lemma demo_mutation_ok:
  "disk_mutation_ok (table_enc demo_table) (table_dec demo_table) (fresh_store (table_dec demo_table))
     (Apply ''k'' (Bool True))"
  using demo_stored [OF demo_entry_written(1)] demo_stored [of "demo_table ! 1"] single_dir(2) [of "[]"]
  by (simp add: disk_mutation_ok_def demo_entry_written mutation_ok_def replicable_def)
    (simp add: fresh_store_def demo_table_def)



theorem resume_evicted_gap_witness:
  "length (dl_since (foldl (\<lambda>l d. dl_append l ''k'' (fst d) (snd d)) []
      (map (\<lambda>i. (of_nat (Suc i), [op_remove ''/''])) [0..<1001])) ''k'' 0) = 1000"
proof -
  let ?ds = "map (\<lambda>i. (of_nat (Suc i) :: u64, [op_remove ''/''])) [0..<1001]"
  have v: "unat (of_nat (Suc i) :: u64) = Suc i" if "i < 1001" for i
    using that by (simp add: unat_of_nat del: of_nat_Suc)
  have "sorted_wrt (<) (map fst ?ds)"
    unfolding map_map comp_def fst_conv sorted_wrt_map
    by (rule sorted_wrt_mono_rel [OF _ sorted_wrt_upt]) (simp add: word_less_nat_alt v del: of_nat_Suc)
  moreover have "\<forall>d \<in> set ?ds. 0 < fst d"
    using v by (auto simp: word_less_nat_alt simp del: of_nat_Suc)
  ultimately show ?thesis
    using resume_evicted_gap [of ?ds 0 "''k''"] by (simp add: MAX_DELTA_LOG_ENTRIES_PER_KEY_def)
qed

text \<open>
  With a codec that reads the record of a delete back, a deleted key returns as null: deleting a live key removes it from the
  running store, but when the log is opened again (and the delete caused no compaction) the key is there with the value null.
\<close>

theorem deleted_key_returns_as_null:
  assumes "durable enc dec s" and "st_plog s = Some lg" and "store_get s key = Some e"
    and "disk_mutation_ok enc dec s (Delete key)"
    and "entry_count lg < MAX_ENTRIES_PER_SEGMENT" and "\<not> needs_compact lg"
  shows "store_get (snd (store_delete enc s key)) key = None \<and>
         (\<exists>lg' s' e'. st_plog (snd (store_delete enc s key)) = Some lg' \<and>
            store_open dec (log_dir lg') = Inr s' \<and> store_get s' key = Some e' \<and> e_value e' = Null)"
proof -
  let ?e = "entry_written s (Delete key)"
  have s2: "\<exists>s1. snd (store_delete enc s key) = persist enc s1 ?e \<and> st_plog s1 = Some lg"
    using assms(2,3) by (auto simp: store_delete_def Let_def entry_written_def)
  have "stored_ok enc dec ?e" "log_ok enc dec lg"
    using assms(1,2,4) by (simp_all add: disk_mutation_ok_def durable_def)
  then obtain lg' where lg': "st_plog (snd (store_delete enc s key)) = Some lg'"
    "disk_entries dec (log_dir lg') = disk_entries dec (log_dir lg) @ [?e]"
    using s2 persist_plain assms(5,6) by metis
  obtain s' where "store_open dec (log_dir lg') = Inr s'"
    "\<And>k. store_get s' k = map_option entry_of (disk_last (disk_entries dec (log_dir lg')) k)"
    using recover [OF durable_delete [OF assms(1,4)] lg'(1)] by metis
  then show ?thesis
    using lg' by (simp add: store_get_delete disk_last_append entry_written_def entry_of_def)
qed


definition demo_store :: state_store where
  "demo_store = mutate (table_enc demo_table) (fresh_store (table_dec demo_table)) (Apply ''k'' (Bool True))"

lemma demo_store_durable: "durable (table_enc demo_table) (table_dec demo_table) demo_store"
  unfolding demo_store_def by (rule durable_mutate [OF durable_fresh demo_mutation_ok])

lemma demo_store_get: "store_get demo_store ''k'' = Some \<lparr>e_version = 1, e_value = Bool True\<rparr>"
  by (simp add: demo_store_def mutate_def store_get_apply fresh_store_def)

lemma demo_store_plog:
  obtains lg where "st_plog demo_store = Some lg" "entry_count lg = 1" "segment_count lg = 1" "current_seg lg = 0"
proof -
  have "write_entry (table_enc demo_table) (demo_table ! 0) = Some (entry_bytes (table_enc demo_table) (demo_table ! 0))"
    by (rule write_entry_ok [OF demo_stored]) (simp add: demo_table_def)
  then show thesis
    using that single_dir [of "[]" "table_enc demo_table" "table_dec demo_table"]
    by (simp add: demo_store_def mutate_def store_apply_def fresh_store_def store_get_def persist_def
        log_append_def MAX_ENTRIES_PER_SEGMENT_def needs_compact_def MAX_SEGMENTS_BEFORE_COMPACT_def
        Let_def demo_table_def)
qed

theorem deleted_key_returns_as_null_witness:
  "store_get (snd (store_delete (table_enc demo_table) demo_store ''k'')) ''k'' = None \<and>
   (\<exists>lg' s' e'. st_plog (snd (store_delete (table_enc demo_table) demo_store ''k'')) = Some lg' \<and>
      store_open (table_dec demo_table) (log_dir lg') = Inr s' \<and> store_get s' ''k'' = Some e' \<and> e_value e' = Null)"
proof -
  obtain lg where lg: "st_plog demo_store = Some lg" "entry_count lg = 1" "segment_count lg = 1" "current_seg lg = 0"
    using demo_store_plog .
  have v: "st_version demo_store = 1" "st_entries demo_store = [(''k'', \<lparr>e_version = 1, e_value = Bool True\<rparr>)]"
    by (simp_all add: demo_store_def mutate_def fresh_store_def)
  have "entry_written demo_store (Delete ''k'') \<in> set demo_table"
    by (simp add: entry_written_def demo_table_def v)
  moreover have "snapshot_entries (mutate (table_enc demo_table) demo_store (Delete ''k'')) = []"
    by (simp add: snapshot_entries_def mutate_def store_delete_parts(2) [OF demo_store_get] v)
  ultimately have "disk_mutation_ok (table_enc demo_table) (table_dec demo_table) demo_store (Delete ''k'')"
    using demo_stored lg by (simp add: disk_mutation_ok_def mutation_ok_def v)
  from deleted_key_returns_as_null [OF demo_store_durable lg(1) demo_store_get this] lg show ?thesis
    by (simp add: MAX_ENTRIES_PER_SEGMENT_def needs_compact_def MAX_SEGMENTS_BEFORE_COMPACT_def)
qed


text \<open>The delete of the witness has a record the decoder does not know; a write of another key follows it.\<close>

definition remove_table :: "log_entry list" where
  "remove_table = demo_table @ [\<lparr>le_version = 3, le_key = ''x'', le_ops = [op_add ''/'' Null], le_value = Null\<rparr>]"

definition remove_dec :: decoder where
  "remove_dec = table_dec (take 2 remove_table)"

lemma remove_stored: "e \<in> set (take 2 demo_table) \<Longrightarrow> stored_ok (table_enc remove_table) remove_dec e"
  by (auto simp: remove_table_def demo_table_def stored_ok_def table_enc_def table_dec_def remove_dec_def upt_rec)

definition remove_store :: state_store where
  "remove_store = mutate (table_enc remove_table) (fresh_store remove_dec) (Apply ''k'' (Bool True))"

lemma remove_store_durable: "durable (table_enc remove_table) remove_dec remove_store"
  unfolding remove_store_def
proof (rule durable_mutate [OF durable_fresh])
  have "entry_written (fresh_store remove_dec) (Apply ''k'' (Bool True)) \<in> set (take 2 demo_table)" "demo_table ! 1 \<in> set (take 2 demo_table)"
    by (simp_all add: entry_written_def demo_table_def fresh_store_def apply_delta_def store_get_def)
  from this [THEN remove_stored] show "disk_mutation_ok (table_enc remove_table) remove_dec (fresh_store remove_dec) (Apply ''k'' (Bool True))"
    using single_dir(2) [of "[]"]
    by (simp add: disk_mutation_ok_def demo_entry_written mutation_ok_def replicable_def) (simp add: fresh_store_def)
qed

lemma remove_store_parts:
  "store_get remove_store ''k'' = Some \<lparr>e_version = 1, e_value = Bool True\<rparr>" "st_version remove_store = 1"
  by (simp_all add: remove_store_def mutate_def store_get_apply fresh_store_def)

lemma remove_store_plog:
  obtains lg where "st_plog remove_store = Some lg" "entry_count lg = 1" "segment_count lg = 1"
proof -
  have "write_entry (table_enc remove_table) (demo_table ! 0) = Some (entry_bytes (table_enc remove_table) (demo_table ! 0))"
    by (rule write_entry_ok [OF remove_stored]) (simp add: demo_table_def)
  then show thesis
    using that single_dir [of "[]" "table_enc remove_table" remove_dec]
    by (simp add: remove_store_def mutate_def store_apply_def fresh_store_def store_get_def persist_def
        log_append_def MAX_ENTRIES_PER_SEGMENT_def needs_compact_def MAX_SEGMENTS_BEFORE_COMPACT_def Let_def demo_table_def)
qed


text \<open>
  C16. The store refines a versioned map: whatever the codec and the on-disk log do, any sequence of
  mutations acts on the live values and the version counter exactly as updating and deleting keys
  of a map does, one version per effective mutation, a delete of an absent key being none.
\<close>

theorem store_refines_map:
  "abs_store (foldl (mutate enc) s ms) = foldl spec_mutate (abs_store s) ms"
  by (rule abs_store_run)

text \<open>
  The store invariant. From a store in order, any sequence of mutations that does not
  exhaust the 64-bit counter leaves it in order: keys are distinct, no entry or delta is newer than the
  version counter, the deltas of each key are in strictly ascending version order, none is
  empty, and at most 1000 are kept.
\<close>

theorem store_run_invariant:
  assumes "store_ok s" and "unat (st_version s) + length ms < 2 ^ 64"
    and "list_all (\<lambda>m. case m of Apply _ v \<Rightarrow> replicable v | Delete _ \<Rightarrow> True) ms"
  shows "store_ok (foldl (mutate enc) s ms)"
  using assms(1) run_ok_mutations [OF assms(2,3)] by (rule store_runs.run_inv)

theorem store_run_invariant_witness:
  "store_ok (foldl (mutate (\<lambda>_. None)) store_new [Apply ''k'' (Bool True), Delete ''k'', Delete ''k''])"
  by (rule store_run_invariant [OF store_ok_new]) (simp_all add: store_new_def replicable_def)

text \<open>
  Loading the entries of another node: for a hash without repeated keys, each key ends with
  the given entry if its version is strictly newer than the local one (local wins ties, and
  version 0 never loads), and the version counter becomes at least every given version and never
  goes back.
\<close>

theorem load_entries_newest_wins:
  assumes "distinct (map fst es)"
  shows "(\<forall>k. store_get (load_entries s es) k = newer (store_get s k) (map_of es k)) \<and>
         st_version s \<le> st_version (load_entries s es) \<and>
         (\<forall>e \<in> set es. fst (snd e) \<le> st_version (load_entries s es))"
  using load_entries_spec [OF assms] .

theorem load_entries_newest_wins_witness:
  "(\<forall>k. store_get (load_entries store_new [(''k'', 3, Null)]) k = newer None (map_of [(''k'', 3, Null)] k)) \<and>
   3 \<le> st_version (load_entries store_new [(''k'', 3, Null)])"
  using load_entries_newest_wins [of "[(''k'', 3, Null)]" store_new] by (simp add: store_new_def store_get_def)


end
