(* ===== verification/Write_Pool.thy ===== *)
theory Write_Pool
  imports Wire_Frame
begin

section \<open>Write handles and the write pool\<close>

text \<open>
  The model of \<^verbatim>\<open>src/src/write_pool.rs\<close>. A handle is the bounded channel of one session together
  with its cancellation flag; in pool mode it also has the two atomics that decide whether it is
  scheduled. Handles are shared between the session and the subscriptions, so they live in a heap
  (\<open>write_net\<close>) under their number, next to the pool's queue of scheduled handles.

  The first half models the operations as atomic steps on the heap. The second half models the
  pool protocol at the grain of its atomic operations, as a step relation on one handle with any
  number of senders and workers, where the interleaving and the visibility of stores matter: the
  memory is that of a machine with store buffers (x86-TSO). \<^verbatim>\<open>Frame::encode\<close> and the web socket
  sink are parameters.
\<close>

subsection \<open>Messages on the web socket\<close>

datatype ws_msg =
    WsBinary bytes
  | WsPing bytes
  | WsPong bytes
  | WsClose
  | WsOther

type_synonym frame_encoder = "frame \<Rightarrow> bytes option"

definition to_ws_msg :: "frame_encoder \<Rightarrow> outbound_msg \<Rightarrow> ws_msg option" where
  "to_ws_msg fenc outbound =
     (case outbound of
        FrameMsg f \<Rightarrow> map_option WsBinary (fenc f)
      | Bytes b \<Rightarrow> Some (WsBinary b)
      | ArcDelta sid body_mp \<Rightarrow> Some (WsBinary (delta_bytes sid 0 body_mp))
      | Ping \<Rightarrow> Some (WsPing [])
      | Pong data \<Rightarrow> Some (WsPong data))"

subsection \<open>Handles\<close>

record pool_fields =
  in_pool :: bool
  pending :: nat

datatype inner = Task | Pool pool_fields

text \<open>
  \<open>h_taken\<close> are the messages the writer has taken out of the channel, in order; the receiver
  is closed when a write task has ended.
\<close>

record write_handle =
  h_cancel :: bool
  h_capacity :: nat
  h_queue :: "outbound_msg list"
  h_taken :: "outbound_msg list"
  h_closed :: bool
  h_inner :: inner

record write_net =
  net_handles :: "(nat \<times> write_handle) list"
  net_pool :: "nat list"

datatype write_mode = TaskMode | PoolMode

definition new_task :: "nat \<Rightarrow> write_handle" where
  "new_task backpressure =
     \<lparr>h_cancel = False, h_capacity = backpressure, h_queue = [], h_taken = [], h_closed = False, h_inner = Task\<rparr>"

definition new_handle :: "nat \<Rightarrow> write_handle" where
  "new_handle backpressure =
     \<lparr>h_cancel = False, h_capacity = backpressure, h_queue = [], h_taken = [], h_closed = False,
      h_inner = Pool \<lparr>in_pool = False, pending = 0\<rparr>\<rparr>"

definition make_handle :: "write_mode \<Rightarrow> nat \<Rightarrow> write_handle" where
  "make_handle mode backpressure =
     (case mode of TaskMode \<Rightarrow> new_task backpressure | PoolMode \<Rightarrow> new_handle backpressure)"

text \<open>\<^verbatim>\<open>WriteMode::from_env\<close>: the variables and the number of cores are given.\<close>

definition lower_ascii :: "char \<Rightarrow> char" where
  "lower_ascii c =
     (let n = of_char c :: nat in if 65 \<le> n \<and> n \<le> 90 then char_of (n + 32) else c)"

definition mode_from_env :: "string option \<Rightarrow> string option \<Rightarrow> nat option \<Rightarrow> write_mode \<times> nat" where
  "mode_from_env mode_var size_var cores_opt =
     (let mode = (case mode_var of Some m \<Rightarrow> m | None \<Rightarrow> [])
      in if map lower_ascii mode = ''pool''
         then (let cores = (case cores_opt of Some n \<Rightarrow> n | None \<Rightarrow> 4);
                   size = (case Option.bind size_var (parse_bounded (2 ^ 64)) of Some n \<Rightarrow> n | None \<Rightarrow> cores * 2)
               in (PoolMode, max size 2))
         else (TaskMode, 0))"

text \<open>\<^verbatim>\<open>mpsc::Sender::try_send\<close>: fails when the receiver is closed or the channel is full.\<close>

definition try_send :: "write_handle \<Rightarrow> outbound_msg \<Rightarrow> write_handle option" where
  "try_send h msg =
     (if h_closed h \<or> length (h_queue h) \<ge> h_capacity h then None
      else Some (h\<lparr>h_queue := h_queue h @ [msg]\<rparr>))"

text \<open>\<^verbatim>\<open>pool_enqueue\<close>: the compare-exchange of \<^verbatim>\<open>in_pool\<close> and the push on the pool's queue.\<close>

definition pool_enqueue :: "nat \<Rightarrow> write_handle \<Rightarrow> nat list \<Rightarrow> write_handle \<times> nat list" where
  "pool_enqueue hid h pool =
     (case h_inner h of
        Task \<Rightarrow> (h, pool)
      | Pool p \<Rightarrow>
          if in_pool p then (h, pool)
          else (h\<lparr>h_inner := Pool (p\<lparr>in_pool := True\<rparr>)\<rparr>, pool @ [hid]))"

definition send_handle :: "nat \<Rightarrow> write_handle \<Rightarrow> nat list \<Rightarrow> outbound_msg \<Rightarrow> bool \<times> write_handle \<times> nat list" where
  "send_handle hid h pool msg =
     (case h_inner h of
        Task \<Rightarrow>
          (case try_send h msg of
             Some h' \<Rightarrow> (True, h', pool)
           | None \<Rightarrow> (False, h\<lparr>h_cancel := True\<rparr>, pool))
      | Pool p \<Rightarrow>
          (let h1 = h\<lparr>h_inner := Pool (p\<lparr>pending := pending p + 1\<rparr>)\<rparr> in
           case try_send h1 msg of
             None \<Rightarrow> (False, h1\<lparr>h_inner := Pool (p\<lparr>pending := pending p + 1 - 1\<rparr>), h_cancel := True\<rparr>, pool)
           | Some h2 \<Rightarrow> (let (h3, pool') = pool_enqueue hid h2 pool in (True, h3, pool'))))"

definition net_send :: "nat \<Rightarrow> outbound_msg \<Rightarrow> write_net \<Rightarrow> bool \<times> write_net" where
  "net_send hid msg net =
     (case map_of (net_handles net) hid of
        None \<Rightarrow> (False, net)
      | Some h \<Rightarrow>
          (let (ok, h', pool') = send_handle hid h (net_pool net) msg
           in (ok, net\<lparr>net_handles := AList.update hid h' (net_handles net), net_pool := pool'\<rparr>)))"

subsection \<open>The writer\<close>

text \<open>
  The web socket sink as a parameter: \<open>feed out m\<close> tells whether feeding \<open>m\<close> after \<open>out\<close>
  succeeds, \<open>flush out\<close> whether flushing does.
\<close>

type_synonym sink = "ws_msg list"

text \<open>The inner drain loop, also that of \<^verbatim>\<open>pool_drain\<close>; the number of messages received is counted.\<close>

fun drain :: "frame_encoder \<Rightarrow> (sink \<Rightarrow> ws_msg \<Rightarrow> bool) \<Rightarrow> sink \<Rightarrow> outbound_msg list
    \<Rightarrow> sink \<times> outbound_msg list \<times> nat" where
  "drain fenc feed out [] = (out, [], 0)"
| "drain fenc feed out (m # q) =
     (case to_ws_msg fenc m of
        None \<Rightarrow> (let (out', q', n) = drain fenc feed out q in (out', q', n + 1))
      | Some wm \<Rightarrow>
          if feed out wm
          then (let (out', q', n) = drain fenc feed (out @ [wm]) q in (out', q', n + 1))
          else (out, q, 1))"

datatype task_outcome = Continue | Stop

text \<open>
  One round of \<^verbatim>\<open>write_task\<close>: receive, drain, flush. \<open>cancelled\<close> says that \<^verbatim>\<open>select!\<close> took the
  cancellation; without it and with an empty channel the task waits, until the channel is empty
  because all senders are gone, which is the round with an empty \<open>q\<close>. A failing feed inside
  the drain loop leaves only that loop.
\<close>

definition write_task_round :: "frame_encoder \<Rightarrow> (sink \<Rightarrow> ws_msg \<Rightarrow> bool) \<Rightarrow> (sink \<Rightarrow> bool)
    \<Rightarrow> sink \<Rightarrow> outbound_msg list \<Rightarrow> bool \<Rightarrow> task_outcome \<times> sink \<times> outbound_msg list" where
  "write_task_round fenc feed flush out q cancelled =
     (if cancelled then (Stop, out, q)
      else (case q of
         [] \<Rightarrow> (Stop, out, q)
       | msg # q1 \<Rightarrow>
           (case to_ws_msg fenc msg of
              Some wm \<Rightarrow>
                if \<not> feed out wm then (Stop, out, q1)
                else (let (out', q', _) = drain fenc feed (out @ [wm]) q1
                      in (if flush out' then Continue else Stop, out', q'))
            | None \<Rightarrow>
                (let (out', q', _) = drain fenc feed out q1
                 in (if flush out' then Continue else Stop, out', q')))))"

definition pool_drain :: "frame_encoder \<Rightarrow> (sink \<Rightarrow> ws_msg \<Rightarrow> bool) \<Rightarrow> sink \<Rightarrow> nat \<Rightarrow> write_handle \<Rightarrow> nat list
    \<Rightarrow> sink \<times> write_handle \<times> nat list" where
  "pool_drain fenc feed out hid h pool =
     (case h_inner h of
        Task \<Rightarrow> (out, h, pool)
      | Pool p \<Rightarrow>
          (let (out', q', n) = drain fenc feed out (h_queue h);
               p' = p\<lparr>pending := pending p - n, in_pool := False\<rparr>;
               h' = h\<lparr>h_queue := q', h_taken := h_taken h @ take n (h_queue h), h_inner := Pool p'\<rparr>
           in if pending p' > 0
              then (let (h'', pool') = pool_enqueue hid h' pool in (out', h'', pool'))
              else (out', h', pool)))"

subsection \<open>The pool protocol\<close>

text \<open>
  One pool-mode handle. The fields \<open>pr_incremented\<close> to \<open>pr_left\<close> count the threads that stand
  between two atomic operations: senders after \<^verbatim>\<open>fetch_add\<close>, after a successful and after a
  failed \<^verbatim>\<open>try_send\<close>; workers inside the drain loop, between \<^verbatim>\<open>try_recv\<close> and \<^verbatim>\<open>fetch_sub\<close>, before the
  store of \<^verbatim>\<open>in_pool\<close>, before the load of \<^verbatim>\<open>pending\<close>, and before the compare-exchange that
  re-schedules. \<open>pr_runq\<close> counts the handle in the pool's queue; \<open>pr_accepted\<close> and \<open>pr_taken\<close> record
  the messages that entered and left the channel.

  The Release store of \<^verbatim>\<open>in_pool\<close> first goes into the store buffer of the worker's core, and the Acquire load of
  \<^verbatim>\<open>pending\<close> that follows may be served before the buffer is flushed: \<open>pr_early_load\<close>, \<open>pr_early_retry\<close>
  and \<open>pr_left\<close> are the workers whose store is still buffered when they are about to load, after a load that found messages,
  and after a load that found none. Read-modify-write operations work on memory and wait until the buffer of their own
  core is empty. \<open>pr_raced\<close> only records that some worker found \<^verbatim>\<open>pending\<close> zero while its store was buffered.
\<close>

record proto =
  pr_cap :: nat
  pr_queue :: "outbound_msg list"
  pr_accepted :: "outbound_msg list"
  pr_taken :: "outbound_msg list"
  pr_cancel :: bool
  pr_pending :: nat
  pr_in_pool :: bool
  pr_runq :: nat
  pr_incremented :: nat
  pr_sent :: nat
  pr_failed :: nat
  pr_draining :: nat
  pr_received :: nat
  pr_storing :: nat
  pr_early_load :: nat
  pr_early_retry :: nat
  pr_left :: nat
  pr_loading :: nat
  pr_retrying :: nat
  pr_raced :: bool

definition proto_init :: "nat \<Rightarrow> proto" where
  "proto_init cap =
     \<lparr>pr_cap = cap, pr_queue = [], pr_accepted = [], pr_taken = [], pr_cancel = False, pr_pending = 0,
      pr_in_pool = False, pr_runq = 0, pr_incremented = 0, pr_sent = 0, pr_failed = 0, pr_draining = 0,
      pr_received = 0, pr_storing = 0, pr_early_load = 0, pr_early_retry = 0, pr_left = 0, pr_loading = 0,
      pr_retrying = 0, pr_raced = False\<rparr>"

inductive pool_step :: "proto \<Rightarrow> proto \<Rightarrow> bool" where
  fetch_add: "pool_step s (s\<lparr>pr_pending := pr_pending s + 1, pr_incremented := pr_incremented s + 1\<rparr>)"
| send_ok: "pr_incremented s > 0 \<Longrightarrow> length (pr_queue s) < pr_cap s \<Longrightarrow>
    pool_step s (s\<lparr>pr_queue := pr_queue s @ [m], pr_accepted := pr_accepted s @ [m],
                  pr_incremented := pr_incremented s - 1, pr_sent := pr_sent s + 1\<rparr>)"
| send_full: "pr_incremented s > 0 \<Longrightarrow> length (pr_queue s) \<ge> pr_cap s \<Longrightarrow>
    pool_step s (s\<lparr>pr_incremented := pr_incremented s - 1, pr_failed := pr_failed s + 1\<rparr>)"
| fetch_sub: "pr_failed s > 0 \<Longrightarrow>
    pool_step s (s\<lparr>pr_failed := pr_failed s - 1, pr_pending := pr_pending s - 1, pr_cancel := True\<rparr>)"
| cas_push: "pr_sent s > 0 \<Longrightarrow> \<not> pr_in_pool s \<Longrightarrow>
    pool_step s (s\<lparr>pr_sent := pr_sent s - 1, pr_in_pool := True, pr_runq := pr_runq s + 1\<rparr>)"
| cas_fail: "pr_sent s > 0 \<Longrightarrow> pr_in_pool s \<Longrightarrow> pool_step s (s\<lparr>pr_sent := pr_sent s - 1\<rparr>)"
| worker_recv: "pr_runq s > 0 \<Longrightarrow>
    pool_step s (s\<lparr>pr_runq := pr_runq s - 1, pr_draining := pr_draining s + 1\<rparr>)"
| try_recv_ok: "pr_draining s > 0 \<Longrightarrow> pr_queue s = m # q \<Longrightarrow>
    pool_step s (s\<lparr>pr_queue := q, pr_taken := pr_taken s @ [m], pr_draining := pr_draining s - 1,
                  pr_received := pr_received s + 1\<rparr>)"
| fed_ok: "pr_received s > 0 \<Longrightarrow>
    pool_step s (s\<lparr>pr_received := pr_received s - 1, pr_pending := pr_pending s - 1,
                  pr_draining := pr_draining s + 1\<rparr>)"
| fed_err: "pr_received s > 0 \<Longrightarrow>
    pool_step s (s\<lparr>pr_received := pr_received s - 1, pr_pending := pr_pending s - 1,
                  pr_storing := pr_storing s + 1\<rparr>)"
| try_recv_empty: "pr_draining s > 0 \<Longrightarrow> pr_queue s = [] \<Longrightarrow>
    pool_step s (s\<lparr>pr_draining := pr_draining s - 1, pr_storing := pr_storing s + 1\<rparr>)"
| store_false: "pr_storing s > 0 \<Longrightarrow>
    pool_step s (s\<lparr>pr_storing := pr_storing s - 1, pr_early_load := pr_early_load s + 1\<rparr>)"
| flush_load: "pr_early_load s > 0 \<Longrightarrow>
    pool_step s (s\<lparr>pr_early_load := pr_early_load s - 1, pr_in_pool := False, pr_loading := pr_loading s + 1\<rparr>)"
| early_zero: "pr_early_load s > 0 \<Longrightarrow> pr_pending s = 0 \<Longrightarrow>
    pool_step s (s\<lparr>pr_early_load := pr_early_load s - 1, pr_left := pr_left s + 1, pr_raced := True\<rparr>)"
| early_pos: "pr_early_load s > 0 \<Longrightarrow> pr_pending s > 0 \<Longrightarrow>
    pool_step s (s\<lparr>pr_early_load := pr_early_load s - 1, pr_early_retry := pr_early_retry s + 1\<rparr>)"
| flush_retry: "pr_early_retry s > 0 \<Longrightarrow>
    pool_step s (s\<lparr>pr_early_retry := pr_early_retry s - 1, pr_in_pool := False, pr_retrying := pr_retrying s + 1\<rparr>)"
| flush_left: "pr_left s > 0 \<Longrightarrow> pool_step s (s\<lparr>pr_left := pr_left s - 1, pr_in_pool := False\<rparr>)"
| load_zero: "pr_loading s > 0 \<Longrightarrow> pr_pending s = 0 \<Longrightarrow> pool_step s (s\<lparr>pr_loading := pr_loading s - 1\<rparr>)"
| load_pos: "pr_loading s > 0 \<Longrightarrow> pr_pending s > 0 \<Longrightarrow>
    pool_step s (s\<lparr>pr_loading := pr_loading s - 1, pr_retrying := pr_retrying s + 1\<rparr>)"
| retry_push: "pr_retrying s > 0 \<Longrightarrow> \<not> pr_in_pool s \<Longrightarrow>
    pool_step s (s\<lparr>pr_retrying := pr_retrying s - 1, pr_in_pool := True, pr_runq := pr_runq s + 1\<rparr>)"
| retry_fail: "pr_retrying s > 0 \<Longrightarrow> pr_in_pool s \<Longrightarrow> pool_step s (s\<lparr>pr_retrying := pr_retrying s - 1\<rparr>)"

inductive_cases pool_stepE: "pool_step s s'"

text \<open>The tokens that stand for being scheduled or worked on, until the worker's store is visible.\<close>

definition tokens :: "proto \<Rightarrow> nat" where
  "tokens s = pr_runq s + pr_draining s + pr_received s + pr_storing s + pr_early_load s + pr_early_retry s + pr_left s"

definition awake :: "proto \<Rightarrow> bool" where
  "awake s \<longleftrightarrow> pr_queue s = [] \<or> pr_in_pool s \<or> pr_sent s > 0 \<or> pr_loading s > 0 \<or> pr_retrying s > 0"

definition proto_ok :: "proto \<Rightarrow> bool" where
  "proto_ok s \<longleftrightarrow>
     tokens s = (if pr_in_pool s then 1 else 0) \<and>
     pr_pending s = length (pr_queue s) + pr_incremented s + pr_failed s + pr_received s \<and>
     (\<not> pr_raced s \<longrightarrow> pr_left s = 0 \<and> awake s) \<and>
     pr_accepted s = pr_taken s @ pr_queue s \<and> length (pr_queue s) \<le> pr_cap s"

lemma proto_ok_init: "proto_ok (proto_init cap)"
  by (simp add: proto_ok_def proto_init_def tokens_def awake_def)

lemma tokens_step:
  "pool_step s s' \<Longrightarrow> tokens s = (if pr_in_pool s then 1 else 0) \<Longrightarrow>
     tokens s' = (if pr_in_pool s' then 1 else 0)"
  by (induction rule: pool_step.induct) (simp_all add: tokens_def split: if_splits)

lemma pending_step:
  "pool_step s s' \<Longrightarrow>
     pr_pending s = length (pr_queue s) + pr_incremented s + pr_failed s + pr_received s \<Longrightarrow>
     pr_pending s' = length (pr_queue s') + pr_incremented s' + pr_failed s' + pr_received s'"
  by (induction rule: pool_step.induct) simp_all

lemma wakeup_step:
  "pool_step s s' \<Longrightarrow>
     pr_pending s = length (pr_queue s) + pr_incremented s + pr_failed s + pr_received s \<Longrightarrow>
     \<not> pr_raced s \<longrightarrow> pr_left s = 0 \<and> awake s \<Longrightarrow>
     tokens s = (if pr_in_pool s then 1 else 0) \<Longrightarrow>
     \<not> pr_raced s' \<longrightarrow> pr_left s' = 0 \<and> awake s'"
  by (induction rule: pool_step.induct) (simp_all add: tokens_def awake_def split: if_splits)

lemma channel_step:
  "pool_step s s' \<Longrightarrow> pr_accepted s = pr_taken s @ pr_queue s \<and> length (pr_queue s) \<le> pr_cap s \<Longrightarrow>
     pr_accepted s' = pr_taken s' @ pr_queue s' \<and> length (pr_queue s') \<le> pr_cap s'"
  by (induction rule: pool_step.induct) simp_all

lemma proto_ok_step: "proto_ok s \<Longrightarrow> pool_step s s' \<Longrightarrow> proto_ok s'"
  using tokens_step [of s s'] pending_step [of s s'] wakeup_step [of s s'] channel_step [of s s']
  by (simp add: proto_ok_def)

interpretation pool_protocol: inv_relation pool_step proto_ok
  by unfold_locales (rule proto_ok_step)

subsection \<open>What sending does\<close>

definition accepts :: "write_handle \<Rightarrow> bool" where
  "accepts h \<longleftrightarrow> \<not> h_closed h \<and> length (h_queue h) < h_capacity h"

text \<open>All messages that ever entered the channel, in order.\<close>

definition messages :: "write_handle \<Rightarrow> outbound_msg list" where
  "messages h = h_taken h @ h_queue h"

lemma send_handle_parts:
  assumes "send_handle hid h pool msg = (ok, h', pool')"
  shows "ok = accepts h" and "h_queue h' = (if ok then h_queue h @ [msg] else h_queue h)"
    and "h_taken h' = h_taken h" and "h_cancel h' = (h_cancel h \<or> \<not> ok)"
    and "h_capacity h' = h_capacity h" and "h_closed h' = h_closed h"
  using assms
  by (auto simp: send_handle_def try_send_def accepts_def pool_enqueue_def Let_def
      split: inner.splits if_splits)

lemma send_handle_pool:
  assumes "send_handle hid h pool msg = (True, h', pool')" and "h_inner h = Pool p"
  shows "h_inner h' = Pool \<lparr>in_pool = True, pending = pending p + 1\<rparr>"
    and "pool' = (if in_pool p then pool else pool @ [hid])"
  using assms by (auto simp: send_handle_def try_send_def pool_enqueue_def Let_def split: if_splits)

lemma net_send_same:
  assumes "map_of (net_handles net) hid = Some h"
  obtains h' where "map_of (net_handles (snd (net_send hid msg net))) hid = Some h'"
    "fst (net_send hid msg net) = accepts h" "h_cancel h' = (h_cancel h \<or> \<not> accepts h)"
    "messages h' = (if accepts h then messages h @ [msg] else messages h)"
proof -
  obtain ok h' pool' where s: "send_handle hid h (net_pool net) msg = (ok, h', pool')"
    using prod_cases3 by blast
  show thesis
    by (rule that [of h']) (use assms s send_handle_parts [OF s] in \<open>simp_all add: net_send_def messages_def update_conv'\<close>)
qed

lemma net_send_other:
  "hid' \<noteq> hid \<Longrightarrow> map_of (net_handles (snd (net_send hid msg net))) hid' = map_of (net_handles net) hid'"
  by (simp add: net_send_def update_conv' split_def Let_def split: option.split)

lemma net_send_missing: "map_of (net_handles net) hid = None \<Longrightarrow> net_send hid msg net = (False, net)"
  by (simp add: net_send_def)

lemma drain_all_fed:
  assumes "\<And>out m. feed out m"
  shows "drain fenc feed out q = (out @ List.map_filter (to_ws_msg fenc) q, [], length q)"
proof (induction q arbitrary: out)
  case (Cons m q)
  then show ?case
    using assms by (cases "to_ws_msg fenc m") (simp_all add: map_filter_def)
qed (simp add: map_filter_def)

subsection \<open>The schedule that loses a wake-up\<close>

text \<open>The handle after a first message was drained and taken.\<close>

definition drained :: "nat \<Rightarrow> outbound_msg \<Rightarrow> proto" where
  "drained cap m = (proto_init cap)\<lparr>pr_accepted := [m], pr_taken := [m], pr_in_pool := True\<rparr>"

definition lost_wakeup :: "nat \<Rightarrow> outbound_msg \<Rightarrow> proto" where
  "lost_wakeup cap m =
     (proto_init cap)\<lparr>pr_accepted := [m, m], pr_taken := [m], pr_queue := [m], pr_pending := 1, pr_raced := True\<rparr>"

lemma drained_reached:
  assumes "0 < cap"
  shows "pool_step\<^sup>*\<^sup>* (proto_init cap) ((drained cap m)\<lparr>pr_left := 1, pr_raced := True\<rparr>)"
proof -
  let ?i = "proto_init cap"
  let ?sent = "?i\<lparr>pr_queue := [m], pr_accepted := [m], pr_pending := 1\<rparr>"
  let ?got = "drained cap m"
  have "pool_step ?i (?i\<lparr>pr_pending := 1, pr_incremented := 1\<rparr>)"
    using fetch_add [of ?i] by (simp add: proto_init_def)
  moreover have "pool_step (?i\<lparr>pr_pending := 1, pr_incremented := 1\<rparr>) (?sent\<lparr>pr_sent := 1\<rparr>)"
    using send_ok [of "?i\<lparr>pr_pending := 1, pr_incremented := 1\<rparr>" m] assms by (simp add: proto_init_def)
  moreover have "pool_step (?sent\<lparr>pr_sent := 1\<rparr>) (?sent\<lparr>pr_in_pool := True, pr_runq := 1\<rparr>)"
    using cas_push [of "?sent\<lparr>pr_sent := 1\<rparr>"] by (simp add: proto_init_def)
  moreover have "pool_step (?sent\<lparr>pr_in_pool := True, pr_runq := 1\<rparr>) (?sent\<lparr>pr_in_pool := True, pr_draining := 1\<rparr>)"
    using worker_recv [of "?sent\<lparr>pr_in_pool := True, pr_runq := 1\<rparr>"] by (simp add: proto_init_def)
  moreover have "pool_step (?sent\<lparr>pr_in_pool := True, pr_draining := 1\<rparr>) (?got\<lparr>pr_pending := 1, pr_received := 1\<rparr>)"
    using try_recv_ok [of "?sent\<lparr>pr_in_pool := True, pr_draining := 1\<rparr>" m "[]"] by (simp add: proto_init_def drained_def)
  moreover have "pool_step (?got\<lparr>pr_pending := 1, pr_received := 1\<rparr>) (?got\<lparr>pr_draining := 1\<rparr>)"
    using fed_ok [of "?got\<lparr>pr_pending := 1, pr_received := 1\<rparr>"] by (simp add: proto_init_def drained_def)
  moreover have "pool_step (?got\<lparr>pr_draining := 1\<rparr>) (?got\<lparr>pr_storing := 1\<rparr>)"
    using try_recv_empty [of "?got\<lparr>pr_draining := 1\<rparr>"] by (simp add: proto_init_def drained_def)
  moreover have "pool_step (?got\<lparr>pr_storing := 1\<rparr>) (?got\<lparr>pr_early_load := 1\<rparr>)"
    using store_false [of "?got\<lparr>pr_storing := 1\<rparr>"] by (simp add: proto_init_def drained_def)
  moreover have "pool_step (?got\<lparr>pr_early_load := 1\<rparr>) (?got\<lparr>pr_left := 1, pr_raced := True\<rparr>)"
    using early_zero [of "?got\<lparr>pr_early_load := 1\<rparr>"] by (simp add: proto_init_def drained_def)
  ultimately show ?thesis
    by (meson converse_rtranclp_into_rtranclp rtranclp.rtrancl_refl)
qed

lemma lost_wakeup_reached:
  assumes "0 < cap"
  shows "pool_step\<^sup>*\<^sup>* (proto_init cap) (lost_wakeup cap m)"
proof -
  let ?got = "(drained cap m)\<lparr>pr_left := 1, pr_raced := True\<rparr>"
  let ?lost = "(lost_wakeup cap m)\<lparr>pr_in_pool := True, pr_left := 1\<rparr>"
  have "pool_step ?got (?got\<lparr>pr_pending := 1, pr_incremented := 1\<rparr>)"
    using fetch_add [of ?got] by (simp add: proto_init_def drained_def)
  moreover have "pool_step (?got\<lparr>pr_pending := 1, pr_incremented := 1\<rparr>) (?lost\<lparr>pr_sent := 1\<rparr>)"
    using send_ok [of "?got\<lparr>pr_pending := 1, pr_incremented := 1\<rparr>" m] assms
    by (simp add: proto_init_def drained_def lost_wakeup_def)
  moreover have "pool_step (?lost\<lparr>pr_sent := 1\<rparr>) ?lost"
    using cas_fail [of "?lost\<lparr>pr_sent := 1\<rparr>"] by (simp add: proto_init_def lost_wakeup_def)
  moreover have "pool_step ?lost (lost_wakeup cap m)"
    using flush_left [of ?lost] by (simp add: proto_init_def lost_wakeup_def)
  ultimately have "pool_step\<^sup>*\<^sup>* ?got (lost_wakeup cap m)"
    by (meson converse_rtranclp_into_rtranclp rtranclp.rtrancl_refl)
  with drained_reached [OF assms] show ?thesis
    by (rule rtranclp_trans)
qed

subsection \<open>Properties\<close>

text \<open>
  C25. The pool protocol on a machine with store buffers. In every state reachable from a new handle, under any
  interleaving of senders and workers: at most one worker holds the handle or finds it queued;
  the channel never exceeds its capacity; messages leave it in the order they entered. And as long as no worker has found
  \<^verbatim>\<open>pending\<close> zero while its own store of \<^verbatim>\<open>in_pool\<close> was still buffered, no wake-up is lost: when no
  thread is between two of its atomic operations, a channel with messages is scheduled exactly once.
\<close>

theorem pool_no_lost_wakeup:
  assumes "pool_step\<^sup>*\<^sup>* (proto_init cap) s"
  shows "tokens s \<le> 1 \<and> length (pr_queue s) \<le> pr_cap s \<and> pr_accepted s = pr_taken s @ pr_queue s \<and>
         (\<not> pr_raced s \<and> pr_sent s = 0 \<and> pr_loading s = 0 \<and> pr_retrying s = 0 \<and> pr_queue s \<noteq> [] \<longrightarrow>
            pr_in_pool s \<and> tokens s = 1)"
  using pool_protocol.reach_inv [OF assms proto_ok_init] by (auto simp: proto_ok_def awake_def)

text \<open>
  C26. The pool can lose a wake-up. Nothing in the code keeps the load of \<^verbatim>\<open>pending\<close> behind the store of \<^verbatim>\<open>in_pool\<close>: a
  worker that has drained the channel finds no message while its store is still buffered, a sender then enters a message and
  sees the handle as scheduled, and the store becomes visible last. The message is in the channel, the handle is not
  scheduled, no thread is inside the protocol, and nothing happens until somebody sends again.
\<close>

theorem pool_loses_wakeup:
  assumes "0 < cap"
  shows "\<exists>s. pool_step\<^sup>*\<^sup>* (proto_init cap) s \<and> pr_queue s = [m] \<and> \<not> pr_in_pool s \<and> tokens s = 0 \<and>
           pr_incremented s + pr_sent s + pr_failed s + pr_loading s + pr_retrying s = 0 \<and>
           (\<forall>s'. pool_step s s' \<longrightarrow> pr_incremented s' = 1)"
proof -
  let ?lost = "lost_wakeup cap m"
  have "pr_queue ?lost = [m]" "\<not> pr_in_pool ?lost" "tokens ?lost = 0"
    "pr_incremented ?lost + pr_sent ?lost + pr_failed ?lost + pr_loading ?lost + pr_retrying ?lost = 0"
    by (simp_all add: lost_wakeup_def proto_init_def tokens_def)
  moreover have "pr_incremented s' = 1" if "pool_step ?lost s'" for s'
    using that by (cases rule: pool_step.cases) (simp_all add: lost_wakeup_def proto_init_def)
  ultimately show ?thesis
    using lost_wakeup_reached [OF assms] by blast
qed

theorem pool_loses_wakeup_witness:
  "\<exists>s. pool_step\<^sup>*\<^sup>* (proto_init 1) s \<and> pr_queue s = [Ping] \<and> \<not> pr_in_pool s \<and> tokens s = 0"
  using pool_loses_wakeup [of 1 Ping] by auto

lemma demo_schedule:
  "pool_step\<^sup>*\<^sup>* (proto_init 1)
     ((proto_init 1)\<lparr>pr_queue := [Ping], pr_accepted := [Ping], pr_pending := 1, pr_in_pool := True, pr_runq := 1\<rparr>)"
proof -
  let ?s0 = "proto_init 1"
  let ?s1 = "?s0\<lparr>pr_pending := pr_pending ?s0 + 1, pr_incremented := pr_incremented ?s0 + 1\<rparr>"
  let ?s2 = "?s1\<lparr>pr_queue := pr_queue ?s1 @ [Ping], pr_accepted := pr_accepted ?s1 @ [Ping],
                  pr_incremented := pr_incremented ?s1 - 1, pr_sent := pr_sent ?s1 + 1\<rparr>"
  let ?s3 = "?s2\<lparr>pr_sent := pr_sent ?s2 - 1, pr_in_pool := True, pr_runq := pr_runq ?s2 + 1\<rparr>"
  have 1: "pool_step ?s0 ?s1"
    by (rule fetch_add)
  have 2: "pool_step ?s1 ?s2"
    by (rule send_ok) (simp_all add: proto_init_def)
  have 3: "pool_step ?s2 ?s3"
    by (rule cas_push) (simp_all add: proto_init_def)
  have "pool_step\<^sup>*\<^sup>* ?s0 ?s3"
    by (rule converse_rtranclp_into_rtranclp [of pool_step, OF 1 converse_rtranclp_into_rtranclp [of pool_step, OF 2
          converse_rtranclp_into_rtranclp [of pool_step, OF 3 rtranclp.rtrancl_refl]]])
  then show ?thesis
    by (simp add: proto_init_def)
qed

theorem pool_no_lost_wakeup_witness:
  "tokens ((proto_init 1)\<lparr>pr_queue := [Ping], pr_accepted := [Ping], pr_pending := 1, pr_in_pool := True, pr_runq := 1\<rparr>) = 1"
  using pool_no_lost_wakeup [OF demo_schedule] by (simp add: proto_init_def)

text \<open>
  Backpressure. Sending succeeds exactly when the receiver is alive and the channel has
  room, and then appends the message; otherwise the message is dropped, the channel is left as it
  is and the session is cancelled. Both modes agree on this.
\<close>

theorem send_backpressure:
  "case send_handle hid h pool msg of (ok, h', pool') \<Rightarrow>
     ok = accepts h \<and> messages h' = (if ok then messages h @ [msg] else messages h) \<and>
     h_cancel h' = (if ok then h_cancel h else True)"
proof -
  obtain ok h' pool' where s: "send_handle hid h pool msg = (ok, h', pool')"
    using prod_cases3 by blast
  with send_handle_parts [OF s] show ?thesis
    by (auto simp: messages_def)
qed

text \<open>
  One round of the write task empties the channel onto a working socket, in order, leaving out only
  frames that do not encode, and goes on.
\<close>

theorem write_task_round_delivers:
  assumes "\<And>out m. feed out m" and "\<And>out. flush out" and "q \<noteq> []"
  shows "write_task_round fenc feed flush out q False =
           (Continue, out @ List.map_filter (to_ws_msg fenc) q, [])"
  using assms drain_all_fed [of feed fenc, OF assms(1)]
  by (cases q) (simp_all add: write_task_round_def map_filter_def split: option.split)

theorem write_task_round_delivers_witness:
  "write_task_round (\<lambda>_. None) (\<lambda>_ _. True) (\<lambda>_. True) [] [Ping, Pong []] False =
     (Continue, [WsPing [], WsPong []], [])"
  using write_task_round_delivers [of "\<lambda>_ _. True" "\<lambda>_. True" "[Ping, Pong []]" "\<lambda>_. None" "[]"]
  by (simp add: map_filter_def to_ws_msg_def)


end
