(* ===== verification/Fanout_Bus.thy ===== *)
theory Fanout_Bus
  imports Delta_Diff Write_Pool
begin

section \<open>Fanout of deltas to subscribers\<close>

text \<open>
  The model of \<^verbatim>\<open>src/src/fanout.rs\<close>: the registry of subscriptions per state key and the
  broadcast of an encoded delta body. A subscription refers to the write handle of its session by
  number (\<^verbatim>\<open>Arc<WriteHandle>\<close>); sending goes through \<^const>\<open>net_send\<close>. The MessagePack encoder of the
  body (\<^verbatim>\<open>rmp_serde::to_vec_named\<close>) is the parameter \<open>denc\<close>. What broadcasting relies on of the
  handles is the interface \<open>message_sink\<close>.
\<close>

record subscriber =
  sub_session :: string
  sub_stream :: u32
  sub_write :: nat

type_synonym fanout_bus = "(string \<times> subscriber list) list"
type_synonym delta_encoder = "u64 \<Rightarrow> delta_op list \<Rightarrow> bytes option"

definition DEFAULT_BACKPRESSURE_LIMIT :: nat where
  "DEFAULT_BACKPRESSURE_LIMIT = 1024"

definition encode_delta_body :: "delta_encoder \<Rightarrow> u64 \<Rightarrow> delta_op list \<Rightarrow> bytes" where
  "encode_delta_body denc version ops = (case denc version ops of Some b \<Rightarrow> b | None \<Rightarrow> [])"

definition bus_new :: fanout_bus where
  "bus_new = []"

definition subscribers :: "fanout_bus \<Rightarrow> string \<Rightarrow> subscriber list" where
  "subscribers bus key = (case map_of bus key of None \<Rightarrow> [] | Some subs \<Rightarrow> subs)"

definition subscribe :: "string \<Rightarrow> subscriber \<Rightarrow> fanout_bus \<Rightarrow> fanout_bus" where
  "subscribe key sub bus = AList.update key (subscribers bus key @ [sub]) bus"

definition unsubscribe :: "string \<Rightarrow> string \<Rightarrow> fanout_bus \<Rightarrow> fanout_bus" where
  "unsubscribe key sid bus =
     (case map_of bus key of
        None \<Rightarrow> bus
      | Some subs \<Rightarrow> AList.update key (filter (\<lambda>s. sub_session s \<noteq> sid) subs) bus)"

definition remove_session :: "string \<Rightarrow> fanout_bus \<Rightarrow> fanout_bus" where
  "remove_session sid bus = map (\<lambda>(k, subs). (k, filter (\<lambda>s. sub_session s \<noteq> sid) subs)) bus"

text \<open>The send loop: the sessions whose send failed, in order.\<close>

fun send_each :: "(nat \<Rightarrow> outbound_msg \<Rightarrow> 'n \<Rightarrow> bool \<times> 'n) \<Rightarrow> bytes \<Rightarrow> subscriber list \<Rightarrow> 'n
    \<Rightarrow> string list \<times> 'n" where
  "send_each snd_msg body_mp [] n = ([], n)"
| "send_each snd_msg body_mp (s # subs) n =
     (let (ok, n1) = snd_msg (sub_write s) (ArcDelta (sub_stream s) body_mp) n;
          (slow, n2) = send_each snd_msg body_mp subs n1
      in (if ok then slow else sub_session s # slow, n2))"

definition broadcast_encoded :: "string \<Rightarrow> bytes \<Rightarrow> string option \<Rightarrow> fanout_bus \<times> write_net
    \<Rightarrow> fanout_bus \<times> write_net" where
  "broadcast_encoded key body_mp exclude = (\<lambda>(bus, net).
     case map_of bus key of
       None \<Rightarrow> (bus, net)
     | Some subs \<Rightarrow>
         (let snapshot = filter (\<lambda>s. case exclude of None \<Rightarrow> True | Some ex \<Rightarrow> sub_session s \<noteq> ex) subs
          in if snapshot = [] then (bus, net)
             else let (slow, net') = send_each net_send body_mp snapshot net
                  in if slow = [] then (bus, net')
                     else (AList.update key (filter (\<lambda>s. sub_session s \<notin> set slow) subs) bus, net')))"

definition broadcast :: "delta_encoder \<Rightarrow> string \<Rightarrow> u64 \<Rightarrow> delta_op list \<Rightarrow> fanout_bus \<times> write_net
    \<Rightarrow> fanout_bus \<times> write_net" where
  "broadcast denc key version ops bn =
     (if ops = [] then bn
      else let body_mp = encode_delta_body denc version ops
           in if body_mp = [] then bn else broadcast_encoded key body_mp None bn)"

definition subscriber_count :: "fanout_bus \<Rightarrow> string \<Rightarrow> nat" where
  "subscriber_count bus key = (case map_of bus key of Some s \<Rightarrow> length s | None \<Rightarrow> 0)"

subsection \<open>The interface of the write handles\<close>

text \<open>
  What a sender may rely on: a send concerns one handle; an accepted message is appended to what
  the handle carries; a refused one marks the handle dead, and dead handles stay dead.
\<close>

locale message_sink =
  fixes snd_msg :: "nat \<Rightarrow> outbound_msg \<Rightarrow> 'n \<Rightarrow> bool \<times> 'n"
    and carried :: "'n \<Rightarrow> nat \<Rightarrow> outbound_msg list"
    and dead :: "'n \<Rightarrow> nat \<Rightarrow> bool"
  assumes other: "h' \<noteq> h \<Longrightarrow> carried (snd (snd_msg h m n)) h' = carried n h' \<and> dead (snd (snd_msg h m n)) h' = dead n h'"
    and accepted: "fst (snd_msg h m n) \<Longrightarrow>
      carried (snd (snd_msg h m n)) h = carried n h @ [m] \<and> dead (snd (snd_msg h m n)) h = dead n h"
    and refused: "\<not> fst (snd_msg h m n) \<Longrightarrow>
      carried (snd (snd_msg h m n)) h = carried n h \<and> dead (snd (snd_msg h m n)) h"
begin

lemma dead_mono: "dead n h' \<Longrightarrow> dead (snd (snd_msg h m n)) h'"
  using other accepted refused by (cases "h' = h"; cases "fst (snd_msg h m n)") auto

lemma send_each_dead: "dead n h \<Longrightarrow> dead (snd (send_each snd_msg b subs n)) h"
  by (induction subs arbitrary: n) (auto simp: split_def Let_def intro: dead_mono)

text \<open>A handle that survives the loop got every delta meant for it, in order.\<close>

lemma send_each_delivers:
  "\<not> dead (snd (send_each snd_msg b subs n)) h \<Longrightarrow>
     carried (snd (send_each snd_msg b subs n)) h =
       carried n h @ map (\<lambda>s. ArcDelta (sub_stream s) b) (filter (\<lambda>s. sub_write s = h) subs)"
proof (induction subs arbitrary: n)
  case (Cons s subs)
  let ?m = "ArcDelta (sub_stream s) b"
  let ?n = "snd (snd_msg (sub_write s) ?m n)"
  have end_eq: "snd (send_each snd_msg b (s # subs) n) = snd (send_each snd_msg b subs ?n)"
    by (simp add: split_def Let_def)
  have IH: "carried (snd (send_each snd_msg b subs ?n)) h =
      carried ?n h @ map (\<lambda>s. ArcDelta (sub_stream s) b) (filter (\<lambda>s. sub_write s = h) subs)"
    using Cons.IH [of ?n] Cons.prems unfolding end_eq .
  have "\<not> dead ?n h"
    using Cons.prems send_each_dead [of ?n h b subs] unfolding end_eq by blast
  then have "carried ?n h = (if sub_write s = h then carried n h @ [?m] else carried n h)"
    using other [of h "sub_write s" ?m n] accepted [of "sub_write s" ?m n] refused [of "sub_write s" ?m n]
    by (cases "fst (snd_msg (sub_write s) ?m n)") auto
  then show ?case
    unfolding end_eq IH by simp
qed simp

text \<open>Handles no subscription names are not touched.\<close>

lemma send_each_untouched:
  "\<forall>s \<in> set subs. sub_write s \<noteq> h \<Longrightarrow>
     carried (snd (send_each snd_msg b subs n)) h = carried n h \<and> dead (snd (send_each snd_msg b subs n)) h = dead n h"
proof (induction subs arbitrary: n)
  case (Cons s subs)
  then show ?case
    using other [of h "sub_write s" "ArcDelta (sub_stream s) b" n] by (simp add: split_def Let_def)
qed simp

text \<open>A session is reported slow only if one of its handles is dead afterwards.\<close>

lemma send_each_slow:
  "x \<in> set (fst (send_each snd_msg b subs n)) \<Longrightarrow>
     \<exists>s \<in> set subs. sub_session s = x \<and> dead (snd (send_each snd_msg b subs n)) (sub_write s)"
proof (induction subs arbitrary: n)
  case (Cons s subs)
  let ?r = "snd_msg (sub_write s) (ArcDelta (sub_stream s) b) n"
  show ?case
  proof (cases "x \<in> set (fst (send_each snd_msg b subs (snd ?r)))")
    case True
    then show ?thesis
      using Cons.IH [OF True] by (auto simp: split_def Let_def)
  next
    case False
    then have "\<not> fst ?r" "sub_session s = x"
      using Cons.prems by (auto simp: split_def Let_def split: if_splits)
    then show ?thesis
      using refused [of "sub_write s" "ArcDelta (sub_stream s) b" n] send_each_dead [of "snd ?r" "sub_write s" b subs]
      by (auto simp: split_def Let_def)
  qed
qed simp

end

definition net_carried :: "write_net \<Rightarrow> nat \<Rightarrow> outbound_msg list" where
  "net_carried net hid = (case map_of (net_handles net) hid of None \<Rightarrow> [] | Some h \<Rightarrow> messages h)"

definition net_dead :: "write_net \<Rightarrow> nat \<Rightarrow> bool" where
  "net_dead net hid = (case map_of (net_handles net) hid of None \<Rightarrow> True | Some h \<Rightarrow> h_cancel h)"

lemma net_send_effect:
  "net_carried (snd (net_send hid m net)) hid =
     (if fst (net_send hid m net) then net_carried net hid @ [m] else net_carried net hid) \<and>
   net_dead (snd (net_send hid m net)) hid = (net_dead net hid \<or> \<not> fst (net_send hid m net))"
proof (cases "map_of (net_handles net) hid")
  case None
  then show ?thesis
    by (simp add: net_send_missing net_carried_def net_dead_def)
next
  case (Some h)
  show ?thesis
    by (rule net_send_same [OF Some, of m]) (simp add: net_carried_def net_dead_def Some)
qed

interpretation net_sink: message_sink net_send net_carried net_dead
proof
  fix h h' :: nat and m net
  assume "h' \<noteq> h"
  then show "net_carried (snd (net_send h m net)) h' = net_carried net h' \<and>
      net_dead (snd (net_send h m net)) h' = net_dead net h'"
    by (simp add: net_carried_def net_dead_def net_send_other)
qed (use net_send_effect in \<open>auto split: if_splits\<close>)

subsection \<open>What the registry operations do\<close>

lemma subscribers_subscribe:
  "subscribers (subscribe key s bus) k = (if k = key then subscribers bus key @ [s] else subscribers bus k)"
  by (simp add: subscribers_def subscribe_def update_conv')

lemma subscribers_unsubscribe:
  "subscribers (unsubscribe key sid bus) k =
     (if k = key then filter (\<lambda>s. sub_session s \<noteq> sid) (subscribers bus key) else subscribers bus k)"
  by (simp add: subscribers_def unsubscribe_def update_conv' split: option.split)

lemma subscribers_remove_session:
  "subscribers (remove_session sid bus) k = filter (\<lambda>s. sub_session s \<noteq> sid) (subscribers bus k)"
  by (simp add: subscribers_def remove_session_def map_of_map split: option.split)

text \<open>The subscriptions a broadcast addresses.\<close>

definition audience :: "string \<Rightarrow> string option \<Rightarrow> fanout_bus \<Rightarrow> subscriber list" where
  "audience key exclude bus =
     filter (\<lambda>s. case exclude of None \<Rightarrow> True | Some ex \<Rightarrow> sub_session s \<noteq> ex) (subscribers bus key)"

lemma broadcast_net:
  "snd (broadcast_encoded key b ex (bus, net)) = snd (send_each net_send b (audience key ex bus) net)"
  by (simp add: broadcast_encoded_def audience_def subscribers_def Let_def split_def split: option.split)

lemma broadcast_bus:
  "subscribers (fst (broadcast_encoded key b ex (bus, net))) k =
     (if k = key
      then filter (\<lambda>s. sub_session s \<notin> set (fst (send_each net_send b (audience key ex bus) net))) (subscribers bus key)
      else subscribers bus k)"
  by (simp add: broadcast_encoded_def audience_def subscribers_def Let_def split_def update_conv'
      split: option.split)

lemma broadcast_delivered:
  "\<not> net_dead (snd (broadcast_encoded key b ex (bus, net))) h \<Longrightarrow>
     net_carried (snd (broadcast_encoded key b ex (bus, net))) h =
       net_carried net h @
       map (\<lambda>s. ArcDelta (sub_stream s) b) (filter (\<lambda>s. sub_write s = h) (audience key ex bus))"
  unfolding broadcast_net by (rule net_sink.send_each_delivers)

lemma broadcast_dead: "net_dead net h \<Longrightarrow> net_dead (snd (broadcast_encoded key b ex (bus, net))) h"
  unfolding broadcast_net by (rule net_sink.send_each_dead)

lemma broadcast_evicted:
  assumes "s \<in> set (subscribers bus key)" and "s \<notin> set (subscribers (fst (broadcast_encoded key b ex (bus, net))) key)"
  shows "\<exists>s' \<in> set (audience key ex bus). sub_session s' = sub_session s \<and>
           net_dead (snd (broadcast_encoded key b ex (bus, net))) (sub_write s')"
proof -
  have "sub_session s \<in> set (fst (send_each net_send b (audience key ex bus) net))"
    using assms by (simp add: broadcast_bus)
  then show ?thesis
    unfolding broadcast_net by (rule net_sink.send_each_slow)
qed

lemma broadcast_subset: "set (subscribers (fst (broadcast_encoded key b ex (bus, net))) k) \<subseteq> set (subscribers bus k)"
  by (auto simp: broadcast_bus)

subsection \<open>Properties\<close>

text \<open>
  C24. Broadcasting. Every handle that is not cancelled afterwards has received exactly one delta for
  each subscription of the key it serves (those of the excluded session apart), in subscription order and with the
  subscription's stream number, and nothing else. A subscription disappears only when a handle of its session was
  cancelled, and only from this key's list.
\<close>

theorem broadcast_reaches_subscribers:
  "(\<forall>h. \<not> net_dead (snd (broadcast_encoded key b ex (bus, net))) h \<longrightarrow>
      net_carried (snd (broadcast_encoded key b ex (bus, net))) h =
        net_carried net h @
        map (\<lambda>s. ArcDelta (sub_stream s) b) (filter (\<lambda>s. sub_write s = h) (audience key ex bus))) \<and>
   (\<forall>s \<in> set (subscribers bus key).
      s \<in> set (subscribers (fst (broadcast_encoded key b ex (bus, net))) key) \<or>
      (\<exists>s' \<in> set (audience key ex bus). sub_session s' = sub_session s \<and>
         net_dead (snd (broadcast_encoded key b ex (bus, net))) (sub_write s'))) \<and>
   (\<forall>k. k \<noteq> key \<longrightarrow> subscribers (fst (broadcast_encoded key b ex (bus, net))) k = subscribers bus k)"
  using broadcast_delivered broadcast_evicted by (simp add: broadcast_bus)

definition demo_bus :: fanout_bus where
  "demo_bus = [(''k'', [\<lparr>sub_session = ''a'', sub_stream = 10, sub_write = 0\<rparr>,
                       \<lparr>sub_session = ''b'', sub_stream = 11, sub_write = 1\<rparr>])]"

definition demo_net :: write_net where
  "demo_net = \<lparr>net_handles = [(0, new_task 4), (1, new_task 4)], net_pool = []\<rparr>"

theorem broadcast_reaches_subscribers_witness:
  "net_carried (snd (broadcast_encoded ''k'' [1] (Some ''a'') (demo_bus, demo_net))) 1 = [ArcDelta 11 [1]] \<and>
   net_carried (snd (broadcast_encoded ''k'' [1] (Some ''a'') (demo_bus, demo_net))) 0 = []"
proof -
  have alive: "\<not> net_dead (snd (broadcast_encoded ''k'' [1] (Some ''a'') (demo_bus, demo_net))) 1"
    "\<not> net_dead (snd (broadcast_encoded ''k'' [1] (Some ''a'') (demo_bus, demo_net))) 0"
    by code_simp+
  show ?thesis
    using conjunct1 [OF broadcast_reaches_subscribers, rule_format, OF alive(1)]
      conjunct1 [OF broadcast_reaches_subscribers, rule_format, OF alive(2)]
    by (simp add: net_carried_def demo_net_def demo_bus_def audience_def subscribers_def messages_def new_task_def)
qed


end
