(* ===== verification/Redis_Cluster.thy ===== *)
theory Redis_Cluster
  imports Fanout_Bus State_Store
begin

section \<open>Cross-node synchronisation through Redis\<close>

text \<open>
  The model of \<^verbatim>\<open>src/src/cluster.rs\<close>. A background task that talks to Redis is the list of the commands
  it issues, in order; a failing command is logged by the code and does not stop the task, so the list
  does not depend on the answers. Redis itself is not modelled: what a theorem needs of it is a
  hypothesis. The MessagePack codecs of the stored pair and of the published pair are the
  parameters \<open>venc\<close>, \<open>vdec\<close>, \<open>penc\<close> and \<open>pdec\<close>. The message stream of the Pub/Sub connection is a
  list of events.
\<close>

record redis_cluster =
  node_id :: string

datatype redis_cmd =
    HSET string bytes
  | HDEL string
  | PUBLISH string bytes

type_synonym value_encoder = "u64 \<times> json \<Rightarrow> bytes option"
type_synonym value_decoder = "bytes \<Rightarrow> (u64 \<times> json) option"
type_synonym peer_encoder = "string \<times> bytes \<Rightarrow> bytes option"
type_synonym peer_decoder = "bytes \<Rightarrow> (string \<times> bytes) option"

subsection \<open>UTF-8\<close>

text \<open>\<^verbatim>\<open>String::from_utf8\<close>: the well-formed byte sequences of the Unicode standard.\<close>

definition cont_byte :: "nat \<Rightarrow> bool" where
  "cont_byte b \<longleftrightarrow> 0x80 \<le> b \<and> b \<le> 0xBF"

fun utf8_valid :: "nat list \<Rightarrow> bool" where
  "utf8_valid [] = True"
| "utf8_valid (a # bs) =
     (if a \<le> 0x7F then utf8_valid bs
      else if 0xC2 \<le> a \<and> a \<le> 0xDF
      then (case bs of b # r \<Rightarrow> cont_byte b \<and> utf8_valid r | _ \<Rightarrow> False)
      else if 0xE0 \<le> a \<and> a \<le> 0xEF
      then (case bs of
              b # c # r \<Rightarrow>
                cont_byte b \<and> (a = 0xE0 \<longrightarrow> 0xA0 \<le> b) \<and> (a = 0xED \<longrightarrow> b \<le> 0x9F) \<and> cont_byte c \<and> utf8_valid r
            | _ \<Rightarrow> False)
      else if 0xF0 \<le> a \<and> a \<le> 0xF4
      then (case bs of
              b # c # d # r \<Rightarrow>
                cont_byte b \<and> (a = 0xF0 \<longrightarrow> 0x90 \<le> b) \<and> (a = 0xF4 \<longrightarrow> b \<le> 0x8F) \<and>
                cont_byte c \<and> cont_byte d \<and> utf8_valid r
            | _ \<Rightarrow> False)
      else False)"

definition from_utf8 :: "bytes \<Rightarrow> string option" where
  "from_utf8 bs = (if utf8_valid (map unat bs) then Some (map (\<lambda>b. char_of (unat b)) bs) else None)"

definition string_bytes :: "string \<Rightarrow> bytes" where
  "string_bytes s = map (\<lambda>c. of_nat (of_char c)) s"

subsection \<open>Loading and synchronising\<close>

text \<open>\<open>raw\<close> is the reply of \<^verbatim>\<open>HGETALL sodp:state\<close>; entries that do not decode are skipped.\<close>

definition load_one :: "value_decoder \<Rightarrow> bytes \<times> bytes \<Rightarrow> (string \<times> u64 \<times> json) option" where
  "load_one vdec = (\<lambda>(k_bytes, v_bytes).
     case from_utf8 k_bytes of
       None \<Rightarrow> None
     | Some key \<Rightarrow> (case vdec v_bytes of None \<Rightarrow> None | Some (version, value) \<Rightarrow> Some (key, version, value)))"

definition load_state :: "value_decoder \<Rightarrow> (bytes \<times> bytes) list \<Rightarrow> (string \<times> u64 \<times> json) list" where
  "load_state vdec raw = List.map_filter (load_one vdec) raw"

definition channel_of :: "string \<Rightarrow> string" where
  "channel_of key = ''sodp:delta:'' @ key"

definition sync :: "value_encoder \<Rightarrow> peer_encoder \<Rightarrow> redis_cluster \<Rightarrow> string \<Rightarrow> u64 \<Rightarrow> json \<Rightarrow> bytes
    \<Rightarrow> redis_cmd list" where
  "sync venc penc cl key version value body_mp =
     (case venc (version, value) of
        None \<Rightarrow> []
      | Some encoded \<Rightarrow>
          HSET key encoded #
          (case penc (node_id cl, body_mp) of
             None \<Rightarrow> []
           | Some msg \<Rightarrow> [PUBLISH (channel_of key) msg]))"

definition sync_delete :: "peer_encoder \<Rightarrow> redis_cluster \<Rightarrow> string \<Rightarrow> bytes \<Rightarrow> redis_cmd list" where
  "sync_delete penc cl key body_mp =
     HDEL key #
     (case penc (node_id cl, body_mp) of
        None \<Rightarrow> []
      | Some msg \<Rightarrow> [PUBLISH (channel_of key) msg])"

subsection \<open>Receiving\<close>

text \<open>\<open>None\<close> for the channel or the payload is the error of \<^verbatim>\<open>get_channel\<close> or \<^verbatim>\<open>get_payload\<close>.\<close>

definition handle_pubsub_message :: "peer_decoder \<Rightarrow> redis_cluster \<Rightarrow> string option \<Rightarrow> bytes option
    \<Rightarrow> fanout_bus \<times> write_net \<Rightarrow> fanout_bus \<times> write_net" where
  "handle_pubsub_message pdec cl channel_opt payload_opt bn =
     (case channel_opt of
        None \<Rightarrow> bn
      | Some channel \<Rightarrow>
          (let key = (case strip_prefix ''sodp:delta:'' channel of Some k \<Rightarrow> k | None \<Rightarrow> channel) in
           case payload_opt of
             None \<Rightarrow> bn
           | Some payload \<Rightarrow>
               (case pdec payload of
                  None \<Rightarrow> bn
                | Some (sender_id, body_mp) \<Rightarrow>
                    if sender_id = node_id cl then bn
                    else broadcast_encoded key body_mp None bn)))"

datatype pubsub_event =
    ShutdownSeen
  | PubMsg "string option" "bytes option"
  | StreamEnd

text \<open>
  The inner loop over the events of one connection; \<open>None\<close> for the connection is a failure to open
  it or to subscribe. The result says whether the shutdown was seen.
\<close>

fun forward_messages :: "peer_decoder \<Rightarrow> redis_cluster \<Rightarrow> pubsub_event list \<Rightarrow> fanout_bus \<times> write_net
    \<Rightarrow> bool \<times> fanout_bus \<times> write_net" where
  "forward_messages pdec cl [] bn = (False, bn)"
| "forward_messages pdec cl (ev # evs) bn =
     (case ev of
        ShutdownSeen \<Rightarrow> (True, bn)
      | StreamEnd \<Rightarrow> (False, bn)
      | PubMsg ch p \<Rightarrow> forward_messages pdec cl evs (handle_pubsub_message pdec cl ch p bn))"

definition run_subscriber_loop :: "peer_decoder \<Rightarrow> redis_cluster \<Rightarrow> pubsub_event list option
    \<Rightarrow> fanout_bus \<times> write_net \<Rightarrow> bool \<times> fanout_bus \<times> write_net" where
  "run_subscriber_loop pdec cl conn bn =
     (case conn of None \<Rightarrow> (False, bn) | Some evs \<Rightarrow> forward_messages pdec cl evs bn)"

text \<open>The outer loop over the connections made one after the other, until the shutdown.\<close>

fun spawn_subscriber :: "peer_decoder \<Rightarrow> redis_cluster \<Rightarrow> pubsub_event list option list
    \<Rightarrow> fanout_bus \<times> write_net \<Rightarrow> fanout_bus \<times> write_net" where
  "spawn_subscriber pdec cl [] bn = bn"
| "spawn_subscriber pdec cl (conn # conns) bn =
     (let (stopped, bn') = run_subscriber_loop pdec cl conn bn
      in if stopped then bn' else spawn_subscriber pdec cl conns bn')"

subsection \<open>Facts\<close>

lemma char_of_byte [simp]: "char_of (unat (of_nat (of_char c) :: u8)) = (c :: char)"
proof -
  have "unat (of_nat (of_char c) :: u8) = (of_char c :: nat)"
    by (simp add: unat_of_nat)
  then show ?thesis
    by simp
qed

lemma from_utf8_bytes:
  "utf8_valid (map of_char s) \<Longrightarrow> from_utf8 (string_bytes s) = Some s"
  by (simp add: from_utf8_def string_bytes_def comp_def unat_of_nat)

lemma utf8_ascii: "\<forall>c \<in> set s. of_char c \<le> (0x7F :: nat) \<Longrightarrow> utf8_valid (map of_char s)"
  by (induction s) auto

lemma pubsub_own:
  "pdec payload = Some (node_id cl, b) \<Longrightarrow> handle_pubsub_message pdec cl ch (Some payload) bn = bn"
  by (simp add: handle_pubsub_message_def split: option.split)

lemma pubsub_peer:
  "pdec payload = Some (sender, b) \<Longrightarrow> sender \<noteq> node_id cl \<Longrightarrow>
     handle_pubsub_message pdec cl (Some (channel_of key)) (Some payload) bn = broadcast_encoded key b None bn"
  unfolding handle_pubsub_message_def channel_of_def by (simp del: append.simps)

lemma string_bytes_from_utf8: "from_utf8 bs = Some s \<Longrightarrow> bs = string_bytes s"
proof -
  assume "from_utf8 bs = Some s"
  then have "s = map (\<lambda>b. char_of (unat b)) bs"
    by (simp add: from_utf8_def split: if_splits)
  moreover have "of_nat (of_char (char_of (unat b) :: char)) = b" for b :: u8
    using unat_u8_less [of b] by (simp add: of_char_of)
  ultimately show ?thesis
    by (simp add: string_bytes_def comp_def)
qed

lemma load_state_simps:
  "load_state vdec [] = []"
  "load_state vdec (x # raw) =
     (case load_one vdec x of None \<Rightarrow> load_state vdec raw | Some y \<Rightarrow> y # load_state vdec raw)"
  by (simp_all add: load_state_def List.map_filter_def split: option.split)

lemma load_state_keys: "key \<in> fst ` set (load_state vdec raw) \<Longrightarrow> string_bytes key \<in> fst ` set raw"
  by (force simp: load_state_def List.map_filter_def load_one_def dest: string_bytes_from_utf8
      split: option.splits prod.splits)

lemma distinct_load_state:
  assumes "distinct (map fst raw)"
  shows "distinct (map fst (load_state vdec raw))"
  using assms
proof (induction raw)
  case (Cons x raw)
  have "fst y \<notin> fst ` set (load_state vdec raw)" if "load_one vdec x = Some y" for y
  proof
    assume "fst y \<in> fst ` set (load_state vdec raw)"
    then have "string_bytes (fst y) \<in> fst ` set raw"
      by (rule load_state_keys)
    moreover have "fst x = string_bytes (fst y)"
      using that by (auto simp: load_one_def dest: string_bytes_from_utf8 split: option.splits prod.splits)
    ultimately show False
      using Cons.prems by simp
  qed
  with Cons show ?case
    by (cases "load_one vdec x") (simp_all add: load_state_simps)
qed (simp add: load_state_simps)

lemma load_state_lookup:
  assumes "distinct (map fst raw)" and "utf8_valid (map of_char key)"
    and "map_of raw (string_bytes key) = Some bs" and "vdec bs = Some (version, x)"
  shows "map_of (load_state vdec raw) key = Some (version, x)"
proof -
  have "load_one vdec (string_bytes key, bs) = Some (key, version, x)"
    using assms(2,4) by (simp add: load_one_def from_utf8_bytes)
  moreover have "(string_bytes key, bs) \<in> set raw"
    using assms(3) by (rule map_of_SomeD)
  ultimately have "(key, version, x) \<in> set (load_state vdec raw)"
    unfolding load_state_def List.map_filter_def by force
  then show ?thesis
    using distinct_load_state [OF assms(1)] by simp
qed

text \<open>Commands executed on the hash; \<open>hset\<close> and \<open>hdel\<close> are those of the Redis server.\<close>

fun exec_cmds :: "('r \<Rightarrow> string \<Rightarrow> bytes \<Rightarrow> 'r) \<Rightarrow> ('r \<Rightarrow> string \<Rightarrow> 'r) \<Rightarrow> redis_cmd list \<Rightarrow> 'r \<Rightarrow> 'r" where
  "exec_cmds hset hdel [] r = r"
| "exec_cmds hset hdel (c # cs) r =
     exec_cmds hset hdel cs
       (case c of HSET k v \<Rightarrow> hset r k v | HDEL k \<Rightarrow> hdel r k | PUBLISH _ _ \<Rightarrow> r)"

lemma exec_sync:
  "venc (version, x) = Some bs \<Longrightarrow> exec_cmds hset hdel (sync venc penc cl key version x b) r = hset r key bs"
  by (simp add: sync_def split: option.split)

subsection \<open>Properties\<close>

text \<open>
  C27. A mutation announced by one node reaches the watchers of every other node and is not
  delivered twice at home: the message \<^const>\<open>sync\<close> publishes, received by a node with another
  identifier, broadcasts exactly the given body under exactly the given key to all its local subscribers;
  received by the publishing node it does nothing.
\<close>

theorem cluster_publish_reaches_peers:
  assumes "\<forall>x m. penc x = Some m \<longrightarrow> pdec m = Some x"
    and "PUBLISH ch msg \<in> set (sync venc penc cl key version x b)"
    and "node_id peer \<noteq> node_id cl"
  shows "handle_pubsub_message pdec peer (Some ch) (Some msg) bn = broadcast_encoded key b None bn \<and>
         handle_pubsub_message pdec cl (Some ch) (Some msg) bn = bn"
proof -
  have "ch = channel_of key" "penc (node_id cl, b) = Some msg"
    using assms(2) by (auto simp: sync_def split: option.splits)
  then show ?thesis
    using assms(1,3) pubsub_peer [of pdec msg "node_id cl" b peer key bn] pubsub_own [of pdec msg cl b] by auto
qed

text \<open>A concrete codec for the witnesses: the text in front of the body, both of fixed length one.\<close>

definition tiny_penc :: peer_encoder where
  "tiny_penc x = (case x of ([c], [b]) \<Rightarrow> Some [of_nat (of_char c), b] | _ \<Rightarrow> None)"

definition tiny_pdec :: peer_decoder where
  "tiny_pdec bs = (case bs of [a, b] \<Rightarrow> Some ([char_of (unat a)], [b]) | _ \<Rightarrow> None)"

lemma tiny_codec: "\<forall>x m. tiny_penc x = Some m \<longrightarrow> tiny_pdec m = Some x"
  by (auto simp: tiny_penc_def tiny_pdec_def split: list.splits prod.splits)

theorem cluster_publish_reaches_peers_witness:
  "handle_pubsub_message tiny_pdec \<lparr>node_id = ''B''\<rparr> (Some (channel_of ''k'')) (Some [65, 7]) (demo_bus, demo_net) =
     broadcast_encoded ''k'' [7] None (demo_bus, demo_net)"
  using cluster_publish_reaches_peers [OF tiny_codec, of "channel_of ''k''" "[65, 7]" "\<lambda>_. Some []"
      "\<lparr>node_id = ''A''\<rparr>" "''k''" 1 Null "[7]" "\<lparr>node_id = ''B''\<rparr>"]
  by (simp add: sync_def tiny_penc_def)

text \<open>
  A node that starts after a mutation was synchronised knows it: when Redis's hash behaves as a
  hash (a field set is read back, fields are unique) and the value codec is faithful, loading the
  hash after the commands of \<^const>\<open>sync\<close> leaves the key with the newer of the node's own entry and the synchronised
  one, and the version counter at least at the synchronised version.
\<close>

theorem cluster_start_loads_synced:
  assumes "\<forall>k v. map_of (hgetall (hset r k v)) (string_bytes k) = Some v"
    and "\<forall>k v. distinct (map fst (hgetall (hset r k v)))"
    and "venc (version, x) = Some bs" and "vdec bs = Some (version, x)" and "utf8_valid (map of_char key)"
  shows "let s' = load_entries s (load_state vdec (hgetall (exec_cmds hset hdel (sync venc penc cl key version x b) r)))
         in store_get s' key = newer (store_get s key) (Some (version, x)) \<and> version \<le> st_version s'"
proof -
  let ?r = "hset r key bs"
  have "map_of (hgetall ?r) (string_bytes key) = Some bs"
    using assms(1) by simp
  then have l: "map_of (load_state vdec (hgetall ?r)) key = Some (version, x)"
    using assms(2,4,5) by (intro load_state_lookup) simp_all
  have "distinct (map fst (load_state vdec (hgetall ?r)))"
    using assms(2) by (intro distinct_load_state) simp
  from load_entries_spec [OF this, of s] l show ?thesis
    unfolding exec_sync [where venc = venc, OF assms(3)] by (auto simp: Let_def dest!: map_of_SomeD)
qed

theorem cluster_start_loads_synced_witness:
  "let s' = load_entries store_new (load_state (\<lambda>_. Some (5, Null))
              (id (exec_cmds (\<lambda>r k v. AList.update (string_bytes k) v r) (\<lambda>r k. r)
                 (sync (\<lambda>_. Some [1]) tiny_penc \<lparr>node_id = ''A''\<rparr> ''k'' 5 Null [7]) [])))
   in store_get s' ''k'' = newer None (Some (5, Null)) \<and> 5 \<le> st_version s'"
proof -
  have "store_get store_new ''k'' = None"
    by (simp add: store_get_def store_new_def)
  then show ?thesis
    using cluster_start_loads_synced [of id "\<lambda>r k v. AList.update (string_bytes k) v r" "[]" "\<lambda>_. Some [1]" 5 Null "[1]"
        "\<lambda>_. Some (5, Null)" "''k''" store_new "\<lambda>r k. r" tiny_penc "\<lparr>node_id = ''A''\<rparr>" "[7]"]
    by simp
qed


end
