(* ===== verification/Sodp_Server.thy ===== *)
theory Sodp_Server
  imports Redis_Cluster Json_Path Session_State Schema_Check Access_Control
begin

section \<open>The frame handlers of the server\<close>

text \<open>
  The model of the frame handlers of \<^verbatim>\<open>src/src/server.rs\<close>: \<^verbatim>\<open>handle_frame\<close> and, below it, WATCH,
  UNWATCH, RESUME and the five methods of CALL. A handler works on the shared server state, on the
  session of its connection and on the write handle of that session (by number), and it runs as
  one step. All handlers return \<^verbatim>\<open>Ok(())\<close> on every path, so they have no result. The background tasks a
  handler spawns for Redis are collected in \<open>sv_tasks\<close>. Counters for metrics and log lines are not
  modelled. Codecs of other crates are the fields of \<open>externals\<close>.
\<close>

record claims =
  c_sub :: string
  c_exp :: nat
  c_extra :: "(string \<times> json) list"

datatype jwt_config = Hs256 string | Rs256 string

datatype algorithm = HS256 | RS256

record externals =
  x_log :: encoder
  x_delta :: delta_encoder
  x_value :: value_encoder
  x_peer :: peer_encoder
  x_pdec :: peer_decoder
  x_fenc :: frame_encoder
  x_fdec :: "bytes \<Rightarrow> frame option"
  x_rsa_pem :: "string \<Rightarrow> string + string"
  x_jwt :: "nat \<Rightarrow> algorithm \<Rightarrow> string \<Rightarrow> nat \<Rightarrow> string \<Rightarrow> string + claims"

record server =
  sv_state :: state_store
  sv_bus :: fanout_bus
  sv_net :: write_net
  sv_schema :: "schema_registry option"
  sv_acl :: "acl_registry option"
  sv_jwt :: "jwt_config option"
  sv_connections :: nat
  sv_max_connections :: "nat option"
  sv_max_frame_bytes :: nat
  sv_ws_ping_interval :: nat
  sv_rate_writes :: "u32 option"
  sv_rate_watches :: "u32 option"
  sv_cluster :: "redis_cluster option"
  sv_tasks :: "redis_cmd list list"
  sv_backpressure_limit :: nat
  sv_write_mode :: write_mode

type_synonym ctx = "server \<times> session"

subsection \<open>Replies\<close>

definition send_msg :: "nat \<Rightarrow> outbound_msg \<Rightarrow> server \<Rightarrow> server" where
  "send_msg hid msg sv = sv\<lparr>sv_net := snd (net_send hid msg (sv_net sv))\<rparr>"

text \<open>The two ways a handler answers: the next sequence number, then a frame on the handle.\<close>

definition reply_error :: "nat \<Rightarrow> u32 \<Rightarrow> u32 \<Rightarrow> string \<Rightarrow> ctx \<Rightarrow> ctx" where
  "reply_error hid sid code msg = (\<lambda>(sv, se).
     let (sq, se1) = next_seq se in (send_msg hid (FrameMsg (error sid sq code msg)) sv, se1))"

definition reply_ok :: "nat \<Rightarrow> u32 \<Rightarrow> string \<Rightarrow> u64 \<Rightarrow> ctx \<Rightarrow> ctx" where
  "reply_ok hid sid call_id version = (\<lambda>(sv, se).
     let (sq, se1) = next_seq se
     in (send_msg hid (FrameMsg (result_ok sid sq call_id (Some (json_obj [(''version'', json_u64 version)])))) sv, se1))"

definition take_watch_token :: "nat \<Rightarrow> session \<Rightarrow> bool \<times> session" where
  "take_watch_token now se =
     (case watch_limiter se of
        None \<Rightarrow> (True, se)
      | Some l \<Rightarrow> (let (ok, l') = allow now l in (ok, se\<lparr>watch_limiter := Some l'\<rparr>)))"

definition take_write_token :: "nat \<Rightarrow> session \<Rightarrow> bool \<times> session" where
  "take_write_token now se =
     (case write_limiter se of
        None \<Rightarrow> (True, se)
      | Some l \<Rightarrow> (let (ok, l') = allow now l in (ok, se\<lparr>write_limiter := Some l'\<rparr>)))"

definition may_read :: "server \<Rightarrow> session \<Rightarrow> string \<Rightarrow> bool" where
  "may_read sv se key =
     (case sv_acl sv of None \<Rightarrow> True | Some acl \<Rightarrow> can_read acl key (s_sub se) (s_claims se))"

definition may_write :: "server \<Rightarrow> session \<Rightarrow> string \<Rightarrow> bool" where
  "may_write sv se key =
     (case sv_acl sv of None \<Rightarrow> True | Some acl \<Rightarrow> can_write acl key (s_sub se) (s_claims se))"

subsection \<open>WATCH, UNWATCH and RESUME\<close>

text \<open>The keys of a frame: the array \<^verbatim>\<open>states\<close> first, then the string \<^verbatim>\<open>state\<close>.\<close>

definition frame_keys :: "json \<Rightarrow> string list option" where
  "frame_keys b =
     (case get_array b ''states'' of
        Some arr \<Rightarrow> Some (List.map_filter as_str arr)
      | None \<Rightarrow> map_option (\<lambda>k. [k]) (get_str b ''state''))"

text \<open>Allocating a stream and subscribing, the part \<^verbatim>\<open>subscribe_key\<close> and \<^verbatim>\<open>handle_resume\<close> share.\<close>

definition open_stream :: "nat \<Rightarrow> string \<Rightarrow> json option \<Rightarrow> ctx \<Rightarrow> u32 \<times> ctx" where
  "open_stream hid key params = (\<lambda>(sv, se).
     let (sid, se1) = allocate_stream se;
         se2 = add_watch sid key params se1
     in (sid, sv\<lparr>sv_bus := subscribe key \<lparr>sub_session = s_id se2, sub_stream = sid, sub_write = hid\<rparr> (sv_bus sv)\<rparr>, se2))"

definition send_state_init :: "nat \<Rightarrow> string \<Rightarrow> u32 \<Rightarrow> json option \<Rightarrow> ctx \<Rightarrow> ctx" where
  "send_state_init hid key sid params = (\<lambda>(sv, se).
     let (version, val, initialized) =
           (case store_get (sv_state sv) key of
              Some e \<Rightarrow> (e_version e, e_value e, True)
            | None \<Rightarrow> (0, Null, False));
         (sq, se1) = next_seq se
     in (send_msg hid (FrameMsg (state_init sid sq key version val initialized params)) sv, se1))"

definition subscribe_key :: "nat \<Rightarrow> string \<Rightarrow> json option \<Rightarrow> ctx \<Rightarrow> ctx" where
  "subscribe_key hid key params c =
     (let (sid, c1) = open_stream hid key params c in send_state_init hid key sid params c1)"

fun watch_keys :: "nat \<Rightarrow> json option \<Rightarrow> string list \<Rightarrow> ctx \<Rightarrow> ctx" where
  "watch_keys hid params [] c = c"
| "watch_keys hid params (key # keys) c =
     watch_keys hid params keys
       (if \<not> may_read (fst c) (snd c) key
        then reply_error hid 0 403 (''forbidden: '' @ key) c
        else subscribe_key hid key params c)"

definition handle_watch :: "nat \<Rightarrow> nat \<Rightarrow> frame \<Rightarrow> ctx \<Rightarrow> ctx" where
  "handle_watch now hid f = (\<lambda>(sv, se).
     let (ok, se1) = take_watch_token now se in
     if \<not> ok then reply_error hid (stream_id f) 429 ''rate limit exceeded'' (sv, se1)
     else (case frame_keys (body f) of
        None \<Rightarrow> reply_error hid (stream_id f) 400 ''WATCH: missing 'state' or 'states' key'' (sv, se1)
      | Some keys \<Rightarrow> watch_keys hid (json_get (body f) ''params'') keys (sv, se1)))"

fun unwatch_keys :: "string list \<Rightarrow> ctx \<Rightarrow> ctx" where
  "unwatch_keys [] c = c"
| "unwatch_keys (key # keys) (sv, se) =
     (case watch_stream_id key se of
        None \<Rightarrow> unwatch_keys keys (sv, se)
      | Some sid \<Rightarrow>
          unwatch_keys keys (sv\<lparr>sv_bus := unsubscribe key (s_id se) (sv_bus sv)\<rparr>, snd (remove_watch sid se)))"

definition handle_unwatch :: "frame \<Rightarrow> ctx \<Rightarrow> ctx" where
  "handle_unwatch f c = (case frame_keys (body f) of None \<Rightarrow> c | Some keys \<Rightarrow> unwatch_keys keys c)"

fun replay_missed :: "externals \<Rightarrow> nat \<Rightarrow> u32 \<Rightarrow> delta_rec list \<Rightarrow> ctx \<Rightarrow> ctx" where
  "replay_missed x hid sid [] c = c"
| "replay_missed x hid sid ((version, ops) # missed) (sv, se) =
     (let (sq, se1) = next_seq se;
          wire = delta_bytes sid sq (encode_delta_body (x_delta x) version ops)
      in replay_missed x hid sid missed (send_msg hid (Bytes wire) sv, se1))"

definition handle_resume :: "externals \<Rightarrow> nat \<Rightarrow> nat \<Rightarrow> frame \<Rightarrow> ctx \<Rightarrow> ctx" where
  "handle_resume x now hid f = (\<lambda>(sv, se).
     let (ok, se1) = take_watch_token now se in
     if \<not> ok then reply_error hid (stream_id f) 429 ''rate limit exceeded'' (sv, se1)
     else (case get_str (body f) ''state'' of
        None \<Rightarrow> reply_error hid (stream_id f) 400 ''RESUME: missing 'state' key'' (sv, se1)
      | Some key \<Rightarrow>
          if \<not> may_read sv se1 key then reply_error hid (stream_id f) 403 ''forbidden'' (sv, se1)
          else (let since = (case get_u64 (body f) ''since_version'' of Some v \<Rightarrow> v | None \<Rightarrow> 0);
                    params = json_get (body f) ''params'';
                    (sid, c1) = open_stream hid key params (sv, se1);
                    c2 = (if since > 0 then replay_missed x hid sid (deltas_since (sv_state (fst c1)) key since) c1
                          else c1)
                in send_state_init hid key sid params c2)))"

subsection \<open>CALL\<close>

definition broadcast_timed :: "string \<Rightarrow> bytes \<Rightarrow> string option \<Rightarrow> server \<Rightarrow> server" where
  "broadcast_timed key body_mp ex sv =
     (let (bus, net) = broadcast_encoded key body_mp ex (sv_bus sv, sv_net sv)
      in sv\<lparr>sv_bus := bus, sv_net := net\<rparr>)"

definition extract_state_and_value :: "json \<Rightarrow> string \<Rightarrow> string + string \<times> json" where
  "extract_state_and_value args context =
     (case get_str args ''state'' of
        None \<Rightarrow> Inl (context @ '': missing 'state' key'')
      | Some key \<Rightarrow> Inr (key, opt_json (json_get args ''value'')))"

definition check_schema :: "server \<Rightarrow> string \<Rightarrow> json \<Rightarrow> string + unit" where
  "check_schema sv key v =
     (case sv_schema sv of None \<Rightarrow> Inr () | Some schema \<Rightarrow> validate schema key v)"

text \<open>The direct delivery of a delta to the session that caused it, on the stream it watches the key with.\<close>

definition deliver_own :: "nat \<Rightarrow> session \<Rightarrow> string \<Rightarrow> bytes \<Rightarrow> server \<Rightarrow> server" where
  "deliver_own hid se key body_mp sv =
     (case watch_stream_id key se of
        None \<Rightarrow> sv
      | Some sid \<Rightarrow> send_msg hid (Bytes (delta_bytes sid 0 body_mp)) sv)"

definition cluster_sync :: "externals \<Rightarrow> string \<Rightarrow> u64 \<Rightarrow> json \<Rightarrow> bytes \<Rightarrow> server \<Rightarrow> server" where
  "cluster_sync x key version v body_mp sv =
     (case sv_cluster sv of
        None \<Rightarrow> sv
      | Some cl \<Rightarrow> sv\<lparr>sv_tasks := sv_tasks sv @ [sync (x_value x) (x_peer x) cl key version v body_mp]\<rparr>)"

definition cluster_sync_delete :: "externals \<Rightarrow> string \<Rightarrow> bytes \<Rightarrow> server \<Rightarrow> server" where
  "cluster_sync_delete x key body_mp sv =
     (case sv_cluster sv of
        None \<Rightarrow> sv
      | Some cl \<Rightarrow> sv\<lparr>sv_tasks := sv_tasks sv @ [sync_delete (x_peer x) cl key body_mp]\<rparr>)"

text \<open>
  The block the four writing methods share: apply the value, and when it changed something fan the
  delta out to the other sessions, deliver it to this one and synchronise the cluster.
\<close>

definition commit :: "externals \<Rightarrow> nat \<Rightarrow> session \<Rightarrow> string \<Rightarrow> json \<Rightarrow> server \<Rightarrow> u64 \<times> server" where
  "commit x hid se key v sv =
     (let ((version, ops), st) = store_apply (x_log x) (sv_state sv) key v;
          sv1 = sv\<lparr>sv_state := st\<rparr>
      in if ops = [] then (version, sv1)
         else let body_mp = encode_delta_body (x_delta x) version ops;
                  sv2 = broadcast_timed key body_mp (Some (s_id se)) sv1;
                  sv3 = deliver_own hid se key body_mp sv2
              in (version, cluster_sync x key version v body_mp sv3))"

definition call_set :: "externals \<Rightarrow> nat \<Rightarrow> u32 \<Rightarrow> string \<Rightarrow> json \<Rightarrow> ctx \<Rightarrow> ctx" where
  "call_set x hid sid call_id args = (\<lambda>(sv, se).
     case extract_state_and_value args ''state.set'' of
       Inl msg \<Rightarrow> reply_error hid sid 400 msg (sv, se)
     | Inr (key, new_value) \<Rightarrow>
         (case check_schema sv key new_value of
            Inl msg \<Rightarrow> reply_error hid sid 422 msg (sv, se)
          | Inr _ \<Rightarrow>
              (let (version, sv1) = commit x hid se key new_value sv
               in reply_ok hid sid call_id version (sv1, se))))"

definition call_patch :: "externals \<Rightarrow> nat \<Rightarrow> u32 \<Rightarrow> string \<Rightarrow> json \<Rightarrow> ctx \<Rightarrow> ctx" where
  "call_patch x hid sid call_id args = (\<lambda>(sv, se).
     case get_str args ''state'' of
       None \<Rightarrow> reply_error hid sid 400 ''state.patch: missing 'state' key'' (sv, se)
     | Some key \<Rightarrow>
         (case json_get args ''patch'' of
            Some (Object p) \<Rightarrow>
              (let current = (case store_get (sv_state sv) key of Some e \<Rightarrow> e_value e | None \<Rightarrow> Object []);
                   merged = json_merge current (Object p)
               in case check_schema sv key merged of
                    Inl msg \<Rightarrow> reply_error hid sid 422 msg (sv, se)
                  | Inr _ \<Rightarrow>
                      (let (version, sv1) = commit x hid se key merged sv
                       in reply_ok hid sid call_id version (sv1, se)))
          | _ \<Rightarrow> reply_error hid sid 400 ''state.patch: 'patch' must be an object'' (sv, se)))"

text \<open>The arguments of \<^verbatim>\<open>state.set_in\<close> and \<^verbatim>\<open>state.presence\<close> and the value they store.\<close>

definition nested_update :: "string \<Rightarrow> server \<Rightarrow> json \<Rightarrow> (u32 \<times> string) + (string \<times> string \<times> json)" where
  "nested_update method sv args =
     (case get_str args ''state'' of
        None \<Rightarrow> Inl (400, method @ '': missing 'state' key'')
      | Some key \<Rightarrow>
          (case get_str args ''path'' of
             None \<Rightarrow> Inl (400, method @ '': missing 'path' key'')
           | Some path \<Rightarrow>
               (let new_val = opt_json (json_get args ''value'');
                    current = (case store_get (sv_state sv) key of Some e \<Rightarrow> e_value e | None \<Rightarrow> Null)
                in case json_set_in current path new_val of
                     Inl msg \<Rightarrow> Inl (400, msg)
                   | Inr updated \<Rightarrow>
                       (case check_schema sv key updated of
                          Inl msg \<Rightarrow> Inl (422, msg)
                        | Inr _ \<Rightarrow> Inr (key, path, updated)))))"

definition call_set_in :: "externals \<Rightarrow> nat \<Rightarrow> u32 \<Rightarrow> string \<Rightarrow> json \<Rightarrow> ctx \<Rightarrow> ctx" where
  "call_set_in x hid sid call_id args = (\<lambda>(sv, se).
     case nested_update ''state.set_in'' sv args of
       Inl (code, msg) \<Rightarrow> reply_error hid sid code msg (sv, se)
     | Inr (key, path, updated) \<Rightarrow>
         (let (version, sv1) = commit x hid se key updated sv
          in reply_ok hid sid call_id version (sv1, se)))"

definition call_delete :: "externals \<Rightarrow> nat \<Rightarrow> u32 \<Rightarrow> string \<Rightarrow> json \<Rightarrow> ctx \<Rightarrow> ctx" where
  "call_delete x hid sid call_id args = (\<lambda>(sv, se).
     case get_str args ''state'' of
       None \<Rightarrow> reply_error hid sid 400 ''state.delete: missing 'state' key'' (sv, se)
     | Some key \<Rightarrow>
         (case store_delete (x_log x) (sv_state sv) key of
            (None, st) \<Rightarrow> reply_ok hid sid call_id 0 (sv\<lparr>sv_state := st\<rparr>, se)
          | (Some (version, ops), st) \<Rightarrow>
              (let body_mp = encode_delta_body (x_delta x) version ops;
                   sv1 = broadcast_timed key body_mp (Some (s_id se)) (sv\<lparr>sv_state := st\<rparr>);
                   sv2 = deliver_own hid se key body_mp sv1;
                   sv3 = cluster_sync_delete x key body_mp sv2
               in reply_ok hid sid call_id version (sv3, se))))"

definition call_presence :: "externals \<Rightarrow> nat \<Rightarrow> u32 \<Rightarrow> string \<Rightarrow> json \<Rightarrow> ctx \<Rightarrow> ctx" where
  "call_presence x hid sid call_id args = (\<lambda>(sv, se).
     case nested_update ''state.presence'' sv args of
       Inl (code, msg) \<Rightarrow> reply_error hid sid code msg (sv, se)
     | Inr (key, path, updated) \<Rightarrow>
         (let (version, sv1) = commit x hid se key updated sv
          in reply_ok hid sid call_id version (sv1, add_presence key path se)))"

definition handle_call :: "externals \<Rightarrow> nat \<Rightarrow> nat \<Rightarrow> frame \<Rightarrow> ctx \<Rightarrow> ctx" where
  "handle_call x now hid f = (\<lambda>(sv, se).
     let call_id = (case get_str (body f) ''call_id'' of Some s \<Rightarrow> s | None \<Rightarrow> ''unknown'');
         sid = stream_id f
     in case get_str (body f) ''method'' of
          None \<Rightarrow> reply_error hid sid 400 (''CALL: missing 'method'' @ [CHR 0x27]) (sv, se)
        | Some method \<Rightarrow>
            (let args = opt_json (json_get (body f) ''args'');
                 (ok, se1) = take_write_token now se
             in if \<not> ok then reply_error hid sid 429 ''rate limit exceeded'' (sv, se1)
                else if (case get_str args ''state'' of None \<Rightarrow> False | Some key \<Rightarrow> \<not> may_write sv se1 key)
                then reply_error hid sid 403 ''forbidden'' (sv, se1)
                else if method = ''state.set'' then call_set x hid sid call_id args (sv, se1)
                else if method = ''state.patch'' then call_patch x hid sid call_id args (sv, se1)
                else if method = ''state.set_in'' then call_set_in x hid sid call_id args (sv, se1)
                else if method = ''state.delete'' then call_delete x hid sid call_id args (sv, se1)
                else if method = ''state.presence'' then call_presence x hid sid call_id args (sv, se1)
                else reply_error hid sid 404 (''unknown method: '' @ method) (sv, se1)))"

definition handle_frame :: "externals \<Rightarrow> nat \<Rightarrow> nat \<Rightarrow> frame \<Rightarrow> ctx \<Rightarrow> ctx" where
  "handle_frame x now hid f c =
     (if frame_type f = WATCH then handle_watch now hid f c
      else if frame_type f = RESUME then handle_resume x now hid f c
      else if frame_type f = UNWATCH then handle_unwatch f c
      else if frame_type f = CALL then handle_call x now hid f c
      else if frame_type f = ACK
      then (fst c, ack_stream (stream_id f) (case get_u64 (body f) ''seq'' of Some n \<Rightarrow> n | None \<Rightarrow> 0) (snd c))
      else if frame_type f = HEARTBEAT then (send_msg hid (FrameMsg heartbeat) (fst c), snd c)
      else c)"


subsection \<open>What the parts leave alone\<close>

lemma send_msg_simps [simp]:
  "sv_state (send_msg h m sv) = sv_state sv" "sv_bus (send_msg h m sv) = sv_bus sv"
  "sv_schema (send_msg h m sv) = sv_schema sv" "sv_acl (send_msg h m sv) = sv_acl sv"
  "sv_cluster (send_msg h m sv) = sv_cluster sv" "sv_tasks (send_msg h m sv) = sv_tasks sv"
  "sv_net (send_msg h m sv) = snd (net_send h m (sv_net sv))"
  by (simp_all add: send_msg_def)

lemma next_seq_simps [simp]:
  "fst (next_seq se) = seq_counter se + 1" "snd (next_seq se) = se\<lparr>seq_counter := seq_counter se + 1\<rparr>"
  by (simp_all add: next_seq_def Let_def)

lemma reply_error_eq:
  "reply_error h sid code msg (sv, se) =
     (send_msg h (FrameMsg (error sid (seq_counter se + 1) code msg)) sv, se\<lparr>seq_counter := seq_counter se + 1\<rparr>)"
  by (simp add: reply_error_def next_seq_def Let_def)

lemma reply_ok_eq:
  "reply_ok h sid cid version (sv, se) =
     (send_msg h (FrameMsg (result_ok sid (seq_counter se + 1) cid
        (Some (json_obj [(''version'', json_u64 version)])))) sv, se\<lparr>seq_counter := seq_counter se + 1\<rparr>)"
  by (simp add: reply_ok_def next_seq_def Let_def)

text \<open>Taking a token changes nothing of a session but its limiter.\<close>

lemma take_write_token_same:
  "snd (take_write_token now se) = se\<lparr>write_limiter := write_limiter (snd (take_write_token now se))\<rparr>"
  by (simp add: take_write_token_def split_def Let_def split: option.split)

lemma take_watch_token_same:
  "snd (take_watch_token now se) = se\<lparr>watch_limiter := watch_limiter (snd (take_watch_token now se))\<rparr>"
  by (simp add: take_watch_token_def split_def Let_def split: option.split)

lemma token_simps [simp]:
  "s_id (snd (take_write_token now se)) = s_id se" "s_sub (snd (take_write_token now se)) = s_sub se"
  "s_claims (snd (take_write_token now se)) = s_claims se" "watches (snd (take_write_token now se)) = watches se"
  "presence (snd (take_write_token now se)) = presence se"
  "seq_counter (snd (take_write_token now se)) = seq_counter se"
  "next_stream_id (snd (take_write_token now se)) = next_stream_id se"
  "s_id (snd (take_watch_token now se)) = s_id se" "s_sub (snd (take_watch_token now se)) = s_sub se"
  "s_claims (snd (take_watch_token now se)) = s_claims se" "watches (snd (take_watch_token now se)) = watches se"
  "presence (snd (take_watch_token now se)) = presence se"
  "seq_counter (snd (take_watch_token now se)) = seq_counter se"
  "next_stream_id (snd (take_watch_token now se)) = next_stream_id se"
  by (simp_all add: take_write_token_def take_watch_token_def split_def Let_def split: option.split)

lemma may_read_cong:
  "sv_acl sv = sv_acl sv' \<Longrightarrow> s_sub se = s_sub se' \<Longrightarrow> s_claims se = s_claims se' \<Longrightarrow> may_read sv se = may_read sv' se'"
  by (cases "sv_acl sv'") (simp_all add: may_read_def fun_eq_iff)

lemma may_write_cong:
  "sv_acl sv = sv_acl sv' \<Longrightarrow> s_sub se = s_sub se' \<Longrightarrow> s_claims se = s_claims se' \<Longrightarrow> may_write sv se = may_write sv' se'"
  by (cases "sv_acl sv'") (simp_all add: may_write_def fun_eq_iff)

lemma broadcast_timed_simps [simp]:
  "sv_state (broadcast_timed key b ex sv) = sv_state sv" "sv_schema (broadcast_timed key b ex sv) = sv_schema sv"
  "sv_acl (broadcast_timed key b ex sv) = sv_acl sv" "sv_cluster (broadcast_timed key b ex sv) = sv_cluster sv"
  "sv_tasks (broadcast_timed key b ex sv) = sv_tasks sv"
  "sv_bus (broadcast_timed key b ex sv) = fst (broadcast_encoded key b ex (sv_bus sv, sv_net sv))"
  "sv_net (broadcast_timed key b ex sv) = snd (broadcast_encoded key b ex (sv_bus sv, sv_net sv))"
  by (simp_all add: broadcast_timed_def split_def Let_def)

lemma deliver_own_simps [simp]:
  "sv_state (deliver_own h se key b sv) = sv_state sv" "sv_bus (deliver_own h se key b sv) = sv_bus sv"
  "sv_schema (deliver_own h se key b sv) = sv_schema sv" "sv_acl (deliver_own h se key b sv) = sv_acl sv"
  "sv_cluster (deliver_own h se key b sv) = sv_cluster sv" "sv_tasks (deliver_own h se key b sv) = sv_tasks sv"
  by (simp_all add: deliver_own_def split: option.split)

lemma cluster_sync_simps [simp]:
  "sv_state (cluster_sync x key v w b sv) = sv_state sv" "sv_bus (cluster_sync x key v w b sv) = sv_bus sv"
  "sv_net (cluster_sync x key v w b sv) = sv_net sv" "sv_schema (cluster_sync x key v w b sv) = sv_schema sv"
  "sv_acl (cluster_sync x key v w b sv) = sv_acl sv"
  "sv_state (cluster_sync_delete x key b sv) = sv_state sv" "sv_bus (cluster_sync_delete x key b sv) = sv_bus sv"
  "sv_net (cluster_sync_delete x key b sv) = sv_net sv" "sv_schema (cluster_sync_delete x key b sv) = sv_schema sv"
  "sv_acl (cluster_sync_delete x key b sv) = sv_acl sv"
  by (simp_all add: cluster_sync_def cluster_sync_delete_def split: option.split)

lemma commit_parts [simp]:
  "sv_state (snd (commit x h se key v sv)) = snd (store_apply (x_log x) (sv_state sv) key v)"
  "sv_schema (snd (commit x h se key v sv)) = sv_schema sv" "sv_acl (snd (commit x h se key v sv)) = sv_acl sv"
  by (simp_all add: commit_def split_def Let_def)

lemma check_schema_cong: "sv_schema sv = sv_schema sv' \<Longrightarrow> check_schema sv = check_schema sv'"
  by (simp add: check_schema_def fun_eq_iff)

subsection \<open>The outcome of a CALL\<close>

text \<open>
  What a method can do, as a specification: refuse with an error, store a value under a key (and
  possibly bind a presence path), or delete a key. \<open>plan\<close> is the decision a method takes before it acts.
\<close>

datatype plan =
    Refuse u32 string
  | Store string json "string option"
  | Drop string

definition plan_of :: "string \<Rightarrow> json \<Rightarrow> server \<Rightarrow> plan" where
  "plan_of method args sv =
     (let guarded = (\<lambda>key v p. case check_schema sv key v of Inl msg \<Rightarrow> Refuse 422 msg | Inr _ \<Rightarrow> Store key v p);
          nested = (\<lambda>p. case nested_update method sv args of
                          Inl (code, msg) \<Rightarrow> Refuse code msg
                        | Inr (key, path, v) \<Rightarrow> Store key v (if p then Some path else None))
      in if method = ''state.set''
         then (case extract_state_and_value args method of
                 Inl msg \<Rightarrow> Refuse 400 msg
               | Inr (key, v) \<Rightarrow> guarded key v None)
         else if method = ''state.patch''
         then (case get_str args ''state'' of
                 None \<Rightarrow> Refuse 400 ''state.patch: missing 'state' key''
               | Some key \<Rightarrow>
                   (case json_get args ''patch'' of
                      Some (Object p) \<Rightarrow>
                        guarded key (json_merge (case store_get (sv_state sv) key of Some e \<Rightarrow> e_value e | None \<Rightarrow> Object []) (Object p)) None
                    | _ \<Rightarrow> Refuse 400 ''state.patch: 'patch' must be an object''))
         else if method = ''state.set_in'' then nested False
         else if method = ''state.delete''
         then (case get_str args ''state'' of
                 None \<Rightarrow> Refuse 400 ''state.delete: missing 'state' key''
               | Some key \<Rightarrow> Drop key)
         else if method = ''state.presence'' then nested True
         else Refuse 404 (''unknown method: '' @ method))"

definition drop_key :: "externals \<Rightarrow> nat \<Rightarrow> session \<Rightarrow> string \<Rightarrow> server \<Rightarrow> u64 \<times> server" where
  "drop_key x hid se key sv =
     (case store_delete (x_log x) (sv_state sv) key of
        (None, st) \<Rightarrow> (0, sv\<lparr>sv_state := st\<rparr>)
      | (Some (version, ops), st) \<Rightarrow>
          (let b = encode_delta_body (x_delta x) version ops
           in (version, cluster_sync_delete x key b
                 (deliver_own hid se key b (broadcast_timed key b (Some (s_id se)) (sv\<lparr>sv_state := st\<rparr>))))))"

definition execute :: "externals \<Rightarrow> nat \<Rightarrow> u32 \<Rightarrow> string \<Rightarrow> plan \<Rightarrow> ctx \<Rightarrow> ctx" where
  "execute x hid sid call_id p = (\<lambda>(sv, se).
     case p of
       Refuse code msg \<Rightarrow> reply_error hid sid code msg (sv, se)
     | Store key v path \<Rightarrow>
         reply_ok hid sid call_id (fst (commit x hid se key v sv))
           (snd (commit x hid se key v sv), case path of None \<Rightarrow> se | Some q \<Rightarrow> add_presence key q se)
     | Drop key \<Rightarrow> reply_ok hid sid call_id (fst (drop_key x hid se key sv)) (snd (drop_key x hid se key sv), se))"

lemma call_set_plan: "call_set x h sid cid args (sv, se) = execute x h sid cid (plan_of ''state.set'' args sv) (sv, se)"
  by (simp add: call_set_def plan_of_def execute_def split_def Let_def split: sum.split)

lemma call_patch_plan: "call_patch x h sid cid args (sv, se) = execute x h sid cid (plan_of ''state.patch'' args sv) (sv, se)"
  by (simp add: call_patch_def plan_of_def execute_def split_def Let_def split: sum.split option.split json.split)

lemma call_set_in_plan: "call_set_in x h sid cid args (sv, se) = execute x h sid cid (plan_of ''state.set_in'' args sv) (sv, se)"
  by (simp add: call_set_in_def plan_of_def execute_def split_def Let_def split: sum.split)

lemma call_presence_plan:
  "call_presence x h sid cid args (sv, se) = execute x h sid cid (plan_of ''state.presence'' args sv) (sv, se)"
  by (simp add: call_presence_def plan_of_def execute_def split_def Let_def split: sum.split)

lemma call_delete_plan: "call_delete x h sid cid args (sv, se) = execute x h sid cid (plan_of ''state.delete'' args sv) (sv, se)"
  by (simp add: call_delete_def plan_of_def execute_def drop_key_def split_def Let_def split: option.split)

lemma plan_of_unknown:
  "method \<notin> {''state.set'', ''state.patch'', ''state.set_in'', ''state.delete'', ''state.presence''} \<Longrightarrow>
     plan_of method args sv = Refuse 404 (''unknown method: '' @ method)"
  by (simp add: plan_of_def)

text \<open>A CALL is refused at the door or executes the plan of its method.\<close>

lemma handle_call_plan:
  "handle_call x now h f (sv, se) =
     (let cid = (case get_str (body f) ''call_id'' of Some s \<Rightarrow> s | None \<Rightarrow> ''unknown'');
          args = opt_json (json_get (body f) ''args'');
          se1 = snd (take_write_token now se)
      in case get_str (body f) ''method'' of
           None \<Rightarrow> execute x h (stream_id f) cid (Refuse 400 (''CALL: missing 'method'' @ [CHR 0x27])) (sv, se)
         | Some method \<Rightarrow>
             execute x h (stream_id f) cid
               (if \<not> fst (take_write_token now se) then Refuse 429 ''rate limit exceeded''
                else if (case get_str args ''state'' of None \<Rightarrow> False | Some key \<Rightarrow> \<not> may_write sv se key)
                then Refuse 403 ''forbidden''
                else plan_of method args sv) (sv, se1))"
proof -
  have mw: "may_write sv (snd (take_write_token now se)) = may_write sv se"
    by (rule may_write_cong) simp_all
  have refuse: "execute x h sid cid (Refuse code msg) c = reply_error h sid code msg c" for sid cid code msg c
    by (simp add: execute_def split_def)
  show ?thesis
    by (simp add: handle_call_def Let_def split_def mw refuse call_set_plan call_patch_plan call_set_in_plan
        call_delete_plan call_presence_plan plan_of_unknown split: option.split)
qed


lemma nested_update_ok:
  "nested_update m sv args = Inr (key, path, v) \<Longrightarrow> get_str args ''state'' = Some key \<and> check_schema sv key v = Inr ()"
  by (auto simp: nested_update_def Let_def split: option.splits sum.splits)

lemma plan_store:
  "plan_of method args sv = Store key v p \<Longrightarrow> get_str args ''state'' = Some key \<and> check_schema sv key v = Inr ()"
  by (auto simp: plan_of_def Let_def extract_state_and_value_def dest: nested_update_ok
      split: if_splits option.splits sum.splits json.splits prod.splits)

lemma plan_drop: "plan_of method args sv = Drop key \<Longrightarrow> get_str args ''state'' = Some key"
  by (auto simp: plan_of_def Let_def split: if_splits option.splits sum.splits json.splits prod.splits)

lemma drop_key_parts [simp]:
  "sv_state (snd (drop_key x h se key sv)) = snd (store_delete (x_log x) (sv_state sv) key)"
  "sv_schema (snd (drop_key x h se key sv)) = sv_schema sv" "sv_acl (snd (drop_key x h se key sv)) = sv_acl sv"
  by (simp_all add: drop_key_def split_def Let_def split: prod.split option.split)

lemma execute_config [simp]:
  "sv_schema (fst (execute x h sid cid p (sv, se))) = sv_schema sv"
  "sv_acl (fst (execute x h sid cid p (sv, se))) = sv_acl sv"
  by (simp_all add: execute_def reply_error_eq reply_ok_eq split: plan.split)

lemma execute_state:
  "store_get (sv_state (fst (execute x h sid cid p (sv, se)))) k =
     (case p of
        Refuse _ _ \<Rightarrow> store_get (sv_state sv) k
      | Store key v _ \<Rightarrow> if k = key then Some \<lparr>e_version = st_version (sv_state sv) + 1, e_value = v\<rparr> else store_get (sv_state sv) k
      | Drop key \<Rightarrow> if k = key then None else store_get (sv_state sv) k)"
  by (simp add: execute_def reply_error_eq reply_ok_eq store_get_apply store_get_delete split: plan.split)

lemma reply_parts [simp]:
  "sv_state (fst (reply_error h sid code msg c)) = sv_state (fst c)"
  "sv_schema (fst (reply_error h sid code msg c)) = sv_schema (fst c)"
  "sv_acl (fst (reply_error h sid code msg c)) = sv_acl (fst c)"
  "sv_bus (fst (reply_error h sid code msg c)) = sv_bus (fst c)"
  "snd (reply_error h sid code msg c) = (snd c)\<lparr>seq_counter := seq_counter (snd c) + 1\<rparr>"
  by (cases c, simp add: reply_error_eq)+

lemma open_stream_eq:
  "open_stream h key ps c =
     (next_stream_id (snd c),
      (fst c)\<lparr>sv_bus := subscribe key \<lparr>sub_session = s_id (snd c), sub_stream = next_stream_id (snd c), sub_write = h\<rparr>
                (sv_bus (fst c))\<rparr>,
      add_watch (next_stream_id (snd c)) key ps ((snd c)\<lparr>next_stream_id := next_stream_id (snd c) + 1\<rparr>))"
  by (cases c) (simp add: open_stream_def allocate_stream_def add_watch_def Let_def)

lemma send_state_init_parts [simp]:
  "sv_state (fst (send_state_init h key sid ps c)) = sv_state (fst c)"
  "sv_schema (fst (send_state_init h key sid ps c)) = sv_schema (fst c)"
  "sv_acl (fst (send_state_init h key sid ps c)) = sv_acl (fst c)"
  "sv_bus (fst (send_state_init h key sid ps c)) = sv_bus (fst c)"
  "snd (send_state_init h key sid ps c) = (snd c)\<lparr>seq_counter := seq_counter (snd c) + 1\<rparr>"
  by (cases c, simp add: send_state_init_def split_def Let_def)+

lemma subscribe_key_eq:
  "subscribe_key h key ps c =
     send_state_init h key (fst (open_stream h key ps c)) ps (snd (open_stream h key ps c))"
  by (simp add: subscribe_key_def split_def Let_def)

lemma subscribe_key_parts [simp]:
  "sv_state (fst (subscribe_key h key ps c)) = sv_state (fst c)"
  "sv_schema (fst (subscribe_key h key ps c)) = sv_schema (fst c)"
  "sv_acl (fst (subscribe_key h key ps c)) = sv_acl (fst c)"
  by (simp_all add: subscribe_key_eq open_stream_eq)

lemma watch_keys_parts [simp]:
  "sv_state (fst (watch_keys h ps keys c)) = sv_state (fst c)"
  "sv_schema (fst (watch_keys h ps keys c)) = sv_schema (fst c)"
  "sv_acl (fst (watch_keys h ps keys c)) = sv_acl (fst c)"
  by (induction keys arbitrary: c) simp_all

lemma unwatch_keys_parts [simp]:
  "sv_state (fst (unwatch_keys keys c)) = sv_state (fst c)"
  "sv_schema (fst (unwatch_keys keys c)) = sv_schema (fst c)"
  "sv_acl (fst (unwatch_keys keys c)) = sv_acl (fst c)"
  by (induction keys c rule: unwatch_keys.induct) (simp_all split: option.split)

lemma replay_missed_Cons:
  "replay_missed x h sid (d # ms) c =
     replay_missed x h sid ms
       (send_msg h (Bytes (delta_bytes sid (seq_counter (snd c) + 1) (encode_delta_body (x_delta x) (fst d) (snd d)))) (fst c),
        (snd c)\<lparr>seq_counter := seq_counter (snd c) + 1\<rparr>)"
  by (cases c; cases d) (simp add: next_seq_def Let_def)

lemma replay_missed_parts [simp]:
  "sv_state (fst (replay_missed x h sid ms c)) = sv_state (fst c)"
  "sv_schema (fst (replay_missed x h sid ms c)) = sv_schema (fst c)"
  "sv_acl (fst (replay_missed x h sid ms c)) = sv_acl (fst c)"
  "sv_bus (fst (replay_missed x h sid ms c)) = sv_bus (fst c)"
  by (induction ms arbitrary: c) (simp_all add: replay_missed_Cons)


lemma handle_watch_parts [simp]:
  "sv_state (fst (handle_watch now h f c)) = sv_state (fst c)"
  "sv_schema (fst (handle_watch now h f c)) = sv_schema (fst c)"
  "sv_acl (fst (handle_watch now h f c)) = sv_acl (fst c)"
  by (cases c, simp add: handle_watch_def split_def Let_def split: option.split)+

lemma handle_resume_parts [simp]:
  "sv_state (fst (handle_resume x now h f c)) = sv_state (fst c)"
  "sv_schema (fst (handle_resume x now h f c)) = sv_schema (fst c)"
  "sv_acl (fst (handle_resume x now h f c)) = sv_acl (fst c)"
  by (cases c, simp add: handle_resume_def open_stream_eq split_def Let_def split: option.split)+

lemma handle_unwatch_parts [simp]:
  "sv_state (fst (handle_unwatch f c)) = sv_state (fst c)"
  "sv_schema (fst (handle_unwatch f c)) = sv_schema (fst c)"
  "sv_acl (fst (handle_unwatch f c)) = sv_acl (fst c)"
  by (simp_all add: handle_unwatch_def split: option.split)

lemma handle_call_config [simp]:
  "sv_schema (fst (handle_call x now h f (sv, se))) = sv_schema sv"
  "sv_acl (fst (handle_call x now h f (sv, se))) = sv_acl sv"
  by (simp_all add: handle_call_plan Let_def split: option.split)

lemma handle_frame_config [simp]:
  "sv_schema (fst (handle_frame x now h f c)) = sv_schema (fst c)"
  "sv_acl (fst (handle_frame x now h f c)) = sv_acl (fst c)"
  by (cases c, simp add: handle_frame_def)+

text \<open>What a plan does to the stored entries, and when the server lets a session carry it out.\<close>

definition plan_effect :: "plan \<Rightarrow> state_store \<Rightarrow> string \<Rightarrow> state_entry option" where
  "plan_effect p st k =
     (case p of
        Refuse _ _ \<Rightarrow> store_get st k
      | Store key v _ \<Rightarrow> if k = key then Some \<lparr>e_version = st_version st + 1, e_value = v\<rparr> else store_get st k
      | Drop key \<Rightarrow> if k = key then None else store_get st k)"

definition plan_admitted :: "server \<Rightarrow> session \<Rightarrow> plan \<Rightarrow> bool" where
  "plan_admitted sv se p =
     (case p of
        Refuse _ _ \<Rightarrow> True
      | Store key v _ \<Rightarrow> may_write sv se key \<and> check_schema sv key v = Inr ()
      | Drop key \<Rightarrow> may_write sv se key)"

lemma plan_of_admitted:
  assumes "\<not> (case get_str args ''state'' of None \<Rightarrow> False | Some key \<Rightarrow> \<not> may_write sv se key)"
  shows "plan_admitted sv se (plan_of meth args sv)"
  using assms plan_store [of meth args sv] plan_drop [of meth args sv]
  by (cases "plan_of meth args sv") (auto simp: plan_admitted_def)

lemma handle_call_executes:
  obtains cid p se1 where "handle_call x now h f (sv, se) = execute x h (stream_id f) cid p (sv, se1)"
    "plan_admitted sv se p" "se1 = se \<or> se1 = snd (take_write_token now se)"
proof (cases "get_str (body f) ''method''")
  case None
  show thesis
    by (rule that [of _ "Refuse 400 (''CALL: missing 'method'' @ [CHR 0x27])" se])
      (simp_all add: None handle_call_plan plan_admitted_def Let_def)
next
  case (Some meth)
  let ?args = "opt_json (json_get (body f) ''args'')"
  let ?p = "if \<not> fst (take_write_token now se) then Refuse 429 ''rate limit exceeded''
      else if (case get_str ?args ''state'' of None \<Rightarrow> False | Some key \<Rightarrow> \<not> may_write sv se key)
      then Refuse 403 ''forbidden'' else plan_of meth ?args sv"
  show thesis
  proof (rule that [of _ ?p "snd (take_write_token now se)"])
    show "plan_admitted sv se ?p"
      using plan_of_admitted [where meth = meth and args = ?args and sv = sv and se = se]
      by (simp add: plan_admitted_def)
  qed (unfold handle_call_plan Let_def Some option.case, rule refl, simp)
qed

lemma handle_call_effect:
  obtains p where "plan_admitted sv se p"
    "\<And>k. store_get (sv_state (fst (handle_call x now h f (sv, se)))) k = plan_effect p (sv_state sv) k"
  using handle_call_executes [of x now h f sv se] by (metis execute_state plan_effect_def)

lemma handle_frame_effect:
  obtains p where "plan_admitted (fst c) (snd c) p"
    "\<And>k. store_get (sv_state (fst (handle_frame x now h f c))) k = plan_effect p (sv_state (fst c)) k"
proof (cases "frame_type f = CALL")
  case True
  obtain sv se where c: "c = (sv, se)"
    by (cases c)
  from True have "handle_frame x now h f c = handle_call x now h f (sv, se)"
    by (simp add: handle_frame_def frame_type_defs c)
  with handle_call_effect [of sv se x now h f] that show thesis
    unfolding c fst_conv snd_conv by metis
next
  case False
  then have "sv_state (fst (handle_frame x now h f c)) = sv_state (fst c)"
    by (simp add: handle_frame_def)
  then show thesis
    by (intro that [of "Refuse 0 []"]) (simp_all add: plan_admitted_def plan_effect_def)
qed

text \<open>Every stored value satisfies the schema.\<close>

definition schema_respected :: "server \<Rightarrow> bool" where
  "schema_respected sv \<longleftrightarrow>
     (\<forall>k e. store_get (sv_state sv) k = Some e \<longrightarrow> check_schema sv k (e_value e) = Inr ())"

lemma schema_respected_frame:
  assumes "schema_respected sv"
  shows "schema_respected (fst (handle_frame x now h f (sv, se)))"
proof -
  obtain p where p: "plan_admitted sv se p"
    "\<And>k. store_get (sv_state (fst (handle_frame x now h f (sv, se)))) k = plan_effect p (sv_state sv) k"
    using handle_frame_effect [of "(sv, se)" x now h f] by (metis fst_conv snd_conv)
  have "check_schema (fst (handle_frame x now h f (sv, se))) = check_schema sv"
    by (rule check_schema_cong) simp
  with assms p show ?thesis
    by (cases p) (auto simp: schema_respected_def plan_admitted_def plan_effect_def split: if_splits)
qed

subsection \<open>Properties of the handlers\<close>

text \<open>
  Write authorisation. With an access-control list, whatever frame a session sends, the entry of a key
  changes only if that list grants the session write access to that key; without a list every key may change.
\<close>

theorem acl_write_safety:
  assumes "store_get (sv_state (fst (handle_frame x now h f (sv, se)))) key \<noteq> store_get (sv_state sv) key"
  shows "may_write sv se key"
proof -
  obtain p where "plan_admitted sv se p"
    "store_get (sv_state (fst (handle_frame x now h f (sv, se)))) key = plan_effect p (sv_state sv) key"
    using handle_frame_effect [of "(sv, se)" x now h f] by (metis fst_conv snd_conv)
  with assms show ?thesis
    by (cases p) (auto simp: plan_admitted_def plan_effect_def split: if_splits)
qed

text \<open>
  C17. Schema safety. If every stored value satisfies the schema, it still does after any frame of
  any session.
\<close>

theorem schema_safety:
  assumes "schema_respected sv"
  shows "schema_respected (fst (handle_frame x now h f (sv, se)))"
  using schema_respected_frame [OF assms] .


subsection \<open>A concrete server for the witnesses\<close>

definition demo_ext :: externals where
  "demo_ext =
     \<lparr>x_log = (\<lambda>_. None), x_delta = (\<lambda>v ops. Some [ucast v]), x_value = (\<lambda>_. Some []), x_peer = (\<lambda>_. Some []), x_pdec = (\<lambda>_. None),
      x_fenc = (\<lambda>_. Some []), x_fdec = (\<lambda>_. None), x_rsa_pem = (\<lambda>_. Inl []), x_jwt = (\<lambda>_ _ _ _ _. Inl [])\<rparr>"

definition demo_server :: "acl_registry option \<Rightarrow> schema_registry option \<Rightarrow> server" where
  "demo_server acl schema =
     \<lparr>sv_state = store_new, sv_bus = bus_new, sv_net = \<lparr>net_handles = [(0, new_task 16), (1, new_task 16)], net_pool = []\<rparr>,
      sv_schema = schema, sv_acl = acl, sv_jwt = None, sv_connections = 1, sv_max_connections = None,
      sv_max_frame_bytes = 64, sv_ws_ping_interval = 25, sv_rate_writes = None, sv_rate_watches = None,
      sv_cluster = None, sv_tasks = [], sv_backpressure_limit = 16, sv_write_mode = TaskMode\<rparr>"

definition demo_session :: "string \<Rightarrow> session" where
  "demo_session name = session_new name 0 None None"

definition call_frame :: "string \<Rightarrow> (string \<times> json) list \<Rightarrow> frame" where
  "call_frame method args =
     \<lparr>frame_type = CALL, stream_id = 3, seq = 1,
      body = Object [(''args'', Object args), (''call_id'', String ''c''), (''method'', String method)]\<rparr>"

definition open_acl :: acl_registry where
  "open_acl = \<lparr>rules = [\<lparr>r_key = ''k'', r_read = ''*'', r_write = ''*''\<rparr>], mappings = []\<rparr>"

lemma open_acl_k: "can_read open_acl ''k'' sub cl" "can_write open_acl ''k'' sub cl"
  by (simp_all add: can_read_def can_write_def check_def open_acl_def match_pattern_def check_permission_def)

lemma demo_set_effect:
  "store_get (sv_state (fst (handle_frame demo_ext 0 0
      (call_frame ''state.set'' [(''state'', String ''k''), (''value'', Bool True)]) (demo_server (Some open_acl) sch, demo_session ''a'')))) ''k'' =
     (if check_schema (demo_server (Some open_acl) sch) ''k'' (Bool True) = Inr ()
      then Some \<lparr>e_version = 1, e_value = Bool True\<rparr> else None)"
proof -
  have mw: "may_write (demo_server (Some open_acl) sch) (demo_session ''a'') ''k''"
    by (simp add: may_write_def demo_server_def open_acl_k)
  have tok: "take_write_token 0 (demo_session ''a'') = (True, demo_session ''a'')"
    by (simp add: take_write_token_def demo_session_def session_new_def)
  have frame: "handle_frame demo_ext 0 0 (call_frame m args) c = handle_call demo_ext 0 0 (call_frame m args) c" for m args c
    by (simp add: handle_frame_def call_frame_def frame_type_defs)
  have st: "sv_state (demo_server (Some open_acl) sch) = store_new"
    by (simp add: demo_server_def)
  have new: "store_get store_new ''k'' = None" "st_version store_new = 0"
    by (simp_all add: store_get_def store_new_def)
  show ?thesis
    unfolding frame handle_call_plan
    by (cases "check_schema (demo_server (Some open_acl) sch) ''k'' (Bool True)")
      (simp_all add: call_frame_def get_str_def opt_json_def mw tok execute_state plan_of_def
        extract_state_and_value_def st new)
qed

theorem acl_write_safety_witness:
  "store_get (sv_state (fst (handle_frame demo_ext 0 0
      (call_frame ''state.set'' [(''state'', String ''k''), (''value'', Bool True)]) (demo_server (Some open_acl) None, demo_session ''a'')))) ''k''
     \<noteq> store_get (sv_state (demo_server (Some open_acl) None)) ''k'' \<and>
   may_write (demo_server (Some open_acl) None) (demo_session ''a'') ''k''"
proof -
  have "store_get (sv_state (fst (handle_frame demo_ext 0 0
      (call_frame ''state.set'' [(''state'', String ''k''), (''value'', Bool True)]) (demo_server (Some open_acl) None, demo_session ''a'')))) ''k''
     \<noteq> store_get (sv_state (demo_server (Some open_acl) None)) ''k''"
    unfolding demo_set_effect by (simp add: check_schema_def demo_server_def store_get_def store_new_def)
  with acl_write_safety [OF this] show ?thesis
    by simp
qed

theorem schema_safety_witness:
  "schema_respected (fst (handle_frame demo_ext 0 0
      (call_frame ''state.set'' [(''state'', String ''k''), (''value'', Bool True)])
      (demo_server (Some open_acl) (Some [(''k'', Simple ''Bool'')]), demo_session ''a'')))"
  by (rule schema_safety) (simp add: schema_respected_def demo_server_def store_get_def store_new_def)


end
