(* ===== verification/Server_Safety.thy ===== *)
theory Server_Safety
  imports Sodp_Server
begin

section \<open>What a session can learn and what it is answered\<close>

text \<open>
  Safety and functional properties of the frame handlers of \<^theory_text>\<open>Sodp_Server\<close>: a session only
  gets subscribed to keys it may read, every CALL is answered exactly once, a refused CALL leaves no trace in the shared
  state, and RESUME sends the missed deltas followed by the current value.
\<close>

subsection \<open>Subscriptions\<close>

text \<open>The subscriptions after a step are old ones or granted to the acting session.\<close>

definition granted :: "nat \<Rightarrow> ctx \<Rightarrow> fanout_bus \<Rightarrow> bool" where
  "granted h c bus \<longleftrightarrow>
     (\<forall>k. \<forall>s \<in> set (subscribers bus k).
        s \<in> set (subscribers (sv_bus (fst c)) k) \<or>
        sub_session s = s_id (snd c) \<and> sub_write s = h \<and> may_read (fst c) (snd c) k)"

text \<open>Same identity: what the access checks of a session look at.\<close>

definition same_party :: "ctx \<Rightarrow> ctx \<Rightarrow> bool" where
  "same_party c c' \<longleftrightarrow>
     s_id (snd c') = s_id (snd c) \<and> s_sub (snd c') = s_sub (snd c) \<and> s_claims (snd c') = s_claims (snd c) \<and>
     sv_acl (fst c') = sv_acl (fst c)"

lemma same_party_refl [simp]: "same_party c c"
  by (simp add: same_party_def)

lemma same_party_trans: "same_party c c' \<Longrightarrow> same_party c' c'' \<Longrightarrow> same_party c c''"
  by (simp add: same_party_def)

lemma same_party_read: "same_party c c' \<Longrightarrow> may_read (fst c') (snd c') = may_read (fst c) (snd c)"
  by (rule may_read_cong) (simp_all add: same_party_def)

lemma granted_refl [simp]: "granted h c (sv_bus (fst c))"
  by (simp add: granted_def)

lemma granted_trans:
  assumes "granted h c (sv_bus (fst c'))" and "same_party c c'" and "granted h c' bus"
  shows "granted h c bus"
  using assms same_party_read [OF assms(2)] unfolding granted_def same_party_def by metis

lemma granted_subset:
  "(\<And>k. set (subscribers bus k) \<subseteq> set (subscribers (sv_bus (fst c)) k)) \<Longrightarrow> granted h c bus"
  by (auto simp: granted_def)

lemma subscribe_key_granted:
  assumes "may_read (fst c) (snd c) key"
  shows "granted h c (sv_bus (fst (subscribe_key h key ps c)))" and "same_party c (subscribe_key h key ps c)"
  using assms
  by (auto simp: granted_def same_party_def subscribe_key_eq open_stream_eq subscribers_subscribe add_watch_def
      split: if_splits)

lemma reply_error_granted:
  "granted h c (sv_bus (fst (reply_error h sid code msg c)))" "same_party c (reply_error h sid code msg c)"
  by (simp_all add: granted_def same_party_def)

lemma watch_keys_granted:
  "granted h c (sv_bus (fst (watch_keys h ps keys c))) \<and> same_party c (watch_keys h ps keys c)"
proof (induction keys arbitrary: c)
  case (Cons key keys)
  let ?c = "if \<not> may_read (fst c) (snd c) key then reply_error h 0 403 (''forbidden: '' @ key) c
            else subscribe_key h key ps c"
  have "granted h c (sv_bus (fst ?c))" "same_party c ?c"
    using subscribe_key_granted [of c key h ps] reply_error_granted by auto
  with Cons.IH [of ?c] show ?case
    using granted_trans [of h c ?c] same_party_trans [of c ?c] by (simp del: append.simps)
qed simp

lemma unwatch_keys_granted: "granted h c (sv_bus (fst (unwatch_keys keys c)))"
proof (rule granted_subset)
  show "set (subscribers (sv_bus (fst (unwatch_keys keys c))) k) \<subseteq> set (subscribers (sv_bus (fst c)) k)" for k
    by (induction keys c rule: unwatch_keys.induct)
      (auto simp: subscribers_unsubscribe split: option.splits if_splits dest!: subsetD)
qed

lemma commit_subset: "set (subscribers (sv_bus (snd (commit x h se key v sv))) k) \<subseteq> set (subscribers (sv_bus sv) k)"
  using broadcast_subset by (auto simp: commit_def split_def Let_def)

lemma drop_key_subset: "set (subscribers (sv_bus (snd (drop_key x h se key sv))) k) \<subseteq> set (subscribers (sv_bus sv) k)"
  using broadcast_subset by (auto simp: drop_key_def split_def Let_def split: prod.splits option.splits)

lemma execute_subset:
  "set (subscribers (sv_bus (fst (execute x h sid cid p (sv, se)))) k) \<subseteq> set (subscribers (sv_bus sv) k)"
  using commit_subset drop_key_subset by (auto simp: execute_def reply_error_eq reply_ok_eq split: plan.splits)

lemma handle_call_granted: "granted h c (sv_bus (fst (handle_call x now h f c)))"
proof (cases c)
  case (Pair sv se)
  show ?thesis
    unfolding Pair
  proof (rule granted_subset)
    show "set (subscribers (sv_bus (fst (handle_call x now h f (sv, se)))) k) \<subseteq> set (subscribers (sv_bus (fst (sv, se))) k)" for k
      by (rule handle_call_executes [of x now h f sv se]) (simp add: execute_subset)
  qed
qed

lemma granted_session:
  "s_id se' = s_id se \<Longrightarrow> s_sub se' = s_sub se \<Longrightarrow> s_claims se' = s_claims se \<Longrightarrow>
     granted h (sv, se') bus = granted h (sv, se) bus"
  using may_read_cong [of sv sv se' se] by (simp add: granted_def)

lemma handle_watch_granted: "granted h c (sv_bus (fst (handle_watch now h f c)))"
proof (cases c)
  case (Pair sv se)
  let ?se = "snd (take_watch_token now se)"
  have "granted h (sv, ?se) (sv_bus (fst (handle_watch now h f c)))"
    using watch_keys_granted [of h "(sv, ?se)"] reply_error_granted(1) [of h "(sv, ?se)"]
    by (auto simp: Pair handle_watch_def split_def Let_def split: option.split)
  then show ?thesis
    by (simp add: Pair granted_session [of ?se se])
qed

lemma handle_resume_granted: "granted h c (sv_bus (fst (handle_resume x now h f c)))"
proof (cases c)
  case (Pair sv se)
  let ?se = "snd (take_watch_token now se)"
  have "granted h (sv, ?se) (sv_bus (fst (handle_resume x now h f c)))"
    using subscribe_key_granted(1) [of "(sv, ?se)" _ h] reply_error_granted(1) [of h "(sv, ?se)"]
    by (auto simp: Pair handle_resume_def subscribe_key_eq split_def Let_def split: option.split)
  then show ?thesis
    by (simp add: Pair granted_session [of ?se se])
qed

lemma handle_frame_granted: "granted h c (sv_bus (fst (handle_frame x now h f c)))"
  using handle_watch_granted handle_resume_granted handle_call_granted unwatch_keys_granted
  by (simp add: handle_frame_def handle_unwatch_def split: option.split)

subsection \<open>What a handle is sent\<close>

lemma carried_send:
  assumes "\<not> net_dead (snd (net_send h m net)) h"
  shows "net_carried (snd (net_send h m net)) h = net_carried net h @ [m]" and "\<not> net_dead net h"
  using assms net_send_effect [of h m net] by (auto split: if_splits)

text \<open>The handle of a session serves subscriptions of that session only.\<close>

definition owns :: "nat \<Rightarrow> session \<Rightarrow> fanout_bus \<Rightarrow> bool" where
  "owns h se bus \<longleftrightarrow> (\<forall>k. \<forall>s \<in> set (subscribers bus k). sub_write s = h \<longrightarrow> sub_session s = s_id se)"

lemma broadcast_own:
  assumes "owns h se bus"
  shows "net_carried (snd (broadcast_encoded key b (Some (s_id se)) (bus, net))) h = net_carried net h"
    and "net_dead (snd (broadcast_encoded key b (Some (s_id se)) (bus, net))) h = net_dead net h"
proof -
  have "\<forall>s \<in> set (audience key (Some (s_id se)) bus). sub_write s \<noteq> h"
    using assms by (auto simp: owns_def audience_def)
  from net_sink.send_each_untouched [OF this]
  show "net_carried (snd (broadcast_encoded key b (Some (s_id se)) (bus, net))) h = net_carried net h"
    "net_dead (snd (broadcast_encoded key b (Some (s_id se)) (bus, net))) h = net_dead net h"
    unfolding broadcast_net by blast+
qed

text \<open>The delta a session gets of its own change.\<close>

definition own_delta :: "session \<Rightarrow> string \<Rightarrow> bytes \<Rightarrow> outbound_msg list" where
  "own_delta se key b =
     (case watch_stream_id key se of None \<Rightarrow> [] | Some sid \<Rightarrow> [Bytes (delta_bytes sid 0 b)])"

lemma deliver_own_carried:
  assumes "\<not> net_dead (sv_net (deliver_own h se key b sv)) h"
  shows "net_carried (sv_net (deliver_own h se key b sv)) h = net_carried (sv_net sv) h @ own_delta se key b"
    and "\<not> net_dead (sv_net sv) h"
  using assms carried_send [of h "Bytes (delta_bytes (the (watch_stream_id key se)) 0 b)" "sv_net sv"]
  by (auto simp: deliver_own_def own_delta_def split: option.splits)

lemma commit_carried:
  assumes "owns h se (sv_bus sv)" and "\<not> net_dead (sv_net (snd (commit x h se key v sv))) h"
  shows "net_carried (sv_net (snd (commit x h se key v sv))) h = net_carried (sv_net sv) h @
           (if snd (fst (store_apply (x_log x) (sv_state sv) key v)) = [] then []
            else own_delta se key (encode_delta_body (x_delta x) (fst (fst (store_apply (x_log x) (sv_state sv) key v)))
                   (snd (fst (store_apply (x_log x) (sv_state sv) key v)))))"
proof -
  obtain version ops st where a: "store_apply (x_log x) (sv_state sv) key v = ((version, ops), st)"
    by (metis prod.collapse)
  show ?thesis
  proof (cases "ops = []")
    case True
    then show ?thesis
      by (simp add: commit_def a)
  next
    case False
    let ?b = "encode_delta_body (x_delta x) version ops"
    let ?sv2 = "broadcast_timed key ?b (Some (s_id se)) (sv\<lparr>sv_state := st\<rparr>)"
    have net: "sv_net (snd (commit x h se key v sv)) = sv_net (deliver_own h se key ?b ?sv2)"
      using False by (simp add: commit_def a Let_def)
    show ?thesis
      using deliver_own_carried(1) [of h se key ?b ?sv2] assms(2) broadcast_own [OF assms(1), of key ?b] False
      unfolding net by (simp add: a)
  qed
qed

lemma drop_key_carried:
  assumes "owns h se (sv_bus sv)" and "\<not> net_dead (sv_net (snd (drop_key x h se key sv))) h"
  shows "\<exists>own. net_carried (sv_net (snd (drop_key x h se key sv))) h = net_carried (sv_net sv) h @ own \<and>
           own \<in> {[]} \<union> range (own_delta se key)"
proof (cases "store_delete (x_log x) (sv_state sv) key")
  case (Pair r st)
  show ?thesis
  proof (cases r)
    case None
    then show ?thesis
      by (simp add: drop_key_def Pair)
  next
    case (Some vo)
    obtain version ops where vo: "vo = (version, ops)"
      by (cases vo)
    let ?b = "encode_delta_body (x_delta x) version ops"
    let ?sv2 = "broadcast_timed key ?b (Some (s_id se)) (sv\<lparr>sv_state := st\<rparr>)"
    have net: "sv_net (snd (drop_key x h se key sv)) = sv_net (deliver_own h se key ?b ?sv2)"
      by (simp add: drop_key_def Pair Some vo Let_def)
    show ?thesis
      using deliver_own_carried(1) [of h se key ?b ?sv2] assms(2) broadcast_own [OF assms(1), of key ?b]
      unfolding net by auto
  qed
qed

text \<open>The answer of an executed plan, and that a refusal touches nothing else.\<close>

definition is_reply :: "frame \<Rightarrow> session \<Rightarrow> frame \<Rightarrow> bool" where
  "is_reply f se r \<longleftrightarrow>
     stream_id r = stream_id f \<and> seq r = seq_counter se + 1 \<and> frame_type r \<in> {RESULT, ERROR}"

definition untouched :: "server \<Rightarrow> server \<Rightarrow> bool" where
  "untouched sv sv' \<longleftrightarrow> sv_state sv' = sv_state sv \<and> sv_bus sv' = sv_bus sv \<and> sv_tasks sv' = sv_tasks sv"

lemma is_reply_frames:
  "is_reply f se (error (stream_id f) (seq_counter se + 1) code msg)"
  "is_reply f se (result_ok (stream_id f) (seq_counter se + 1) cid d)"
  "frame_type (result_ok sid sq cid d) \<noteq> ERROR"
  by (simp_all add: is_reply_def error_def result_ok_def RESULT_def ERROR_def)

lemma add_presence_simps [simp]:
  "seq_counter (add_presence key q se) = seq_counter se" "s_id (add_presence key q se) = s_id se"
  "s_sub (add_presence key q se) = s_sub se" "s_claims (add_presence key q se) = s_claims se"
  "watches (add_presence key q se) = watches se" "next_stream_id (add_presence key q se) = next_stream_id se"
  by (simp_all add: add_presence_def)

definition answers :: "nat \<Rightarrow> frame \<Rightarrow> ctx \<Rightarrow> ctx \<Rightarrow> bool" where
  "answers h f c c' \<longleftrightarrow>
     (\<exists>own r. net_carried (sv_net (fst c')) h = net_carried (sv_net (fst c)) h @ own @ [FrameMsg r] \<and>
        is_reply f (snd c) r \<and> own \<in> {[]} \<union> (\<Union>key. range (own_delta (snd c) key)) \<and>
        (frame_type r = ERROR \<longrightarrow> own = [] \<and> untouched (fst c) (fst c')))"

lemma execute_answers:
  assumes "owns h se (sv_bus sv)" and "\<not> net_dead (sv_net (fst (execute x h (stream_id f) cid p (sv, se)))) h"
  shows "answers h f (sv, se) (execute x h (stream_id f) cid p (sv, se))"
proof (cases p)
  case (Refuse code msg)
  then show ?thesis
    using assms(2) carried_send(1) [of h _ "sv_net sv"] is_reply_frames(1) [of f se code msg]
    unfolding answers_def
    by (intro exI [of _ "[]"]) (auto simp: execute_def reply_error_eq untouched_def)
next
  case (Store key v q)
  let ?sv = "snd (commit x h se key v sv)"
  let ?r = "result_ok (stream_id f) (seq_counter se + 1) cid
    (Some (json_obj [(''version'', json_u64 (fst (commit x h se key v sv)))]))"
  have net: "sv_net (fst (execute x h (stream_id f) cid p (sv, se))) = snd (net_send h (FrameMsg ?r) (sv_net ?sv))"
    by (simp add: Store execute_def reply_ok_eq split: option.split)
  obtain own where "net_carried (sv_net ?sv) h = net_carried (sv_net sv) h @ own" "own \<in> {[]} \<union> range (own_delta se key)"
    using commit_carried [OF assms(1), of x key v] carried_send(2) [of h "FrameMsg ?r"] assms(2) unfolding net by auto
  then show ?thesis
    using carried_send(1) [of h "FrameMsg ?r" "sv_net ?sv"] assms(2) is_reply_frames(2,3)
    unfolding answers_def net fst_conv snd_conv by (intro exI [of _ own] exI [of _ ?r]) auto
next
  case (Drop key)
  let ?sv = "snd (drop_key x h se key sv)"
  let ?r = "result_ok (stream_id f) (seq_counter se + 1) cid
    (Some (json_obj [(''version'', json_u64 (fst (drop_key x h se key sv)))]))"
  have net: "sv_net (fst (execute x h (stream_id f) cid p (sv, se))) = snd (net_send h (FrameMsg ?r) (sv_net ?sv))"
    by (simp add: Drop execute_def reply_ok_eq)
  obtain own where "net_carried (sv_net ?sv) h = net_carried (sv_net sv) h @ own" "own \<in> {[]} \<union> range (own_delta se key)"
    using drop_key_carried [OF assms(1), of x key] carried_send(2) [of h "FrameMsg ?r"] assms(2) unfolding net by auto
  then show ?thesis
    using carried_send(1) [of h "FrameMsg ?r" "sv_net ?sv"] assms(2) is_reply_frames(2,3)
    unfolding answers_def net fst_conv snd_conv by (intro exI [of _ own] exI [of _ ?r]) auto
qed


lemma answers_session:
  assumes "answers h f (sv, se1) c'" and "s_id se1 = s_id se" and "watches se1 = watches se" and "seq_counter se1 = seq_counter se"
  shows "answers h f (sv, se) c'"
  using assms by (simp add: answers_def is_reply_def own_delta_def watch_stream_id_def)

lemma handle_call_answers:
  assumes "owns h se (sv_bus sv)" and "\<not> net_dead (sv_net (fst (handle_call x now h f (sv, se)))) h"
  shows "answers h f (sv, se) (handle_call x now h f (sv, se))"
proof -
  obtain cid p se1 where run: "handle_call x now h f (sv, se) = execute x h (stream_id f) cid p (sv, se1)"
    and se1: "se1 = se \<or> se1 = snd (take_write_token now se)"
    using handle_call_executes [of x now h f sv se] by metis
  have same: "s_id se1 = s_id se" "watches se1 = watches se" "seq_counter se1 = seq_counter se"
    using se1 by auto
  have "owns h se1 (sv_bus sv)"
    using assms(1) same(1) by (simp add: owns_def)
  from execute_answers [OF this] assms(2) have "answers h f (sv, se1) (handle_call x now h f (sv, se))"
    unfolding run by blast
  from answers_session [OF this same] show ?thesis .
qed

text \<open>The messages of a replay: the missed deltas on the new stream, numbered from the session's counter.\<close>

fun replay_msgs :: "externals \<Rightarrow> u32 \<Rightarrow> u64 \<Rightarrow> delta_rec list \<Rightarrow> outbound_msg list" where
  "replay_msgs x sid sq [] = []"
| "replay_msgs x sid sq (d # ms) =
     Bytes (delta_bytes sid (sq + 1) (encode_delta_body (x_delta x) (fst d) (snd d))) # replay_msgs x sid (sq + 1) ms"

lemma replay_missed_carried:
  assumes "\<not> net_dead (sv_net (fst (replay_missed x h sid ms c))) h"
  shows "net_carried (sv_net (fst (replay_missed x h sid ms c))) h =
           net_carried (sv_net (fst c)) h @ replay_msgs x sid (seq_counter (snd c)) ms \<and>
         \<not> net_dead (sv_net (fst c)) h"
  using assms
proof (induction ms arbitrary: c)
  case (Cons d ms)
  let ?m = "Bytes (delta_bytes sid (seq_counter (snd c) + 1) (encode_delta_body (x_delta x) (fst d) (snd d)))"
  let ?c = "(send_msg h ?m (fst c), (snd c)\<lparr>seq_counter := seq_counter (snd c) + 1\<rparr>)"
  from Cons.prems have "\<not> net_dead (sv_net (fst (replay_missed x h sid ms ?c))) h"
    by (simp add: replay_missed_Cons)
  from Cons.IH [OF this] carried_send [of h ?m "sv_net (fst c)"] show ?case
    by (simp add: replay_missed_Cons)
qed simp

lemma replay_missed_session:
  "snd (replay_missed x h sid ms c) = (snd c)\<lparr>seq_counter := seq_counter (snd c) + of_nat (length ms)\<rparr>"
proof (induction ms arbitrary: c)
  case (Cons d ms)
  then show ?case
    by (cases "snd c") (simp add: replay_missed_Cons algebra_simps)
qed simp

text \<open>The STATE_INIT frame of a key: the current entry, or null with version 0.\<close>

definition init_frame :: "server \<Rightarrow> string \<Rightarrow> u32 \<Rightarrow> u64 \<Rightarrow> json option \<Rightarrow> frame" where
  "init_frame sv key sid sq ps =
     (case store_get (sv_state sv) key of
        Some e \<Rightarrow> state_init sid sq key (e_version e) (e_value e) True ps
      | None \<Rightarrow> state_init sid sq key 0 Null False ps)"

lemma send_state_init_eq:
  "send_state_init h key sid ps c =
     (send_msg h (FrameMsg (init_frame (fst c) key sid (seq_counter (snd c) + 1) ps)) (fst c),
      (snd c)\<lparr>seq_counter := seq_counter (snd c) + 1\<rparr>)"
  by (cases c) (simp add: send_state_init_def init_frame_def next_seq_def Let_def split: option.split)

lemma init_frame_cong: "sv_state sv = sv_state sv' \<Longrightarrow> init_frame sv = init_frame sv'"
  by (simp add: init_frame_def fun_eq_iff)

definition since_of :: "frame \<Rightarrow> u64" where
  "since_of f = (case get_u64 (body f) ''since_version'' of Some v \<Rightarrow> v | None \<Rightarrow> 0)"

definition missed_of :: "server \<Rightarrow> string \<Rightarrow> frame \<Rightarrow> delta_rec list" where
  "missed_of sv key f = (if since_of f > 0 then deltas_since (sv_state sv) key (since_of f) else [])"

lemma handle_resume_granted_eq:
  assumes "fst (take_watch_token now se)" and "get_str (body f) ''state'' = Some key" and "may_read sv se key"
  shows "handle_resume x now h f (sv, se) =
    (let se1 = snd (take_watch_token now se);
         (sid, c1) = open_stream h key (json_get (body f) ''params'') (sv, se1)
     in send_state_init h key sid (json_get (body f) ''params'') (replay_missed x h sid (missed_of sv key f) c1))"
proof -
  have "may_read sv (snd (take_watch_token now se)) = may_read sv se"
    by (rule may_read_cong) simp_all
  with assms show ?thesis
    by (simp add: handle_resume_def missed_of_def since_of_def split_def Let_def open_stream_eq)
qed


lemma handle_resume_carried:
  fixes sv :: server
  assumes "fst (take_watch_token now se)" and "get_str (body f) ''state'' = Some key" and "may_read sv se key"
    and "\<not> net_dead (sv_net (fst (handle_resume x now h f (sv, se)))) h"
  shows "net_carried (sv_net (fst (handle_resume x now h f (sv, se)))) h =
           net_carried (sv_net sv) h @
           replay_msgs x (next_stream_id se) (seq_counter se) (missed_of sv key f) @
           [FrameMsg (init_frame sv key (next_stream_id se)
              (seq_counter se + of_nat (length (missed_of sv key f)) + 1) (json_get (body f) ''params''))]"
proof -
  let ?ps = "json_get (body f) ''params''"
  let ?sid = "next_stream_id se"
  let ?c1 = "snd (open_stream h key ?ps (sv, snd (take_watch_token now se)))"
  let ?c2 = "replay_missed x h ?sid (missed_of sv key f) ?c1"
  have run: "handle_resume x now h f (sv, se) = send_state_init h key ?sid ?ps ?c2"
    by (simp add: handle_resume_granted_eq [OF assms(1-3)] open_stream_eq split_def Let_def)
  have c1: "sv_net (fst ?c1) = sv_net sv" "seq_counter (snd ?c1) = seq_counter se" "sv_state (fst ?c1) = sv_state sv"
    by (simp_all add: open_stream_eq add_watch_def)
  have init: "init_frame (fst ?c2) = init_frame sv"
    by (rule init_frame_cong) (simp add: c1)
  let ?m = "FrameMsg (init_frame sv key ?sid (seq_counter (snd ?c2) + 1) ?ps)"
  have net: "sv_net (fst (handle_resume x now h f (sv, se))) = snd (net_send h ?m (sv_net (fst ?c2)))"
    by (simp add: run send_state_init_eq init)
  from assms(4) have dead: "\<not> net_dead (snd (net_send h ?m (sv_net (fst ?c2)))) h"
    unfolding net .
  show ?thesis
    unfolding net carried_send(1) [OF dead] replay_missed_carried [OF carried_send(2) [OF dead], THEN conjunct1]
    by (simp add: c1 replay_missed_session)
qed

subsection \<open>Properties\<close>

text \<open>
  Read authorisation. Whatever frame a session sends, a subscription that exists afterwards and did not exist
  before belongs to that session and its handle, and the session may read the key it is for.
\<close>

theorem watch_read_safety:
  assumes "s \<in> set (subscribers (sv_bus (fst (handle_frame x now h f (sv, se)))) key)"
    and "s \<notin> set (subscribers (sv_bus sv) key)"
  shows "sub_session s = s_id se \<and> sub_write s = h \<and> may_read sv se key"
  using handle_frame_granted [of h "(sv, se)" x now f] assms by (auto simp: granted_def)

text \<open>
  Every CALL is answered once. If the handle serves subscriptions of its own session only and did not
  overflow, a CALL appends to the handle's messages at most one delta of the session's own change and then exactly one
  RESULT or ERROR frame, on the stream of the request and with the session's next sequence number. With an ERROR there is
  no delta, and store, subscriptions and cluster tasks are as before.
\<close>

theorem call_answered_once:
  assumes "owns h se (sv_bus sv)" and "\<not> net_dead (sv_net (fst (handle_call x now h f (sv, se)))) h"
  shows "\<exists>own r. net_carried (sv_net (fst (handle_call x now h f (sv, se)))) h =
             net_carried (sv_net sv) h @ own @ [FrameMsg r] \<and>
           stream_id r = stream_id f \<and> seq r = seq_counter se + 1 \<and> frame_type r \<in> {RESULT, ERROR} \<and>
           own \<in> {[]} \<union> (\<Union>key. range (own_delta se key)) \<and>
           (frame_type r = ERROR \<longrightarrow> own = [] \<and> untouched sv (fst (handle_call x now h f (sv, se))))"
  using handle_call_answers [OF assms] by (auto simp: answers_def is_reply_def)

text \<open>
  RESUME catches up. A granted RESUME appends to the handle's messages, if it did not overflow, the deltas the
  store has after the given version, in order, and then STATE_INIT with the current entry, all on one new stream and
  with consecutive sequence numbers.
\<close>

theorem resume_replays_then_init:
  fixes sv :: server
  assumes "fst (take_watch_token now se)" and "get_str (body f) ''state'' = Some key" and "may_read sv se key"
    and "\<not> net_dead (sv_net (fst (handle_resume x now h f (sv, se)))) h"
  shows "net_carried (sv_net (fst (handle_resume x now h f (sv, se)))) h =
           net_carried (sv_net sv) h @
           replay_msgs x (next_stream_id se) (seq_counter se) (missed_of sv key f) @
           [FrameMsg (init_frame sv key (next_stream_id se)
              (seq_counter se + of_nat (length (missed_of sv key f)) + 1) (json_get (body f) ''params''))]"
  using handle_resume_carried [OF assms] .

subsection \<open>Witnesses\<close>

definition watch_frame :: "string \<Rightarrow> frame" where
  "watch_frame key = \<lparr>frame_type = WATCH, stream_id = 0, seq = 1, body = Object [(''state'', String key)]\<rparr>"

definition resume_frame :: "string \<Rightarrow> u64 \<Rightarrow> frame" where
  "resume_frame key v =
     \<lparr>frame_type = RESUME, stream_id = 0, seq = 1,
      body = Object [(''since_version'', json_u64 v), (''state'', String key)]\<rparr>"

definition busy_server :: server where
  "busy_server =
     (demo_server None None)\<lparr>sv_state :=
        snd (store_apply (\<lambda>_. None) (snd (store_apply (\<lambda>_. None) store_new ''k'' Null)) ''k'' (Bool True))\<rparr>"

theorem watch_read_safety_witness:
  "\<exists>s. s \<in> set (subscribers (sv_bus (fst (handle_frame demo_ext 0 0 (watch_frame ''k'')
           (demo_server (Some open_acl) None, demo_session ''a'')))) ''k'') \<and>
       may_read (demo_server (Some open_acl) None) (demo_session ''a'') ''k''"
proof -
  let ?c = "(demo_server (Some open_acl) None, demo_session ''a'')"
  let ?s = "\<lparr>sub_session = ''a'', sub_stream = 10, sub_write = 0\<rparr>"
  have "?s \<in> set (subscribers (sv_bus (fst (handle_frame demo_ext 0 0 (watch_frame ''k'') ?c))) ''k'')"
    and "?s \<notin> set (subscribers (sv_bus (fst ?c)) ''k'')"
    by code_simp+
  with watch_read_safety [OF this [unfolded fst_conv]] show ?thesis
    by blast
qed

theorem call_answered_once_witness:
  "\<exists>own r. net_carried (sv_net (fst (handle_call demo_ext 0 0
        (call_frame ''state.set'' [(''state'', String ''k''), (''value'', Bool True)]) (demo_server None None, demo_session ''a'')))) 0 =
      own @ [FrameMsg r] \<and> stream_id r = 3"
proof -
  have "owns 0 (demo_session ''a'') (sv_bus (demo_server None None))"
    by (simp add: owns_def demo_server_def subscribers_def bus_new_def)
  moreover have "\<not> net_dead (sv_net (fst (handle_call demo_ext 0 0
        (call_frame ''state.set'' [(''state'', String ''k''), (''value'', Bool True)]) (demo_server None None, demo_session ''a'')))) 0"
    by code_simp
  moreover have "net_carried (sv_net (demo_server None None)) 0 = []"
    by code_simp
  ultimately show ?thesis
    using call_answered_once [of 0 "demo_session ''a''" "demo_server None None" demo_ext 0
        "call_frame ''state.set'' [(''state'', String ''k''), (''value'', Bool True)]"]
    by (auto simp: call_frame_def)
qed

theorem resume_replays_then_init_witness:
  "net_carried (sv_net (fst (handle_resume demo_ext 0 0 (resume_frame ''k'' 1) (busy_server, demo_session ''a'')))) 0 =
     [Bytes (delta_bytes 10 1 [2]), FrameMsg (state_init 10 2 ''k'' 2 (Bool True) True None)]"
proof -
  let ?f = "resume_frame ''k'' 1"
  have "fst (take_watch_token 0 (demo_session ''a''))" "get_str (body ?f) ''state'' = Some ''k''"
    "may_read busy_server (demo_session ''a'') ''k''"
    "\<not> net_dead (sv_net (fst (handle_resume demo_ext 0 0 ?f (busy_server, demo_session ''a'')))) 0"
    by code_simp+
  from resume_replays_then_init [OF this]
  have *: "net_carried (sv_net (fst (handle_resume demo_ext 0 0 ?f (busy_server, demo_session ''a'')))) 0 =
     net_carried (sv_net busy_server) 0 @
     replay_msgs demo_ext (next_stream_id (demo_session ''a'')) (seq_counter (demo_session ''a'')) (missed_of busy_server ''k'' ?f) @
           [FrameMsg (init_frame busy_server ''k'' (next_stream_id (demo_session ''a''))
              (seq_counter (demo_session ''a'') + of_nat (length (missed_of busy_server ''k'' ?f)) + 1) (json_get (body ?f) ''params''))]" .
  show ?thesis
    unfolding * by code_simp
qed


end
