(* ===== verification/Server_Connection.thy ===== *)
theory Server_Connection
  imports Server_Safety
begin

section \<open>Connections: handshake, event loop and clean-up\<close>

text \<open>
  The model of the connection part of \<^verbatim>\<open>src/src/server.rs\<close>: the configuration read from the
  environment, token validation and the authentication handshake, the event loop of
  \<^verbatim>\<open>handle_connection\<close>, the clean-up after it, and the admission of connections in \<^verbatim>\<open>listen\<close>.

  What the web socket delivers is a list of events, each with the time of its arrival in seconds
  since the epoch. \<open>up out m\<close> tells whether the socket accepts \<open>m\<close> after \<open>out\<close>. The decoder of tokens
  is \<^verbatim>\<open>x_jwt\<close>, given the time, the algorithm, the key and the leeway.
\<close>

datatype recv = Got ws_msg | RecvErr | RecvEnd

datatype conn_error =
    EncodeError
  | SendFailed
  | FrameTooLarge nat
  | BadFrame
  | AuthFailed string
  | AuthRequired
  | ConnectionClosed

subsection \<open>Configuration\<close>

text \<open>Environment variables are a function; \<open>read\<close> is \<^verbatim>\<open>read_to_string\<close>.\<close>

fun unescape_newlines :: "string \<Rightarrow> string" where
  "unescape_newlines (a # b # cs) =
     (if a = CHR 0x5C \<and> b = CHR ''n'' then CHR 0x0A # unescape_newlines cs
      else a # unescape_newlines (b # cs))"
| "unescape_newlines cs = cs"

definition read_jwt_config :: "(string \<Rightarrow> string option) \<Rightarrow> (string \<Rightarrow> string option) \<Rightarrow> jwt_config option" where
  "read_jwt_config env read =
     (case env ''SODP_JWT_PUBLIC_KEY'' of
        Some pem \<Rightarrow> Some (Rs256 (unescape_newlines pem))
      | None \<Rightarrow>
          (case Option.bind (env ''SODP_JWT_PUBLIC_KEY_FILE'') read of
             Some pem \<Rightarrow> Some (Rs256 pem)
           | None \<Rightarrow> map_option Hs256 (env ''SODP_JWT_SECRET'')))"

definition read_acl :: "(string \<Rightarrow> string option) \<Rightarrow> (string \<Rightarrow> acl_registry option) \<Rightarrow> acl_registry option" where
  "read_acl env from_file = Option.bind (env ''SODP_ACL_FILE'') from_file"

record limits =
  l_max_connections :: "nat option"
  l_max_frame_bytes :: nat
  l_ws_ping_interval :: nat
  l_rate_writes :: "u32 option"
  l_rate_watches :: "u32 option"
  l_backpressure :: nat

definition env_nat :: "(string \<Rightarrow> string option) \<Rightarrow> nat \<Rightarrow> string \<Rightarrow> nat option" where
  "env_nat env width name = Option.bind (env name) (parse_bounded (2 ^ width))"

definition read_limits :: "(string \<Rightarrow> string option) \<Rightarrow> limits" where
  "read_limits env =
     \<lparr>l_max_connections = env_nat env 64 ''SODP_MAX_CONNECTIONS'',
      l_max_frame_bytes = (case env_nat env 64 ''SODP_MAX_FRAME_BYTES'' of Some n \<Rightarrow> n | None \<Rightarrow> 1048576),
      l_ws_ping_interval = (case env_nat env 64 ''SODP_WS_PING_INTERVAL'' of Some n \<Rightarrow> n | None \<Rightarrow> 25),
      l_rate_writes = map_option of_nat (env_nat env 32 ''SODP_RATE_WRITES_PER_SEC''),
      l_rate_watches = map_option of_nat (env_nat env 32 ''SODP_RATE_WATCHES_PER_SEC''),
      l_backpressure = (case env_nat env 64 ''SODP_BACKPRESSURE_LIMIT'' of Some n \<Rightarrow> n | None \<Rightarrow> DEFAULT_BACKPRESSURE_LIMIT)\<rparr>"

text \<open>The part the three constructors share: everything but the store and the schema comes from the environment.\<close>

definition server_from :: "state_store \<Rightarrow> schema_registry option \<Rightarrow> (string \<Rightarrow> string option) \<Rightarrow> (string \<Rightarrow> string option)
    \<Rightarrow> (string \<Rightarrow> acl_registry option) \<Rightarrow> nat option \<Rightarrow> server" where
  "server_from st schema env read acl_file cores =
     (let l = read_limits env
      in \<lparr>sv_state = st, sv_bus = bus_new, sv_net = \<lparr>net_handles = [], net_pool = []\<rparr>, sv_schema = schema,
          sv_acl = read_acl env acl_file, sv_jwt = read_jwt_config env read, sv_connections = 0,
          sv_max_connections = l_max_connections l, sv_max_frame_bytes = l_max_frame_bytes l,
          sv_ws_ping_interval = l_ws_ping_interval l, sv_rate_writes = l_rate_writes l,
          sv_rate_watches = l_rate_watches l, sv_cluster = None, sv_tasks = [],
          sv_backpressure_limit = l_backpressure l,
          sv_write_mode = fst (mode_from_env (env ''SODP_WRITE_MODE'') (env ''SODP_WRITE_POOL_SIZE'') cores)\<rparr>)"

definition server_new :: "(string \<Rightarrow> string option) \<Rightarrow> (string \<Rightarrow> string option)
    \<Rightarrow> (string \<Rightarrow> acl_registry option) \<Rightarrow> nat option \<Rightarrow> server" where
  "server_new env read acl_file cores = server_from store_new None env read acl_file cores"

datatype start_error = SchemaError string | LogError log_error

definition new_persistent :: "decoder \<Rightarrow> dir \<Rightarrow> (string \<Rightarrow> string option) \<Rightarrow> (string \<Rightarrow> string option)
    \<Rightarrow> (string \<Rightarrow> acl_registry option) \<Rightarrow> nat option \<Rightarrow> start_error + server" where
  "new_persistent dec d env read acl_file cores =
     (case store_open dec d of
        Inl e \<Rightarrow> Inl (LogError e)
      | Inr st \<Rightarrow> Inr (server_from st None env read acl_file cores))"

definition with_schema :: "decoder \<Rightarrow> dir option \<Rightarrow> string + schema_registry \<Rightarrow> (string \<Rightarrow> string option)
    \<Rightarrow> (string \<Rightarrow> string option) \<Rightarrow> (string \<Rightarrow> acl_registry option) \<Rightarrow> nat option \<Rightarrow> start_error + server" where
  "with_schema dec ld schema_file env read acl_file cores =
     (case schema_file of
        Inl e \<Rightarrow> Inl (SchemaError e)
      | Inr schema \<Rightarrow>
          (case (case ld of Some d \<Rightarrow> store_open dec d | None \<Rightarrow> Inr store_new) of
             Inl e \<Rightarrow> Inl (LogError e)
           | Inr st \<Rightarrow> Inr (server_from st (Some schema) env read acl_file cores)))"

subsection \<open>Tokens and the handshake\<close>

definition exp_remaining :: "nat \<Rightarrow> nat \<Rightarrow> nat" where
  "exp_remaining now exp_secs = (if exp_secs > now then exp_secs - now else 0)"

definition validate_jwt :: "externals \<Rightarrow> nat \<Rightarrow> string \<Rightarrow> jwt_config \<Rightarrow> string + claims" where
  "validate_jwt x now token config =
     (case (case config of
              Hs256 secret \<Rightarrow> Inr (secret, HS256)
            | Rs256 pem \<Rightarrow> (case x_rsa_pem x pem of Inl e \<Rightarrow> Inl (''RS256 key error: '' @ e) | Inr key \<Rightarrow> Inr (key, RS256))) of
        Inl e \<Rightarrow> Inl e
      | Inr (key, algo) \<Rightarrow>
          (case x_jwt x now algo key 0 token of Inl e \<Rightarrow> Inl (''JWT error: '' @ e) | Inr c \<Rightarrow> Inr c))"

text \<open>Encoding a frame and sending it on the bare socket; the flag tells whether the socket took it.\<close>

definition tx_frame :: "externals \<Rightarrow> (sink \<Rightarrow> ws_msg \<Rightarrow> bool) \<Rightarrow> frame \<Rightarrow> sink \<Rightarrow> (conn_error + bool) \<times> sink" where
  "tx_frame x up f out =
     (case x_fenc x f of
        None \<Rightarrow> (Inl EncodeError, out)
      | Some b \<Rightarrow> if up out (WsBinary b) then (Inr True, out @ [WsBinary b]) else (Inr False, out))"

text \<open>Answering with an error frame and giving up; that the frame could not be sent is ignored.\<close>

definition auth_fail :: "externals \<Rightarrow> (sink \<Rightarrow> ws_msg \<Rightarrow> bool) \<Rightarrow> frame \<Rightarrow> conn_error \<Rightarrow> sink \<Rightarrow> conn_error \<times> sink" where
  "auth_fail x up f err out = (case tx_frame x up f out of (Inl e, out') \<Rightarrow> (e, out') | (Inr _, out') \<Rightarrow> (err, out'))"

type_synonym inbox = "(nat \<times> recv) list"

fun auth_handshake :: "externals \<Rightarrow> nat \<Rightarrow> jwt_config \<Rightarrow> (sink \<Rightarrow> ws_msg \<Rightarrow> bool) \<Rightarrow> inbox \<Rightarrow> sink
    \<Rightarrow> (conn_error + claims) \<times> sink \<times> inbox" where
  "auth_handshake x max_bytes config up [] out = (Inl ConnectionClosed, out, [])"
| "auth_handshake x max_bytes config up ((now, m) # inbox) out =
     (let fail = (\<lambda>f err. let (e, out') = auth_fail x up f err out in (Inl e, out', inbox))
      in case m of
           Got (WsBinary bs) \<Rightarrow>
             if length bs > max_bytes then fail (error 0 0 413 ''frame too large'') (FrameTooLarge (length bs))
             else (case x_fdec x bs of
                None \<Rightarrow> fail (error 0 0 401 ''bad frame during auth'') BadFrame
              | Some f \<Rightarrow>
                  if frame_type f = HEARTBEAT
                  then (case tx_frame x up heartbeat out of
                          (Inl e, out') \<Rightarrow> (Inl e, out', inbox)
                        | (Inr _, out') \<Rightarrow> auth_handshake x max_bytes config up inbox out')
                  else if frame_type f = AUTH
                  then (let token = (case get_str (body f) ''token'' of Some t \<Rightarrow> t | None \<Rightarrow> [])
                        in case validate_jwt x now token config of
                             Inr cl \<Rightarrow>
                               (case tx_frame x up (auth_ok (c_sub cl)) out of
                                  (Inl e, out') \<Rightarrow> (Inl e, out', inbox)
                                | (Inr sent, out') \<Rightarrow> (if sent then Inr cl else Inl SendFailed, out', inbox))
                           | Inl e \<Rightarrow> fail (error 0 0 401 (''auth failed: '' @ e)) (AuthFailed (''auth failed: '' @ e)))
                  else fail (error 0 0 401 ''auth required'') AuthRequired)
         | Got (WsPing _) \<Rightarrow>
             (case tx_frame x up heartbeat out of
                (Inl e, out') \<Rightarrow> (Inl e, out', inbox)
              | (Inr _, out') \<Rightarrow> auth_handshake x max_bytes config up inbox out')
         | Got WsClose \<Rightarrow> (Inl ConnectionClosed, out, inbox)
         | Got (WsPong _) \<Rightarrow> auth_handshake x max_bytes config up inbox out
         | Got WsOther \<Rightarrow> auth_handshake x max_bytes config up inbox out
         | RecvErr \<Rightarrow> (Inl ConnectionClosed, out, inbox)
         | RecvEnd \<Rightarrow> (Inl ConnectionClosed, out, inbox))"

text \<open>The state of a running connection. Times are in seconds; \<open>cn_expiry\<close> and \<open>cn_next_ping\<close> are the two timers.\<close>

record conn =
  cn_session :: session
  cn_handle :: nat
  cn_awaiting_pong :: bool
  cn_expiry :: nat
  cn_next_ping :: nat

definition YEAR :: nat where
  "YEAR = 365 * 24 * 3600"

definition ping_period :: "server \<Rightarrow> nat" where
  "ping_period sv = (if sv_ws_ping_interval sv = 0 then YEAR else sv_ws_ping_interval sv)"

definition opt_u32 :: "u32 option \<Rightarrow> json" where
  "opt_u32 n = (case n of None \<Rightarrow> Null | Some k \<Rightarrow> json_u64 (ucast k))"

definition capabilities :: "server \<Rightarrow> json" where
  "capabilities sv =
     json_obj [(''rate_limit_writes'', opt_u32 (sv_rate_writes sv)), (''rate_limit_watches'', opt_u32 (sv_rate_watches sv)),
               (''multi_watch'', Bool True), (''params'', Bool True), (''resume'', Bool True),
               (''backpressure_limit'', json_u64 (of_nat (sv_backpressure_limit sv)))]"

text \<open>
  \<^verbatim>\<open>handle_connection\<close> up to the event loop, for a connection that got the identifier \<open>uuid\<close> and the
  handle number \<open>hid\<close>, with the clocks at \<open>nanos\<close> and \<open>now\<close>.
\<close>

definition new_conn :: "nat \<Rightarrow> nat \<Rightarrow> session \<Rightarrow> claims option \<Rightarrow> server \<Rightarrow> server \<times> conn" where
  "new_conn now hid se cl sv =
     (let ttl = (case cl of Some c \<Rightarrow> exp_remaining now (c_exp c) | None \<Rightarrow> YEAR);
          net = sv_net sv
      in (sv\<lparr>sv_net := net\<lparr>net_handles := AList.update hid (make_handle (sv_write_mode sv) (sv_backpressure_limit sv)) (net_handles net)\<rparr>\<rparr>,
          \<lparr>cn_session = se, cn_handle = hid, cn_awaiting_pong = False, cn_expiry = now + ttl,
           cn_next_ping = now + ping_period sv\<rparr>))"

definition start_connection :: "externals \<Rightarrow> (sink \<Rightarrow> ws_msg \<Rightarrow> bool) \<Rightarrow> nat \<Rightarrow> nat \<Rightarrow> string \<Rightarrow> nat \<Rightarrow> inbox \<Rightarrow> server
    \<Rightarrow> (conn_error + server \<times> conn) \<times> sink \<times> inbox" where
  "start_connection x up nanos now uuid hid inbox sv =
     (let se = session_new uuid nanos (sv_rate_writes sv) (sv_rate_watches sv)
      in case tx_frame x up (hello (sv_jwt sv \<noteq> None) (capabilities sv)) [] of
           (Inl e, out) \<Rightarrow> (Inl e, out, inbox)
         | (Inr sent, out) \<Rightarrow>
             if \<not> sent then (Inl SendFailed, out, inbox)
             else (case sv_jwt sv of
                None \<Rightarrow> (Inr (new_conn now hid se None sv), out, inbox)
              | Some config \<Rightarrow>
                  (case auth_handshake x (sv_max_frame_bytes sv) config up inbox out of
                     (Inl e, out', inbox') \<Rightarrow> (Inl e, out', inbox')
                   | (Inr cl, out', inbox') \<Rightarrow>
                       (Inr (new_conn now hid (se\<lparr>s_sub := Some (c_sub cl), s_claims := Object (c_extra cl)\<rparr>) (Some cl) sv),
                        out', inbox'))))"

subsection \<open>The event loop\<close>

datatype conn_event = Inbound recv | Shutdown | TokenExpired | PingTick | SlowConsumer

text \<open>When \<^verbatim>\<open>select!\<close> may take a branch at time \<open>now\<close>.\<close>

definition ready :: "nat \<Rightarrow> conn_event \<Rightarrow> server \<times> conn \<Rightarrow> bool" where
  "ready now ev = (\<lambda>(sv, cn).
     case ev of
       Inbound _ \<Rightarrow> True
     | Shutdown \<Rightarrow> True
     | TokenExpired \<Rightarrow> cn_expiry cn \<le> now
     | PingTick \<Rightarrow> cn_next_ping cn \<le> now
     | SlowConsumer \<Rightarrow> net_dead (sv_net sv) (cn_handle cn))"

text \<open>One message of the client. The flag tells whether the loop goes on.\<close>

definition on_message :: "externals \<Rightarrow> nat \<Rightarrow> recv \<Rightarrow> server \<times> conn \<Rightarrow> bool \<times> server \<times> conn" where
  "on_message x nanos m = (\<lambda>(sv, cn).
     case m of
       Got (WsBinary bs) \<Rightarrow>
         if length bs > sv_max_frame_bytes sv
         then (False, send_msg (cn_handle cn) (FrameMsg (error 0 0 413 ''frame too large'')) sv, cn)
         else (case x_fdec x bs of
            Some f \<Rightarrow>
              (let (sv', se') = handle_frame x nanos (cn_handle cn) f (sv, cn_session cn)
               in (True, sv', cn\<lparr>cn_session := se'\<rparr>))
          | None \<Rightarrow> (True, sv, cn))
     | Got (WsPing d) \<Rightarrow> (True, send_msg (cn_handle cn) (Pong d) sv, cn)
     | Got (WsPong _) \<Rightarrow> (True, sv, cn\<lparr>cn_awaiting_pong := False\<rparr>)
     | Got WsClose \<Rightarrow> (False, sv, cn)
     | Got WsOther \<Rightarrow> (True, sv, cn)
     | RecvErr \<Rightarrow> (False, sv, cn)
     | RecvEnd \<Rightarrow> (False, sv, cn))"

definition on_event :: "externals \<Rightarrow> nat \<Rightarrow> conn_event \<Rightarrow> server \<times> conn \<Rightarrow> bool \<times> server \<times> conn" where
  "on_event x nanos ev = (\<lambda>(sv, cn).
     case ev of
       Inbound m \<Rightarrow> on_message x nanos m (sv, cn)
     | Shutdown \<Rightarrow> (False, sv, cn)
     | TokenExpired \<Rightarrow> (False, send_msg (cn_handle cn) (FrameMsg (error 0 0 401 ''token expired'')) sv, cn)
     | PingTick \<Rightarrow>
         if cn_awaiting_pong cn then (False, sv, cn)
         else (True, send_msg (cn_handle cn) Ping sv,
               cn\<lparr>cn_awaiting_pong := True, cn_next_ping := cn_next_ping cn + ping_period sv\<rparr>)
     | SlowConsumer \<Rightarrow> (False, sv, cn))"

text \<open>The loop over the events \<^verbatim>\<open>select!\<close> takes, with their times; the flag tells whether it is still running after them.\<close>

fun event_loop :: "externals \<Rightarrow> (nat \<times> conn_event) list \<Rightarrow> server \<times> conn \<Rightarrow> bool \<times> server \<times> conn" where
  "event_loop x [] c = (True, c)"
| "event_loop x ((nanos, ev) # evs) c =
     (let (go, c') = on_event x nanos ev c in if go then event_loop x evs c' else (False, c'))"

subsection \<open>The end of a connection\<close>

fun presence_cleanup :: "externals \<Rightarrow> presence_entry list \<Rightarrow> server \<Rightarrow> server" where
  "presence_cleanup x [] sv = sv"
| "presence_cleanup x (entry # rest) sv =
     (case store_get (sv_state sv) (p_key entry) of
        None \<Rightarrow> presence_cleanup x rest sv
      | Some e \<Rightarrow>
          (let updated = json_remove_in (e_value e) (p_path entry);
               ((version, ops), st) = store_apply (x_log x) (sv_state sv) (p_key entry) updated;
               sv1 = sv\<lparr>sv_state := st\<rparr>
           in presence_cleanup x rest
                (if ops = [] then sv1
                 else let body_mp = encode_delta_body (x_delta x) version ops
                      in cluster_sync x (p_key entry) version updated body_mp
                           (broadcast_timed (p_key entry) body_mp None sv1))))"

definition end_connection :: "externals \<Rightarrow> session \<Rightarrow> server \<Rightarrow> server" where
  "end_connection x se sv =
     (let sv1 = presence_cleanup x (presence se) sv in sv1\<lparr>sv_bus := remove_session (s_id se) (sv_bus sv1)\<rparr>)"

text \<open>\<^verbatim>\<open>listen\<close>: whether a new connection is taken, and the counter when it ends.\<close>

definition accept_conn :: "server \<Rightarrow> server option" where
  "accept_conn sv =
     (if (case sv_max_connections sv of Some limit \<Rightarrow> sv_connections sv \<ge> limit | None \<Rightarrow> False) then None
      else Some (sv\<lparr>sv_connections := sv_connections sv + 1\<rparr>))"

definition finish_conn :: "server \<Rightarrow> server" where
  "finish_conn sv = sv\<lparr>sv_connections := sv_connections sv - 1\<rparr>"

subsection \<open>Facts about the handshake\<close>

text \<open>Some message of the inbox is an AUTH frame within the size limit whose token is valid on arrival.\<close>

definition token_accepted :: "externals \<Rightarrow> nat \<Rightarrow> jwt_config \<Rightarrow> inbox \<Rightarrow> claims \<Rightarrow> bool" where
  "token_accepted x mb config inbox cl \<longleftrightarrow>
     (\<exists>now bs f. (now, Got (WsBinary bs)) \<in> set inbox \<and> length bs \<le> mb \<and> x_fdec x bs = Some f \<and> frame_type f = AUTH \<and>
        validate_jwt x now (case get_str (body f) ''token'' of Some t \<Rightarrow> t | None \<Rightarrow> []) config = Inr cl)"

lemma token_accepted_Cons: "token_accepted x mb config inbox cl \<Longrightarrow> token_accepted x mb config (e # inbox) cl"
  by (auto simp: token_accepted_def)

lemma auth_handshake_Inr:
  "auth_handshake x mb config up inbox out = (Inr cl, out', rest) \<Longrightarrow> token_accepted x mb config inbox cl"
proof (induction inbox arbitrary: out)
  case (Cons e inbox)
  obtain now m where e: "e = (now, m)"
    by (cases e)
  consider (again) out1 where "auth_handshake x mb config up inbox out1 = (Inr cl, out', rest)"
    | (here) bs f where "m = Got (WsBinary bs)" "length bs \<le> mb" "x_fdec x bs = Some f" "frame_type f = AUTH"
        "validate_jwt x now (case get_str (body f) ''token'' of Some t \<Rightarrow> t | None \<Rightarrow> []) config = Inr cl"
    using Cons.prems unfolding e
    by (auto simp: split_def Let_def split: recv.splits ws_msg.splits option.splits if_splits sum.splits prod.splits)
  then show ?case
  proof cases
    case again
    then show ?thesis
      using Cons.IH token_accepted_Cons by blast
  next
    case here
    then show ?thesis
      unfolding token_accepted_def e by (metis list.set_intros(1))
  qed
qed simp

lemma new_conn_parts:
  "new_conn now hid se cl sv = (sv', cn) \<Longrightarrow>
     cn_session cn = se \<and> cn_handle cn = hid \<and> \<not> cn_awaiting_pong cn \<and>
     cn_expiry cn = (case cl of Some c \<Rightarrow> max now (c_exp c) | None \<Rightarrow> now + YEAR) \<and>
     cn_next_ping cn = now + ping_period sv \<and>
     sv' = sv\<lparr>sv_net := (sv_net sv)\<lparr>net_handles := AList.update hid (make_handle (sv_write_mode sv) (sv_backpressure_limit sv))
                           (net_handles (sv_net sv))\<rparr>\<rparr>"
  by (auto simp: new_conn_def Let_def exp_remaining_def split: option.splits)

lemma start_connection_cases:
  assumes "start_connection x up nanos now uuid hid inbox sv = (Inr (sv', cn), out, rest)"
  obtains (anonymous) "sv_jwt sv = None"
      "new_conn now hid (session_new uuid nanos (sv_rate_writes sv) (sv_rate_watches sv)) None sv = (sv', cn)"
  | (authenticated) config cl out0 where "sv_jwt sv = Some config"
      "auth_handshake x (sv_max_frame_bytes sv) config up inbox out0 = (Inr cl, out, rest)"
      "new_conn now hid ((session_new uuid nanos (sv_rate_writes sv) (sv_rate_watches sv))
          \<lparr>s_sub := Some (c_sub cl), s_claims := Object (c_extra cl)\<rparr>) (Some cl) sv = (sv', cn)"
  using assms by (auto simp: start_connection_def Let_def split: sum.splits prod.splits if_splits option.splits)

subsection \<open>Facts about the event loop\<close>

lemma event_loop_Cons:
  "event_loop x (e # evs) c =
     (if fst (on_event x (fst e) (snd e) c) then event_loop x evs (snd (on_event x (fst e) (snd e) c))
      else (False, snd (on_event x (fst e) (snd e) c)))"
  by (cases e) (simp add: split_def Let_def)

lemma event_loop_append:
  "event_loop x (evs @ evs') c =
     (if fst (event_loop x evs c) then event_loop x evs' (snd (event_loop x evs c)) else event_loop x evs c)"
  by (induction evs arbitrary: c) (simp_all add: event_loop_Cons del: event_loop.simps(2))

definition is_pong :: "conn_event \<Rightarrow> bool" where
  "is_pong ev \<longleftrightarrow> (\<exists>d. ev = Inbound (Got (WsPong d)))"

lemma on_event_awaiting:
  "fst (on_event x t ev c) \<Longrightarrow> \<not> is_pong ev \<Longrightarrow> cn_awaiting_pong (snd c) \<Longrightarrow> cn_awaiting_pong (snd (snd (on_event x t ev c)))"
  by (cases c) (auto simp: on_event_def on_message_def is_pong_def split_def Let_def
      split: conn_event.splits recv.splits ws_msg.splits option.splits if_splits)

lemma tick_awaiting:
  "cn_awaiting_pong (snd c) \<Longrightarrow> \<not> fst (on_event x t PingTick c)"
  "fst (on_event x t PingTick c) \<Longrightarrow> cn_awaiting_pong (snd (snd (on_event x t PingTick c)))"
  by (cases c; simp add: on_event_def)+

lemma awaiting_loop_ends:
  "cn_awaiting_pong (snd c) \<Longrightarrow> \<forall>(t, ev) \<in> set evs. \<not> is_pong ev \<Longrightarrow> (t2, PingTick) \<in> set evs \<Longrightarrow> \<not> fst (event_loop x evs c)"
proof (induction evs arbitrary: c)
  case (Cons e evs)
  obtain t ev where e: "e = (t, ev)"
    by (cases e)
  show ?case
  proof (cases "fst (on_event x t ev c)")
    case True
    with Cons.prems tick_awaiting(1) [of c x t] have "(t2, PingTick) \<in> set evs"
      by (auto simp: e)
    with True Cons on_event_awaiting [of x t ev c] show ?thesis
      by (simp add: e event_loop_Cons del: event_loop.simps(2))
  qed (simp add: e event_loop_Cons del: event_loop.simps(2))
qed simp

lemma unanswered_ping_ends:
  assumes "\<forall>(t, ev) \<in> set mid. \<not> is_pong ev"
  shows "\<not> fst (event_loop x (before @ (t1, PingTick) # mid @ (t2, PingTick) # after) c)"
proof (cases "fst (event_loop x (before @ [(t1, PingTick)]) c)")
  case True
  let ?c = "snd (event_loop x (before @ [(t1, PingTick)]) c)"
  have "cn_awaiting_pong (snd ?c)"
    using True tick_awaiting(2) by (auto simp: event_loop_append split_def Let_def split: if_splits)
  then have "\<not> fst (event_loop x (mid @ [(t2, PingTick)]) ?c)"
    using assms by (intro awaiting_loop_ends [where ?t2.0 = t2]) (auto simp: is_pong_def)
  with True show ?thesis
    using event_loop_append [of x "before @ [(t1, PingTick)]" "mid @ (t2, PingTick) # after" c]
      event_loop_append [of x "mid @ [(t2, PingTick)]" "after" ?c] by simp
next
  case False
  then show ?thesis
    using event_loop_append [of x "before @ [(t1, PingTick)]" "mid @ (t2, PingTick) # after" c] by simp
qed


subsection \<open>Facts about the clean-up\<close>

lemma lookup_remove_None: "lookup_in j ls = None \<Longrightarrow> lookup_in (remove_in_recursive j ks) ls = None"
proof (induction j ks arbitrary: ls rule: remove_in_recursive.induct)
  case (2 node k rest)
  show ?case
  proof (cases node)
    case (Object m)
    obtain l ls' where ls: "ls = l # ls'"
      using "2.prems" by (cases ls) auto
    with 2 Object show ?thesis
      by (cases rest) (auto simp: lookup_in_Object map_of_bt_insert map_of_bt_remove split: option.splits)
  qed (use 2 in simp_all)
qed simp

lemma lookup_json_remove_None:
  "ls \<noteq> [] \<Longrightarrow> lookup_in j ls = None \<Longrightarrow> lookup_in (json_remove_in j p) ls = None"
  by (auto simp: json_remove_in_def lookup_remove_None lookup_in_not_object)

lemma lookup_json_remove:
  "starts_with_slash p \<Longrightarrow> lookup_in (json_remove_in j p) (path_parts p) = None"
  by (auto simp: json_remove_in_def lookup_remove_in lookup_in_not_object starts_with_slash_def)

lemma lookup_json_remove_forks:
  "starts_with_slash p \<Longrightarrow> p \<noteq> ''/'' \<Longrightarrow> forks (path_parts p) ls \<Longrightarrow> lookup_in (json_remove_in j p) ls = lookup_in j ls"
  by (auto simp: json_remove_in_def lookup_remove_in_forks starts_with_slash_def)

text \<open>What the clean-up does to the value of a key.\<close>

definition remove_paths :: "presence_entry list \<Rightarrow> string \<Rightarrow> json \<Rightarrow> json" where
  "remove_paths ps key = fold (\<lambda>p v. if p_key p = key then json_remove_in v (p_path p) else v) ps"

lemma presence_cleanup_value:
  "map_option e_value (store_get (sv_state (presence_cleanup x ps sv)) key) =
     map_option (remove_paths ps key) (map_option e_value (store_get (sv_state sv) key))"
proof (induction ps arbitrary: sv)
  case (Cons p ps)
  show ?case
    by (cases "store_get (sv_state sv) (p_key p)"; cases "p_key p = key")
      (auto simp: Cons.IH remove_paths_def split_def Let_def store_get_apply option.map_comp comp_def)
qed (simp add: remove_paths_def option.map_id0)

lemma presence_cleanup_subset:
  "set (subscribers (sv_bus (presence_cleanup x ps sv)) k) \<subseteq> set (subscribers (sv_bus sv) k)"
proof (induction ps arbitrary: sv)
  case (Cons p ps)
  show ?case
  proof (cases "store_get (sv_state sv) (p_key p)")
    case (Some e)
    show ?thesis
      unfolding presence_cleanup.simps Some option.case Let_def split_def
      by (rule subset_trans [OF Cons.IH]) (auto dest: subsetD [OF broadcast_subset])
  qed (simp add: Cons.IH)
qed simp

lemma remove_paths_None: "ls \<noteq> [] \<Longrightarrow> lookup_in v ls = None \<Longrightarrow> lookup_in (remove_paths ps key v) ls = None"
  by (induction ps arbitrary: v) (simp_all add: remove_paths_def lookup_json_remove_None)

lemma remove_paths_gone:
  "p \<in> set ps \<Longrightarrow> starts_with_slash (p_path p) \<Longrightarrow> lookup_in (remove_paths ps (p_key p) v) (path_parts (p_path p)) = None"
proof (induction ps arbitrary: v)
  case (Cons q ps)
  show ?case
  proof (cases "p = q")
    case True
    then show ?thesis
      using remove_paths_None [of "path_parts (p_path q)" "json_remove_in v (p_path q)" ps "p_key q"] Cons.prems(2)
        lookup_json_remove [of "p_path q" v]
      by (simp add: remove_paths_def)
  next
    case False
    with Cons show ?thesis
      by (simp add: remove_paths_def)
  qed
qed simp

lemma remove_paths_keeps:
  "\<forall>p \<in> set ps. p_key p = key \<longrightarrow> starts_with_slash (p_path p) \<and> p_path p \<noteq> ''/'' \<and> forks (path_parts (p_path p)) ls \<Longrightarrow>
     lookup_in (remove_paths ps key v) ls = lookup_in v ls"
  by (induction ps arbitrary: v) (simp_all add: remove_paths_def lookup_json_remove_forks)


subsection \<open>Properties\<close>

text \<open>
  C4. No session without a valid token. When authentication is configured, a connection reaches the event loop only
  if some frame it sent was an AUTH frame within the size limit whose token the decoder accepted on arrival,
  with the configured key and no leeway. The session then runs under exactly the subject and the claims of that
  token, its expiry timer is set to the token's expiry (or to fire at once when that has passed), and the handshake touched
  nothing of the server but adding the session's own handle.
\<close>

theorem auth_required:
  assumes "start_connection x up nanos now uuid hid inbox sv = (Inr (sv', cn), out, rest)"
    and "sv_jwt sv = Some config"
  shows "\<exists>cl. token_accepted x (sv_max_frame_bytes sv) config inbox cl \<and>
              s_id (cn_session cn) = uuid \<and> s_sub (cn_session cn) = Some (c_sub cl) \<and>
              s_claims (cn_session cn) = Object (c_extra cl) \<and> watches (cn_session cn) = [] \<and>
              presence (cn_session cn) = [] \<and> cn_expiry cn = max now (c_exp cl) \<and>
              sv_state sv' = sv_state sv \<and> sv_bus sv' = sv_bus sv \<and> sv_tasks sv' = sv_tasks sv"
  using assms(1)
proof (cases rule: start_connection_cases)
  case (authenticated config' cl out0)
  with assms(2) new_conn_parts [OF authenticated(3)] auth_handshake_Inr [OF authenticated(2)] show ?thesis
    by (intro exI [of _ cl]) (simp add: session_new_def)
qed (use assms(2) in simp)

text \<open>
  C21. Zombie connections end. Whatever else happens, a connection for which the ping timer fires twice with no
  pong of the client in between has left its event loop by the second time.
\<close>

theorem unanswered_ping_closes:
  assumes "\<forall>(t, ev) \<in> set mid. \<not> is_pong ev"
  shows "\<not> fst (event_loop x (before @ (t1, PingTick) # mid @ (t2, PingTick) # after) c)"
  using unanswered_ping_ends [OF assms] .

text \<open>
  C19. Clean-up. When a connection ends, none of its subscriptions are left, and under every key it bound presence
  to nothing is left at the bound path, provided the bound paths begin with a slash, as those the presence call accepts do. Paths
  that fork from all bound paths of their key keep their values, and so do keys without bound paths.
\<close>

theorem end_connection_cleans:
  assumes "\<forall>p \<in> set (presence se). starts_with_slash (p_path p)"
  shows "(\<forall>key. \<forall>s \<in> set (subscribers (sv_bus (end_connection x se sv)) key).
            s \<in> set (subscribers (sv_bus sv) key) \<and> sub_session s \<noteq> s_id se) \<and>
         (\<forall>p \<in> set (presence se). \<forall>e. store_get (sv_state (end_connection x se sv)) (p_key p) = Some e \<longrightarrow>
            lookup_in (e_value e) (path_parts (p_path p)) = None) \<and>
         (\<forall>key ls. (\<forall>p \<in> set (presence se). p_key p = key \<longrightarrow> p_path p \<noteq> ''/'' \<and> forks (path_parts (p_path p)) ls) \<longrightarrow>
            map_option (\<lambda>e. lookup_in (e_value e) ls) (store_get (sv_state (end_connection x se sv)) key) =
            map_option (\<lambda>e. lookup_in (e_value e) ls) (store_get (sv_state sv) key))"
proof -
  let ?sv = "presence_cleanup x (presence se) sv"
  have st: "sv_state (end_connection x se sv) = sv_state ?sv"
    by (simp add: end_connection_def Let_def)
  have val: "store_get (sv_state ?sv) key = Some e \<Longrightarrow>
      \<exists>e0. store_get (sv_state sv) key = Some e0 \<and> e_value e = remove_paths (presence se) key (e_value e0)" for key e
    using presence_cleanup_value [of x "presence se" sv key] by (auto simp: map_option_case split: option.splits)
  have subs: "\<forall>s \<in> set (subscribers (sv_bus (end_connection x se sv)) key).
      s \<in> set (subscribers (sv_bus sv) key) \<and> sub_session s \<noteq> s_id se" for key
    using presence_cleanup_subset [of x "presence se" sv key]
    by (auto simp: end_connection_def Let_def subscribers_remove_session)
  have gone: "lookup_in (e_value e) (path_parts (p_path p)) = None"
    if "p \<in> set (presence se)" "store_get (sv_state ?sv) (p_key p) = Some e" for p e
    using val [OF that(2)] remove_paths_gone [OF that(1)] assms that(1) by auto
  have kept: "map_option (\<lambda>e. lookup_in (e_value e) ls) (store_get (sv_state ?sv) key) =
      map_option (\<lambda>e. lookup_in (e_value e) ls) (store_get (sv_state sv) key)"
    if "\<forall>p \<in> set (presence se). p_key p = key \<longrightarrow> p_path p \<noteq> ''/'' \<and> forks (path_parts (p_path p)) ls" for key ls
  proof -
    have "lookup_in (remove_paths (presence se) key v) ls = lookup_in v ls" for v
      using that assms by (intro remove_paths_keeps) auto
    with presence_cleanup_value [of x "presence se" sv key] show ?thesis
      by (auto simp: map_option_case split: option.splits)
  qed
  from subs gone kept show ?thesis
    unfolding st by blast
qed


subsection \<open>Witnesses\<close>

definition auth_ext :: externals where
  "auth_ext = demo_ext
     \<lparr>x_fdec := (\<lambda>bs. if bs = [7] then Some \<lparr>frame_type = AUTH, stream_id = 0, seq = 0, body = Object [(''token'', String ''t'')]\<rparr>
                     else Some heartbeat),
      x_jwt := (\<lambda>now alg key leeway token.
         if token = ''t'' \<and> key = ''s'' then Inr \<lparr>c_sub = ''alice'', c_exp = now + 60, c_extra = []\<rparr> else Inl ''no'')\<rparr>"

definition auth_server :: server where
  "auth_server = (demo_server None None)\<lparr>sv_jwt := Some (Hs256 ''s'')\<rparr>"

theorem auth_required_witness:
  "\<exists>sv cn out rest (cl :: claims).
     start_connection auth_ext (\<lambda>_ _. True) 0 5 ''u'' 3 [(1, Got (WsBinary [1])), (2, Got (WsPing [])), (4, Got (WsBinary [7]))] auth_server
       = (Inr (sv, cn), out, rest) \<and>
     s_sub (cn_session cn) = Some (c_sub cl) \<and> cn_expiry cn = max 5 (c_exp cl)"
proof -
  let ?i = "[(1, Got (WsBinary [1])), (2, Got (WsPing [])), (4, Got (WsBinary [7]))]"
  let ?r = "start_connection auth_ext (\<lambda>_ _. True) 0 5 ''u'' 3 ?i auth_server"
  have "\<not> isl (fst ?r)"
    by code_simp
  then obtain sv cn out rest where r: "?r = (Inr (sv, cn), out, rest)"
    by (metis isl_def sum.collapse(2) prod.collapse)
  have "sv_jwt auth_server = Some (Hs256 ''s'')"
    by (simp add: auth_server_def)
  from auth_required [OF r this] r show ?thesis
    by blast
qed

theorem unanswered_ping_closes_witness:
  "\<not> fst (event_loop demo_ext [(0, PingTick), (1, Inbound (Got WsOther)), (2, PingTick)]
       (demo_server None None,
        \<lparr>cn_session = demo_session ''a'', cn_handle = 0, cn_awaiting_pong = False, cn_expiry = 9, cn_next_ping = 0\<rparr>))"
  using unanswered_ping_closes [of "[(1, Inbound (Got WsOther))]" demo_ext "[]" 0 2 "[]"]
  by (simp add: is_pong_def)

definition present_session :: session where
  "present_session = (demo_session ''a'')\<lparr>presence := [\<lparr>p_key = ''k'', p_path = ''/a''\<rparr>]\<rparr>"

definition present_server :: "schema_registry option \<Rightarrow> server" where
  "present_server schema =
     (demo_server None schema)\<lparr>sv_state :=
        snd (store_apply (\<lambda>_. None) store_new ''k'' (Object [(''a'', Bool True), (''b'', Bool False)]))\<rparr>"

theorem end_connection_cleans_witness:
  "\<exists>e. store_get (sv_state (end_connection demo_ext present_session (present_server None))) ''k'' = Some e \<and>
       lookup_in (e_value e) [''a''] = None \<and> lookup_in (e_value e) [''b''] = Some (Bool False)"
proof -
  have ok: "\<forall>p \<in> set (presence present_session). starts_with_slash (p_path p)"
    by code_simp
  let ?st = "sv_state (end_connection demo_ext present_session (present_server None))"
  have "store_get ?st ''k'' \<noteq> None"
    by code_simp
  then obtain e where e: "store_get ?st ''k'' = Some e"
    by auto
  have p: "presence present_session = [\<lparr>p_key = ''k'', p_path = ''/a''\<rparr>]" "path_parts ''/a'' = [''a'']"
    by code_simp+
  have b: "map_option (\<lambda>e. lookup_in (e_value e) [''b'']) (store_get (sv_state (present_server None)) ''k'') = Some (Some (Bool False))"
    by code_simp
  from end_connection_cleans [OF ok, of demo_ext "present_server None"]
  have "\<forall>p \<in> set (presence present_session). \<forall>e. store_get ?st (p_key p) = Some e \<longrightarrow>
            lookup_in (e_value e) (path_parts (p_path p)) = None"
    "(\<forall>p \<in> set (presence present_session). p_key p = ''k'' \<longrightarrow> p_path p \<noteq> ''/'' \<and> forks (path_parts (p_path p)) [''b'']) \<longrightarrow>
            map_option (\<lambda>e. lookup_in (e_value e) [''b'']) (store_get ?st ''k'') =
            map_option (\<lambda>e. lookup_in (e_value e) [''b'']) (store_get (sv_state (present_server None)) ''k'')"
    by blast+
  with e b show ?thesis
    by (auto simp: p simp del: lookup_in.simps)
qed

text \<open>
  The clean-up is not validated. With a schema that requires a field, a session that bound the field to its
  presence leaves a value behind that violates the schema: before the connection ends every stored value satisfies the
  schema, afterwards not.
\<close>

theorem cleanup_breaks_schema:
  "(let sv = present_server (Some [(''k'', Full ''Object'' False [(''a'', Simple ''Bool'')])])
    in schema_respected sv \<and> \<not> schema_respected (end_connection demo_ext present_session sv))"
proof -
  let ?sv = "present_server (Some [(''k'', Full ''Object'' False [(''a'', Simple ''Bool'')])])"
  have get: "store_get (sv_state ?sv) key =
      (if key = ''k'' then Some \<lparr>e_version = 1, e_value = Object [(''a'', Bool True), (''b'', Bool False)]\<rparr> else None)" for key
    by (simp add: present_server_def store_get_apply demo_server_def) (simp add: store_get_def store_new_def)
  have "check_schema ?sv ''k'' (Object [(''a'', Bool True), (''b'', Bool False)]) = Inr ()"
    by code_simp
  then have "schema_respected ?sv"
    by (simp add: schema_respected_def get)
  moreover have "store_get (sv_state (end_connection demo_ext present_session ?sv)) ''k'' =
      Some \<lparr>e_version = 2, e_value = Object [(''b'', Bool False)]\<rparr>"
    and "check_schema (end_connection demo_ext present_session ?sv) ''k'' (Object [(''b'', Bool False)]) \<noteq> Inr ()"
    by code_simp+
  then have "\<not> schema_respected (end_connection demo_ext present_session ?sv)"
    unfolding schema_respected_def by (metis state_entry.select_convs(2))
  ultimately show ?thesis
    by (simp add: Let_def)
qed


end
