(* ===== verification/Server_System.thy ===== *)
theory Server_System
  imports Server_Connection
begin

section \<open>The server with all its connections\<close>

text \<open>
  The composition of \<^verbatim>\<open>src/src/server.rs\<close>: \<^verbatim>\<open>listen\<close> spawns one task per accepted connection, and
  the tasks share the server. A state of the system is the shared server with the running connections, by the
  number of their handle, and the number of connections still in their handshake. The steps of the tasks interleave
  freely; one event of one connection is one step. A step of the writer takes messages out of a channel,
  and a message of another node comes in through the cluster. A connection that passes its handshake gets a session identifier
  no running session has, as \<^verbatim>\<open>Uuid::new_v4\<close> is relied on to give, and a handle number that was never used.
\<close>

record system =
  sy_server :: server
  sy_conns :: "(nat \<times> conn) list"
  sy_waiting :: nat

definition set_handle :: "nat \<Rightarrow> write_handle \<Rightarrow> server \<Rightarrow> server" where
  "set_handle hid h sv = sv\<lparr>sv_net := (sv_net sv)\<lparr>net_handles := AList.update hid h (net_handles (sv_net sv))\<rparr>\<rparr>"

text \<open>The writer of a handle takes the first \<open>n\<close> messages.\<close>

definition taken :: "nat \<Rightarrow> write_handle \<Rightarrow> write_handle" where
  "taken n h = h\<lparr>h_taken := h_taken h @ take n (h_queue h), h_queue := drop n (h_queue h)\<rparr>"

definition session_ids :: "system \<Rightarrow> string set" where
  "session_ids s = (\<lambda>(h, cn). s_id (cn_session cn)) ` set (sy_conns s)"

inductive sys_step :: "externals \<Rightarrow> system \<Rightarrow> system \<Rightarrow> bool" for x where
  Accept: "accept_conn (sy_server s) = Some sv \<Longrightarrow> sys_step x s (s\<lparr>sy_server := sv, sy_waiting := sy_waiting s + 1\<rparr>)"
| Abandon: "sy_waiting s > 0 \<Longrightarrow> sys_step x s (s\<lparr>sy_server := finish_conn (sy_server s), sy_waiting := sy_waiting s - 1\<rparr>)"
| Start: "sy_waiting s > 0 \<Longrightarrow> uuid \<notin> session_ids s \<Longrightarrow> hid \<notin> fst ` set (net_handles (sv_net (sy_server s))) \<Longrightarrow>
    hid \<notin> fst ` set (sy_conns s) \<Longrightarrow>
    start_connection x up nanos now uuid hid inbox (sy_server s) = (Inr (sv, cn), out, rest) \<Longrightarrow>
    sys_step x s (s\<lparr>sy_server := sv, sy_conns := (hid, cn) # sy_conns s, sy_waiting := sy_waiting s - 1\<rparr>)"
| Event: "map_of (sy_conns s) hid = Some cn \<Longrightarrow> ready now ev (sy_server s, cn) \<Longrightarrow>
    on_event x nanos ev (sy_server s, cn) = (True, sv, cn') \<Longrightarrow>
    sys_step x s (s\<lparr>sy_server := sv, sy_conns := AList.update hid cn' (sy_conns s)\<rparr>)"
| Close: "map_of (sy_conns s) hid = Some cn \<Longrightarrow> ready now ev (sy_server s, cn) \<Longrightarrow>
    on_event x nanos ev (sy_server s, cn) = (False, sv, cn') \<Longrightarrow>
    sys_step x s (s\<lparr>sy_server := finish_conn (end_connection x (cn_session cn') sv), sy_conns := AList.delete hid (sy_conns s)\<rparr>)"
| Peer: "sv_cluster (sy_server s) = Some cl \<Longrightarrow>
    handle_pubsub_message (x_pdec x) cl channel payload (sv_bus (sy_server s), sv_net (sy_server s)) = (bus, net) \<Longrightarrow>
    sys_step x s (s\<lparr>sy_server := (sy_server s)\<lparr>sv_bus := bus, sv_net := net\<rparr>\<rparr>)"
| Write: "map_of (net_handles (sv_net (sy_server s))) hid = Some h \<Longrightarrow> h' = taken n h \<or> h' = h\<lparr>h_closed := True\<rparr> \<Longrightarrow>
    sys_step x s (s\<lparr>sy_server := set_handle hid h' (sy_server s)\<rparr>)"

definition sys_init :: "server \<Rightarrow> system" where
  "sys_init sv = \<lparr>sy_server = sv, sy_conns = [], sy_waiting = 0\<rparr>"

subsection \<open>What handlers never change\<close>

text \<open>The server without what handlers work on, and the identity of a session.\<close>

definition config :: "server \<Rightarrow> server" where
  "config sv = sv\<lparr>sv_state := store_new, sv_bus := bus_new, sv_net := \<lparr>net_handles = [], net_pool = []\<rparr>, sv_tasks := []\<rparr>"

definition party :: "session \<Rightarrow> string \<times> string option \<times> json" where
  "party se = (s_id se, s_sub se, s_claims se)"

lemma config_parts:
  assumes "config sv = config sv'"
  shows "sv_acl sv = sv_acl sv'" "sv_schema sv = sv_schema sv'" "sv_jwt sv = sv_jwt sv'" "sv_connections sv = sv_connections sv'"
    "sv_max_connections sv = sv_max_connections sv'" "sv_cluster sv = sv_cluster sv'"
    "sv_max_frame_bytes sv = sv_max_frame_bytes sv'"
  using assms by (cases sv, cases sv', simp add: config_def)+

lemma config_simps [simp]:
  "config (send_msg h m sv) = config sv"
  "config (broadcast_timed key b ex sv) = config sv"
  "config (deliver_own h se key b sv) = config sv"
  "config (cluster_sync x key v w b sv) = config sv"
  "config (cluster_sync_delete x key b sv) = config sv"
  "config (sv\<lparr>sv_state := st\<rparr>) = config sv"
  "config (sv\<lparr>sv_bus := bus\<rparr>) = config sv"
  "config (sv\<lparr>sv_bus := bus, sv_net := net\<rparr>) = config sv"
  "config (set_handle hid wh sv) = config sv"
  by (simp_all add: config_def send_msg_def broadcast_timed_def deliver_own_def cluster_sync_def cluster_sync_delete_def
      set_handle_def split_def Let_def split: option.split)

lemma config_commit [simp]: "config (snd (commit x h se key v sv)) = config sv"
  by (simp add: commit_def split_def Let_def)

lemma config_drop_key [simp]: "config (snd (drop_key x h se key sv)) = config sv"
  by (simp add: drop_key_def Let_def split: prod.split option.split)

lemma party_simps [simp]:
  "party (se\<lparr>seq_counter := n\<rparr>) = party se" "party (add_presence key p se) = party se"
  "party (snd (remove_watch sid se)) = party se" "party (ack_stream sid n se) = party se"
  "party (add_watch sid key ps se) = party se" "party (se\<lparr>next_stream_id := m\<rparr>) = party se"
  "party (snd (take_write_token now se)) = party se" "party (snd (take_watch_token now se)) = party se"
  by (simp_all add: party_def remove_watch_def ack_stream_def add_watch_def split: option.split)

text \<open>Both facts together, for a handler's effect.\<close>

definition keeps :: "ctx \<Rightarrow> ctx \<Rightarrow> bool" where
  "keeps c c' \<longleftrightarrow> config (fst c') = config (fst c) \<and> party (snd c') = party (snd c)"

lemma keeps_refl [simp]: "keeps c c"
  by (simp add: keeps_def)

lemma keeps_trans: "keeps c c' \<Longrightarrow> keeps c' c'' \<Longrightarrow> keeps c c''"
  by (simp add: keeps_def)

lemma keeps_reply [simp]:
  "keeps (sv, se) (reply_error h sid code msg c) = keeps (sv, se) c"
  "keeps (sv, se) (reply_ok h sid cid v c) = keeps (sv, se) c"
  by (cases c, simp add: keeps_def reply_error_eq reply_ok_eq)+

lemma keeps_execute: "keeps (sv, se) (execute x h sid cid p (sv, se))"
  by (cases p) (simp_all add: execute_def keeps_def reply_error_eq reply_ok_eq split: option.split)

lemma keeps_handle_call: "keeps (sv, se) (handle_call x now h f (sv, se))"
proof -
  obtain cid p se1 where run: "handle_call x now h f (sv, se) = execute x h (stream_id f) cid p (sv, se1)"
    and "se1 = se \<or> se1 = snd (take_write_token now se)"
    using handle_call_executes [of x now h f sv se] by metis
  then have "party se1 = party se"
    by auto
  with keeps_execute [of sv se1 x h "stream_id f" cid p] show ?thesis
    by (simp add: run keeps_def)
qed

lemma keeps_subscribe_key: "keeps c (subscribe_key h key ps c)"
  by (simp add: keeps_def subscribe_key_eq open_stream_eq send_state_init_eq)

lemma keeps_watch_keys: "keeps c (watch_keys h ps keys c)"
proof (induction keys arbitrary: c)
  case (Cons key keys)
  have "keeps c (if \<not> may_read (fst c) (snd c) key then reply_error h 0 403 (''forbidden: '' @ key) c else subscribe_key h key ps c)"
    by (cases c) (simp add: keeps_subscribe_key del: append.simps)
  from keeps_trans [OF this Cons.IH] show ?case
    by (simp del: append.simps)
qed simp

lemma keeps_handle_watch: "keeps (sv, se) (handle_watch now h f (sv, se))"
  using keeps_watch_keys [of "(sv, snd (take_watch_token now se))" h]
  by (auto simp: handle_watch_def keeps_def reply_error_eq split_def Let_def split: option.split)

lemma keeps_replay_missed: "keeps c (replay_missed x h sid ms c)"
  by (induction ms arbitrary: c) (simp_all add: replay_missed_Cons keeps_def)

lemma keeps_handle_resume: "keeps (sv, se) (handle_resume x now h f (sv, se))"
  using keeps_replay_missed [of "snd (open_stream h _ _ (sv, snd (take_watch_token now se)))" x h]
  by (auto simp: handle_resume_def keeps_def reply_error_eq split_def Let_def open_stream_eq send_state_init_eq split: option.split)

lemma keeps_unwatch_keys: "keeps c (unwatch_keys keys c)"
  by (induction keys c rule: unwatch_keys.induct) (simp_all add: keeps_def split: option.split)

lemma keeps_handle_frame: "keeps c (handle_frame x now h f c)"
  using keeps_handle_watch keeps_handle_resume keeps_handle_call keeps_unwatch_keys
  by (cases c) (simp add: handle_frame_def handle_unwatch_def keeps_def split: option.split)

subsection \<open>Presence paths\<close>

text \<open>The paths a session has bound begin with a slash: \<^verbatim>\<open>json_set_in\<close> refuses others.\<close>

definition paths_ok :: "session \<Rightarrow> bool" where
  "paths_ok se \<longleftrightarrow> (\<forall>p \<in> set (presence se). starts_with_slash (p_path p))"

lemma paths_ok_simps [simp]:
  "paths_ok (se\<lparr>seq_counter := n\<rparr>) = paths_ok se" "paths_ok (snd (remove_watch sid se)) = paths_ok se"
  "paths_ok (ack_stream sid n se) = paths_ok se" "paths_ok (add_watch sid key ps se) = paths_ok se"
  "paths_ok (se\<lparr>next_stream_id := m\<rparr>) = paths_ok se" "paths_ok (snd (take_write_token now se)) = paths_ok se"
  "paths_ok (snd (take_watch_token now se)) = paths_ok se"
  by (simp_all add: paths_ok_def remove_watch_def ack_stream_def add_watch_def split: option.split)

lemma nested_update_path: "nested_update m sv args = Inr (key, path, v) \<Longrightarrow> starts_with_slash path"
  by (auto simp: nested_update_def json_set_in_def starts_with_slash_def Let_def split: option.splits sum.splits if_splits)

lemma plan_of_path: "plan_of m args sv = Store key v (Some path) \<Longrightarrow> starts_with_slash path"
  by (auto simp: plan_of_def Let_def dest: nested_update_path split: if_splits option.splits sum.splits json.splits prod.splits)

lemma execute_paths_ok:
  assumes "paths_ok se" and "\<And>key v path. p = Store key v (Some path) \<Longrightarrow> starts_with_slash path"
  shows "paths_ok (snd (execute x h sid cid p (sv, se)))"
  using assms by (cases p)
    (auto simp: execute_def reply_error_eq reply_ok_eq paths_ok_def add_presence_def split: option.split)

lemma handle_call_paths_ok:
  assumes "paths_ok se"
  shows "paths_ok (snd (handle_call x now h f (sv, se)))"
proof (cases "get_str (body f) ''method''")
  case None
  with assms show ?thesis
    by (simp add: handle_call_plan Let_def execute_def reply_error_eq)
next
  case (Some m)
  have se: "paths_ok (snd (take_write_token now se))"
    using assms by simp
  show ?thesis
    unfolding handle_call_plan Let_def Some option.case
    by (rule execute_paths_ok [OF se]) (auto dest: plan_of_path split: if_splits)
qed

lemma watch_keys_paths_ok: "paths_ok (snd (watch_keys h ps keys c)) = paths_ok (snd c)"
  by (induction keys arbitrary: c) (simp_all add: subscribe_key_eq open_stream_eq send_state_init_eq del: append.simps)

lemma unwatch_keys_paths_ok: "paths_ok (snd (unwatch_keys keys c)) = paths_ok (snd c)"
  by (induction keys c rule: unwatch_keys.induct) (simp_all split: option.split)

lemma handle_watch_paths_ok: "paths_ok (snd (handle_watch now h f c)) = paths_ok (snd c)"
  by (cases c) (simp add: handle_watch_def watch_keys_paths_ok reply_error_eq split_def Let_def split: option.split)

lemma handle_resume_paths_ok: "paths_ok (snd (handle_resume x now h f c)) = paths_ok (snd c)"
  by (cases c) (simp add: handle_resume_def replay_missed_session open_stream_eq send_state_init_eq
      reply_error_eq split_def Let_def split: option.split)

lemma handle_frame_paths_ok: "paths_ok (snd c) \<Longrightarrow> paths_ok (snd (handle_frame x now h f c))"
  by (cases c) (simp add: handle_frame_def handle_unwatch_def handle_watch_paths_ok handle_resume_paths_ok
      unwatch_keys_paths_ok handle_call_paths_ok split: option.split)

subsection \<open>What an event leaves of a connection\<close>

text \<open>A connection handles a frame, or nothing of it but the timers and the handle's messages changes.\<close>

definition control :: "outbound_msg \<Rightarrow> bool" where
  "control m = (case m of FrameMsg f \<Rightarrow> frame_type f = ERROR | Ping \<Rightarrow> True | Pong _ \<Rightarrow> True | _ \<Rightarrow> False)"

definition plain_change :: "server \<times> conn \<Rightarrow> server \<times> conn \<Rightarrow> bool" where
  "plain_change c c' \<longleftrightarrow>
     (fst c' = fst c \<or> (\<exists>m. control m \<and> fst c' = send_msg (cn_handle (snd c)) m (fst c))) \<and>
     cn_session (snd c') = cn_session (snd c) \<and> cn_handle (snd c') = cn_handle (snd c)"

lemma control_simps [simp]: "control Ping" "control (Pong d)" "control (FrameMsg (error sid sq code msg))"
  by (simp_all add: control_def error_def)

lemma plain_changeI:
  "cn_session cn' = cn_session cn \<Longrightarrow> cn_handle cn' = cn_handle cn \<Longrightarrow> plain_change (sv, cn) (sv, cn')"
  "control m \<Longrightarrow> cn_session cn' = cn_session cn \<Longrightarrow> cn_handle cn' = cn_handle cn \<Longrightarrow>
     plain_change (sv, cn) (send_msg (cn_handle cn) m sv, cn')"
  by (auto simp: plain_change_def)

lemma plain_change_parts:
  "plain_change c c' \<Longrightarrow> config (fst c') = config (fst c) \<and> sv_bus (fst c') = sv_bus (fst c) \<and> sv_state (fst c') = sv_state (fst c)"
  by (auto simp: plain_change_def)

definition frame_change :: "externals \<Rightarrow> nat \<Rightarrow> frame \<Rightarrow> server \<times> conn \<Rightarrow> server \<times> conn \<Rightarrow> bool" where
  "frame_change x nanos f c c' \<longleftrightarrow>
     c' = (fst (handle_frame x nanos (cn_handle (snd c)) f (fst c, cn_session (snd c))),
           (snd c)\<lparr>cn_session := snd (handle_frame x nanos (cn_handle (snd c)) f (fst c, cn_session (snd c)))\<rparr>)"

lemma on_message_change:
  "plain_change c (snd (on_message x nanos m c)) \<or>
   (\<exists>bs f. x_fdec x bs = Some f \<and> length bs \<le> sv_max_frame_bytes (fst c) \<and>
      frame_change x nanos f c (snd (on_message x nanos m c)))"
proof (cases c)
  case (Pair sv cn)
  show ?thesis
  proof (cases "\<exists>bs f. m = Got (WsBinary bs) \<and> \<not> length bs > sv_max_frame_bytes sv \<and> x_fdec x bs = Some f")
    case True
    then obtain bs f where "m = Got (WsBinary bs)" "length bs \<le> sv_max_frame_bytes sv" "x_fdec x bs = Some f"
      by auto
    then show ?thesis
      by (intro disjI2 exI [of _ bs] exI [of _ f]) (simp add: Pair on_message_def frame_change_def split_def Let_def)
  next
    case False
    then have "plain_change c (snd (on_message x nanos m c))"
      by (auto simp: Pair on_message_def plain_changeI split: recv.split ws_msg.split option.split)
    then show ?thesis ..
  qed
qed

lemma on_event_change:
  "plain_change c (snd (on_event x nanos ev c)) \<or>
   (\<exists>bs f. x_fdec x bs = Some f \<and> length bs \<le> sv_max_frame_bytes (fst c) \<and>
      frame_change x nanos f c (snd (on_event x nanos ev c)))"
proof (cases ev)
  case (Inbound m)
  then show ?thesis
    using on_message_change [of c x nanos m] by (simp add: on_event_def split_def)
qed (cases c, simp add: on_event_def plain_changeI)+

lemma on_event_keeps:
  assumes "on_event x nanos ev (sv, cn) = (go, sv', cn')"
  shows "config sv' = config sv \<and> party (cn_session cn') = party (cn_session cn) \<and> cn_handle cn' = cn_handle cn \<and>
      granted (cn_handle cn) (sv, cn_session cn) (sv_bus sv') \<and> (paths_ok (cn_session cn) \<longrightarrow> paths_ok (cn_session cn'))"
proof -
  consider (plain) "plain_change (sv, cn) (sv', cn')" | (handled) f where "frame_change x nanos f (sv, cn) (sv', cn')"
    using on_event_change [of "(sv, cn)" x nanos ev] assms by force
  then show ?thesis
  proof cases
    case plain
    then show ?thesis
      using granted_refl [of "cn_handle cn" "(sv, cn_session cn)"] plain_change_parts [OF plain] by (simp add: plain_change_def)
  next
    case (handled f)
    then show ?thesis
      using keeps_handle_frame [of "(sv, cn_session cn)" x nanos "cn_handle cn" f]
        handle_frame_granted [of "cn_handle cn" "(sv, cn_session cn)" x nanos f]
        handle_frame_paths_ok [of "(sv, cn_session cn)" x nanos "cn_handle cn" f]
      by (simp add: keeps_def frame_change_def)
  qed
qed

lemma presence_cleanup_config: "config (presence_cleanup x ps sv) = config sv"
  by (induction ps arbitrary: sv) (simp_all add: split_def Let_def split: option.split)

lemma end_connection_config: "config (end_connection x se sv) = config sv"
  by (simp add: end_connection_def Let_def presence_cleanup_config)

lemma end_connection_subs:
  "s \<in> set (subscribers (sv_bus (end_connection x se sv)) k) \<Longrightarrow>
     s \<in> set (subscribers (sv_bus sv) k) \<and> sub_session s \<noteq> s_id se"
  using presence_cleanup_subset [of x "presence se" sv k]
  by (auto simp: end_connection_def Let_def subscribers_remove_session)


subsection \<open>The invariant\<close>

definition authenticated :: "externals \<Rightarrow> jwt_config \<Rightarrow> session \<Rightarrow> bool" where
  "authenticated x cfg se \<longleftrightarrow>
     (\<exists>now token cl. validate_jwt x now token cfg = Inr cl \<and> s_sub se = Some (c_sub cl) \<and> s_claims se = Object (c_extra cl))"

definition conn_ok :: "externals \<Rightarrow> server \<Rightarrow> nat \<Rightarrow> conn \<Rightarrow> bool" where
  "conn_ok x sv h cn \<longleftrightarrow>
     cn_handle cn = h \<and> paths_ok (cn_session cn) \<and>
     (case sv_jwt sv of None \<Rightarrow> True | Some cfg \<Rightarrow> authenticated x cfg (cn_session cn))"

definition conns_ok :: "externals \<Rightarrow> system \<Rightarrow> bool" where
  "conns_ok x s \<longleftrightarrow>
     distinct (map fst (sy_conns s)) \<and>
     (\<forall>h cn. map_of (sy_conns s) h = Some cn \<longrightarrow> conn_ok x (sy_server s) h cn) \<and>
     (\<forall>h h' cn cn'. map_of (sy_conns s) h = Some cn \<longrightarrow> map_of (sy_conns s) h' = Some cn' \<longrightarrow>
        s_id (cn_session cn) = s_id (cn_session cn') \<longrightarrow> h = h')"

text \<open>Every subscription belongs to a running connection that may read the key.\<close>

definition subs_ok :: "system \<Rightarrow> bool" where
  "subs_ok s \<longleftrightarrow>
     (\<forall>k. \<forall>sub \<in> set (subscribers (sv_bus (sy_server s)) k).
        \<exists>cn. map_of (sy_conns s) (sub_write sub) = Some cn \<and> sub_session sub = s_id (cn_session cn) \<and>
             may_read (sy_server s) (cn_session cn) k)"

definition count_ok :: "system \<Rightarrow> bool" where
  "count_ok s \<longleftrightarrow>
     sv_connections (sy_server s) = sy_waiting s + length (sy_conns s) \<and>
     (case sv_max_connections (sy_server s) of None \<Rightarrow> True | Some limit \<Rightarrow> sv_connections (sy_server s) \<le> limit)"

definition sys_ok :: "externals \<Rightarrow> system \<Rightarrow> bool" where
  "sys_ok x s \<longleftrightarrow> conns_ok x s \<and> subs_ok s \<and> count_ok s"

lemma may_read_party:
  "config sv = config sv' \<Longrightarrow> party se = party se' \<Longrightarrow> may_read sv se = may_read sv' se'"
  using config_parts(1) [of sv sv'] may_read_cong [of sv sv' se se'] by (simp add: party_def)

lemma conn_ok_cong:
  "conn_ok x sv h cn \<Longrightarrow> config sv' = config sv \<Longrightarrow> party (cn_session cn') = party (cn_session cn) \<Longrightarrow>
     cn_handle cn' = cn_handle cn \<Longrightarrow> paths_ok (cn_session cn') \<Longrightarrow> conn_ok x sv' h cn'"
  using config_parts(3) [of sv' sv] by (auto simp: conn_ok_def authenticated_def party_def split: option.splits)

lemma finish_conn_simps [simp]:
  "sv_bus (finish_conn sv) = sv_bus sv" "sv_acl (finish_conn sv) = sv_acl sv" "sv_jwt (finish_conn sv) = sv_jwt sv"
  "sv_connections (finish_conn sv) = sv_connections sv - 1" "sv_max_connections (finish_conn sv) = sv_max_connections sv"
  "sv_state (finish_conn sv) = sv_state sv" "sv_net (finish_conn sv) = sv_net sv"
  by (simp_all add: finish_conn_def)

lemma accept_conn_Some:
  "accept_conn sv = Some sv' \<Longrightarrow> sv' = sv\<lparr>sv_connections := sv_connections sv + 1\<rparr> \<and>
     (case sv_max_connections sv of None \<Rightarrow> True | Some limit \<Rightarrow> sv_connections sv < limit)"
  by (auto simp: accept_conn_def split: if_splits option.splits)

lemma start_connection_keeps:
  assumes "start_connection x up nanos now uuid hid inbox sv = (Inr (sv', cn), out, rest)"
  shows "config sv' = config sv \<and> sv_bus sv' = sv_bus sv \<and> sv_state sv' = sv_state sv \<and> s_id (cn_session cn) = uuid \<and>
         watches (cn_session cn) = [] \<and> conn_ok x sv' hid cn \<and> cn_session cn =
           (session_new uuid nanos (sv_rate_writes sv) (sv_rate_watches sv))
             \<lparr>s_sub := s_sub (cn_session cn), s_claims := s_claims (cn_session cn)\<rparr>"
  using assms
proof (cases rule: start_connection_cases)
  case anonymous
  from new_conn_parts [OF anonymous(2)] anonymous(1) show ?thesis
    by (simp add: session_new_def conn_ok_def paths_ok_def config_def)
next
  case (authenticated cfg cl out0)
  have "authenticated x cfg (cn_session cn)"
    using auth_handshake_Inr [OF authenticated(2)] new_conn_parts [OF authenticated(3)]
    by (auto simp: token_accepted_def Server_System.authenticated_def)
  with new_conn_parts [OF authenticated(3)] authenticated(1) show ?thesis
    by (simp add: session_new_def conn_ok_def paths_ok_def config_def)
qed

lemma length_delete_key:
  assumes "distinct (map fst m)" and "map_of m k \<noteq> None"
  shows "length (AList.delete k m) = length m - 1"
proof -
  have "k \<in> set (map fst m)"
    using assms(2) by (auto simp: map_of_eq_None_iff)
  moreover have "length (AList.delete k m) = length (removeAll k (map fst m))"
    by (metis delete_keys length_map)
  ultimately show ?thesis
    using distinct_remove1_removeAll [OF assms(1), of k] length_remove1 [of k "map fst m"] by simp
qed

text \<open>Changing one connection without changing who it is.\<close>

lemma conns_ok_update:
  assumes "conns_ok x s" and "map_of (sy_conns s) hid = Some cn" and "conn_ok x sv hid cn'"
    and "config sv = config (sy_server s)" and "s_id (cn_session cn') = s_id (cn_session cn)"
  shows "conns_ok x (s\<lparr>sy_server := sv, sy_conns := AList.update hid cn' (sy_conns s)\<rparr>)"
proof -
  have "conn_ok x sv h cn0" if "map_of (sy_conns s) h = Some cn0" for h cn0
    using assms(1) that config_parts(3) [OF assms(4)] unfolding conns_ok_def conn_ok_def by metis
  then show ?thesis
    using assms by (auto simp: conns_ok_def update_conv' keys_update_existing)
qed

lemma conns_ok_server:
  assumes "conns_ok x s" and "sv_jwt sv = sv_jwt (sy_server s)"
  shows "conns_ok x (s\<lparr>sy_server := sv\<rparr>)"
  using assms by (simp add: conns_ok_def conn_ok_def)

lemma conns_ok_delete:
  assumes "conns_ok x s"
  shows "conns_ok x (s\<lparr>sy_conns := AList.delete hid (sy_conns s)\<rparr>)"
  using assms by (auto simp: conns_ok_def delete_conv' distinct_delete split: if_splits)

lemma subs_ok_server:
  assumes "subs_ok s" and "sv_acl sv = sv_acl (sy_server s)"
    and "\<And>k. set (subscribers (sv_bus sv) k) \<subseteq> set (subscribers (sv_bus (sy_server s)) k)"
  shows "subs_ok (s\<lparr>sy_server := sv\<rparr>)"
proof -
  have "may_read sv se = may_read (sy_server s) se" for se
    using assms(2) by (intro may_read_cong) simp_all
  with assms(1,3) show ?thesis
    by (fastforce simp: subs_ok_def)
qed

lemma subs_ok_granted:
  assumes "subs_ok s" and "map_of (sy_conns s) hid = Some cn" and "config sv = config (sy_server s)"
    and "party (cn_session cn') = party (cn_session cn)" and "granted hid (sy_server s, cn_session cn) (sv_bus sv)"
  shows "subs_ok (s\<lparr>sy_server := sv, sy_conns := AList.update hid cn' (sy_conns s)\<rparr>)"
  unfolding subs_ok_def
proof (intro allI ballI)
  fix k sub
  assume "sub \<in> set (subscribers (sv_bus (sy_server (s\<lparr>sy_server := sv, sy_conns := AList.update hid cn' (sy_conns s)\<rparr>))) k)"
  then consider (old) "sub \<in> set (subscribers (sv_bus (sy_server s)) k)"
    | (new) "sub_session sub = s_id (cn_session cn)" "sub_write sub = hid" "may_read (sy_server s) (cn_session cn) k"
    using assms(5) by (auto simp: granted_def)
  then obtain cn0 where cn0: "map_of (sy_conns s) (sub_write sub) = Some cn0" "sub_session sub = s_id (cn_session cn0)"
      "may_read (sy_server s) (cn_session cn0) k"
    using assms(1,2) by cases (auto simp: subs_ok_def)
  have eq: "may_read sv se' = may_read (sy_server s) se" if "party se' = party se" for se se'
    using that assms(3) by (intro may_read_party) auto
  show "\<exists>c. map_of (sy_conns (s\<lparr>sy_server := sv, sy_conns := AList.update hid cn' (sy_conns s)\<rparr>)) (sub_write sub) = Some c \<and>
      sub_session sub = s_id (cn_session c) \<and>
      may_read (sy_server (s\<lparr>sy_server := sv, sy_conns := AList.update hid cn' (sy_conns s)\<rparr>)) (cn_session c) k"
  proof (cases "sub_write sub = hid")
    case True
    with cn0 assms(2,4) eq [OF assms(4)] show ?thesis
      by (auto simp: update_conv' party_def)
  next
    case False
    with cn0 eq [OF refl] show ?thesis
      by (auto simp: update_conv')
  qed
qed

lemma subs_ok_delete:
  assumes "subs_ok s" and "\<And>k sub. sub \<in> set (subscribers (sv_bus (sy_server s)) k) \<Longrightarrow> sub_write sub \<noteq> hid"
  shows "subs_ok (s\<lparr>sy_conns := AList.delete hid (sy_conns s)\<rparr>)"
  using assms by (fastforce simp: subs_ok_def delete_conv')


lemma sys_ok_start:
  assumes ok: "sys_ok x s" and w: "sy_waiting s > 0" and fresh: "uuid \<notin> session_ids s"
    and new: "map_of (sy_conns s) hid = None"
    and start: "start_connection x up nanos now uuid hid inbox (sy_server s) = (Inr (sv, cn), out, rest)"
  shows "sys_ok x (s\<lparr>sy_server := sv, sy_conns := (hid, cn) # sy_conns s, sy_waiting := sy_waiting s - 1\<rparr>)"
proof -
  have cfg: "config sv = config (sy_server s)" and bus: "sv_bus sv = sv_bus (sy_server s)"
    and id: "s_id (cn_session cn) = uuid" and c: "conn_ok x sv hid cn"
    using start_connection_keeps [OF start] by blast+
  have old: "conn_ok x sv h c" "s_id (cn_session c) \<noteq> uuid" if "map_of (sy_conns s) h = Some c" for h c
  proof -
    show "conn_ok x sv h c"
      using ok that config_parts(3) [OF cfg] unfolding sys_ok_def conns_ok_def conn_ok_def by metis
    show "s_id (cn_session c) \<noteq> uuid"
      using fresh map_of_SomeD [OF that] by (force simp: session_ids_def)
  qed
  have "conns_ok x (s\<lparr>sy_server := sv, sy_conns := (hid, cn) # sy_conns s, sy_waiting := sy_waiting s - 1\<rparr>)"
    using ok c id new old by (fastforce simp: sys_ok_def conns_ok_def map_of_eq_None_iff)
  moreover have "subs_ok (s\<lparr>sy_server := sv, sy_conns := (hid, cn) # sy_conns s, sy_waiting := sy_waiting s - 1\<rparr>)"
  proof -
    have "may_read sv se = may_read (sy_server s) se" for se
      using may_read_party [OF cfg refl] .
    then show ?thesis
      using ok bus new unfolding sys_ok_def subs_ok_def by fastforce
  qed
  moreover have "count_ok (s\<lparr>sy_server := sv, sy_conns := (hid, cn) # sy_conns s, sy_waiting := sy_waiting s - 1\<rparr>)"
    using ok w config_parts(4,5) [OF cfg] by (auto simp: sys_ok_def count_ok_def split: option.splits)
  ultimately show ?thesis
    by (simp add: sys_ok_def)
qed

lemma sys_ok_event:
  assumes ok: "sys_ok x s" and cn: "map_of (sy_conns s) hid = Some cn"
    and ev: "on_event x nanos ev (sy_server s, cn) = (go, sv, cn')"
  shows "sys_ok x (s\<lparr>sy_server := sv, sy_conns := AList.update hid cn' (sy_conns s)\<rparr>)"
proof -
  note k = on_event_keeps [OF ev]
  have c: "conn_ok x (sy_server s) hid cn"
    using ok cn by (auto simp: sys_ok_def conns_ok_def)
  then have h: "cn_handle cn = hid" and p: "paths_ok (cn_session cn)"
    by (simp_all add: conn_ok_def)
  have cfg: "config sv = config (sy_server s)" and pt: "party (cn_session cn') = party (cn_session cn)"
    and g: "granted hid (sy_server s, cn_session cn) (sv_bus sv)"
    using k h by simp_all
  have "conn_ok x sv hid cn'"
    using conn_ok_cong [OF c, of sv cn'] k p by blast
  then have "conns_ok x (s\<lparr>sy_server := sv, sy_conns := AList.update hid cn' (sy_conns s)\<rparr>)"
    using ok cn cfg pt by (intro conns_ok_update) (auto simp: sys_ok_def party_def)
  moreover have "subs_ok (s\<lparr>sy_server := sv, sy_conns := AList.update hid cn' (sy_conns s)\<rparr>)"
    using ok cn cfg pt g by (intro subs_ok_granted) (auto simp: sys_ok_def)
  moreover have "length (AList.update hid cn' (sy_conns s)) = length (sy_conns s)"
    using keys_update_existing [of "sy_conns s" hid cn'] cn map_eq_imp_length_eq [of fst _ fst "sy_conns s"] by auto
  then have "count_ok (s\<lparr>sy_server := sv, sy_conns := AList.update hid cn' (sy_conns s)\<rparr>)"
    using ok config_parts(4,5) [OF cfg] by (auto simp: sys_ok_def count_ok_def split: option.splits)
  ultimately show ?thesis
    by (simp add: sys_ok_def)
qed

text \<open>When a connection ends, its subscriptions are gone.\<close>

lemma sys_ok_end:
  assumes ok: "sys_ok x s" and cn: "map_of (sy_conns s) hid = Some cn"
  shows "sys_ok x (s\<lparr>sy_server := finish_conn (end_connection x (cn_session cn) (sy_server s)),
                     sy_conns := AList.delete hid (sy_conns s)\<rparr>)"
proof -
  let ?sv = "end_connection x (cn_session cn) (sy_server s)"
  let ?s = "s\<lparr>sy_server := finish_conn ?sv\<rparr>"
  have cfg: "config ?sv = config (sy_server s)"
    by (simp add: end_connection_config)
  have c: "conns_ok x ?s"
    using ok config_parts(3) [OF cfg] by (intro conns_ok_server) (simp_all add: sys_ok_def)
  have sub: "set (subscribers (sv_bus ?sv) k) \<subseteq> set (subscribers (sv_bus (sy_server s)) k)" for k
    using end_connection_subs by blast
  have b: "subs_ok ?s"
    using ok config_parts(1) [OF cfg] sub by (intro subs_ok_server) (simp_all add: sys_ok_def)
  have "sub_write sb \<noteq> hid" if "sb \<in> set (subscribers (sv_bus ?sv) k)" for k sb
    using end_connection_subs [OF that] ok cn by (fastforce simp: sys_ok_def subs_ok_def)
  then have "subs_ok (?s\<lparr>sy_conns := AList.delete hid (sy_conns ?s)\<rparr>)"
    by (intro subs_ok_delete [OF b]) simp
  moreover have "length (AList.delete hid (sy_conns s)) = length (sy_conns s) - 1" "sy_conns s \<noteq> []"
    using ok cn length_delete_key [of "sy_conns s" hid] by (auto simp: sys_ok_def conns_ok_def)
  then have "count_ok (?s\<lparr>sy_conns := AList.delete hid (sy_conns ?s)\<rparr>)"
    using ok config_parts(4,5) [OF cfg] by (cases "sy_conns s") (auto simp: sys_ok_def count_ok_def split: option.splits)
  ultimately show ?thesis
    using conns_ok_delete [OF c, of hid] by (simp add: sys_ok_def)
qed

lemma sys_ok_server:
  assumes "sys_ok x s" and "config sv = config (sy_server s)"
    and "\<And>k. set (subscribers (sv_bus sv) k) \<subseteq> set (subscribers (sv_bus (sy_server s)) k)"
  shows "sys_ok x (s\<lparr>sy_server := sv\<rparr>)"
  using assms config_parts [OF assms(2)] conns_ok_server [of x s sv] subs_ok_server [of s sv]
  by (auto simp: sys_ok_def count_ok_def split: option.splits)

lemma sys_ok_counters:
  assumes "sys_ok x s" and "sv_jwt sv = sv_jwt (sy_server s)" and "sv_acl sv = sv_acl (sy_server s)"
    and "sv_bus sv = sv_bus (sy_server s)" and "count_ok (s\<lparr>sy_server := sv, sy_waiting := n\<rparr>)"
  shows "sys_ok x (s\<lparr>sy_server := sv, sy_waiting := n\<rparr>)"
proof -
  have "conns_ok x (s\<lparr>sy_server := sv\<rparr>)" "subs_ok (s\<lparr>sy_server := sv\<rparr>)"
    using assms conns_ok_server [of x s sv] subs_ok_server [of s sv] by (simp_all add: sys_ok_def)
  with assms(5) show ?thesis
    by (simp add: sys_ok_def conns_ok_def subs_ok_def)
qed

lemma broadcast_subset_pair:
  "broadcast_encoded key b ex (bus, net) = (bus', net') \<Longrightarrow> set (subscribers bus' k) \<subseteq> set (subscribers bus k)"
  using broadcast_subset [of key b ex bus net k] by simp

lemma pubsub_subset:
  "handle_pubsub_message pdec cl ch pl (bus, net) = (bus', net') \<Longrightarrow> set (subscribers bus' k) \<subseteq> set (subscribers bus k)"
  by (simp add: handle_pubsub_message_def Let_def broadcast_subset_pair
      split: option.splits prod.splits if_splits)

lemma sys_ok_step:
  assumes "sys_ok x s" and "sys_step x s s'"
  shows "sys_ok x s'"
  using assms(2)
proof (cases rule: sys_step.cases)
  case (Accept sv)
  from accept_conn_Some [OF Accept(2)] have "sys_ok x (s\<lparr>sy_server := sv, sy_waiting := sy_waiting s + 1\<rparr>)"
    using assms(1) by (intro sys_ok_counters) (auto simp: sys_ok_def count_ok_def split: option.splits)
  with Accept(1) show ?thesis
    by simp
next
  case Abandon
  then have "sys_ok x (s\<lparr>sy_server := finish_conn (sy_server s), sy_waiting := sy_waiting s - 1\<rparr>)"
    using assms(1) by (intro sys_ok_counters) (auto simp: sys_ok_def count_ok_def split: option.splits)
  with Abandon(1) show ?thesis
    by simp
next
  case (Start uuid hid up nanos now inbox sv cn out rest)
  have "map_of (sy_conns s) hid = None"
    using Start(5) by (simp add: map_of_eq_None_iff)
  with Start sys_ok_start [OF assms(1)] show ?thesis
    by simp
next
  case (Event hid cn now ev nanos sv cn')
  with sys_ok_event [OF assms(1)] show ?thesis
    by simp
next
  case (Close hid cn now ev nanos sv cn')
  let ?s = "s\<lparr>sy_server := sv, sy_conns := AList.update hid cn' (sy_conns s)\<rparr>"
  have "sys_ok x ?s"
    using sys_ok_event [OF assms(1) Close(2) Close(4)] .
  from sys_ok_end [OF this, of hid cn'] Close(1) show ?thesis
    by (simp add: update_conv' delete_update_same)
next
  case (Peer cl channel payload bus net)
  have "set (subscribers bus k) \<subseteq> set (subscribers (sv_bus (sy_server s)) k)" for k
    using pubsub_subset [OF Peer(3)] .
  with Peer(1) sys_ok_server [OF assms(1), of "(sy_server s)\<lparr>sv_bus := bus, sv_net := net\<rparr>"] show ?thesis
    by simp
next
  case (Write hid h h' n)
  have "sv_bus (set_handle hid h' (sy_server s)) = sv_bus (sy_server s)"
    by (simp add: set_handle_def)
  with Write(1) sys_ok_server [OF assms(1), of "set_handle hid h' (sy_server s)"] show ?thesis
    by simp
qed

interpretation server_system: inv_relation "sys_step x" "sys_ok x"
  by unfold_locales (rule sys_ok_step)

lemma sys_ok_init:
  assumes "sv_bus sv = bus_new" and "sv_connections sv = 0"
  shows "sys_ok x (sys_init sv)"
  using assms by (simp add: sys_ok_def conns_ok_def subs_ok_def count_ok_def sys_init_def subscribers_def bus_new_def
      split: option.split)

subsection \<open>Properties\<close>

text \<open>
  C2. Isolation of sessions. In every state reachable from a server without subscriptions and connections, by any
  interleaving of accepts, handshakes, frames, timers, closes, writers and messages of other nodes: a subscription
  belongs to a running connection, on that connection's own handle and under its session identifier, and the
  session may read the key; and when authentication is configured, every running connection's subject and claims come
  from a token that was validated.
\<close>

theorem reachable_isolation:
  assumes "(sys_step x)\<^sup>*\<^sup>* (sys_init sv) s" and "sv_bus sv = bus_new" and "sv_connections sv = 0"
  shows "(\<forall>k. \<forall>sub \<in> set (subscribers (sv_bus (sy_server s)) k).
            \<exists>cn. map_of (sy_conns s) (sub_write sub) = Some cn \<and> cn_handle cn = sub_write sub \<and>
                 sub_session sub = s_id (cn_session cn) \<and> may_read (sy_server s) (cn_session cn) k) \<and>
         (\<forall>cfg h cn. sv_jwt (sy_server s) = Some cfg \<longrightarrow> map_of (sy_conns s) h = Some cn \<longrightarrow>
            (\<exists>now token cl. validate_jwt x now token cfg = Inr cl \<and> s_sub (cn_session cn) = Some (c_sub cl) \<and>
               s_claims (cn_session cn) = Object (c_extra cl)))"
proof -
  have "sys_ok x s"
    using server_system.reach_inv [OF assms(1) sys_ok_init [OF assms(2,3)]] .
  then have ok: "conn_ok x (sy_server s) h cn" if "map_of (sy_conns s) h = Some cn" for h cn
    using that by (simp add: sys_ok_def conns_ok_def)
  have "\<exists>cn. map_of (sy_conns s) (sub_write sub) = Some cn \<and> cn_handle cn = sub_write sub \<and>
       sub_session sub = s_id (cn_session cn) \<and> may_read (sy_server s) (cn_session cn) k"
    if "sub \<in> set (subscribers (sv_bus (sy_server s)) k)" for k sub
    using \<open>sys_ok x s\<close> that ok unfolding sys_ok_def subs_ok_def conn_ok_def by metis
  moreover have "authenticated x cfg (cn_session cn)" if "sv_jwt (sy_server s) = Some cfg" "map_of (sy_conns s) h = Some cn" for cfg h cn
    using ok [OF that(2)] that(1) by (simp add: conn_ok_def)
  ultimately show ?thesis
    unfolding authenticated_def by blast
qed

text \<open>
  C20. The connection limit. In every such state the counter equals the number of connections in their handshake or
  running, and with a configured maximum it never exceeds it.
\<close>

theorem connection_limit:
  assumes "(sys_step x)\<^sup>*\<^sup>* (sys_init sv) s" and "sv_bus sv = bus_new" and "sv_connections sv = 0"
  shows "sv_connections (sy_server s) = sy_waiting s + length (sy_conns s) \<and>
         (case sv_max_connections (sy_server s) of None \<Rightarrow> True | Some limit \<Rightarrow> sv_connections (sy_server s) \<le> limit)"
  using server_system.reach_inv [OF assms(1) sys_ok_init [OF assms(2,3)]] by (simp add: sys_ok_def count_ok_def)

subsection \<open>Witnesses\<close>

definition quiet_server :: server where
  "quiet_server = (demo_server (Some open_acl) None)\<lparr>sv_connections := 0, sv_max_connections := Some 2, sv_jwt := Some (Hs256 ''s'')\<rparr>"

definition watch_ext :: externals where
  "watch_ext = auth_ext\<lparr>x_fdec := (\<lambda>bs. if bs = [8] then Some (watch_frame ''k'') else x_fdec auth_ext bs)\<rparr>"

lemma unpack_right: "\<not> isl (fst r) \<Longrightarrow> r = (Inr (fst (projr (fst r)), snd (projr (fst r))), fst (snd r), snd (snd r))"
  by (cases r; cases "fst r") auto

lemma unpack_true: "fst e \<Longrightarrow> e = (True, fst (snd e), snd (snd e))"
  by (cases e) auto

text \<open>The first steps of a run: a connection is accepted, passes the handshake and handles one message.\<close>

lemma first_steps:
  fixes sv :: server
  defines "s0 \<equiv> sys_init sv" and "s1 \<equiv> \<lambda>sv1. \<lparr>sy_server = sv1, sy_conns = [], sy_waiting = 1\<rparr>"
    and "s2 \<equiv> \<lambda>sv2 hid cn. \<lparr>sy_server = sv2, sy_conns = [(hid :: nat, cn)], sy_waiting = 0\<rparr>"
  assumes "accept_conn sv = Some sv1" and "hid \<notin> fst ` set (net_handles (sv_net sv1))"
    and "start_connection x up nanos now uuid hid inbox sv1 = (Inr (sv2, cn), out, rest)"
    and "on_event x nanos' (Inbound m) (sv2, cn) = (True, sv3, cn')"
  shows "sys_step x s0 (s1 sv1)" and "sys_step x (s1 sv1) (s2 sv2 hid cn)" and "sys_step x (s2 sv2 hid cn) (s2 sv3 hid cn')"
proof -
  show "sys_step x s0 (s1 sv1)"
    using sys_step.Accept [where s = s0 and sv = sv1 and x = x] assms(4) by (simp add: s0_def s1_def sys_init_def)
  show "sys_step x (s1 sv1) (s2 sv2 hid cn)"
    using sys_step.Start [where s = "s1 sv1" and hid = hid and uuid = uuid and x = x] assms(5,6)
    by (simp add: s1_def s2_def session_ids_def)
  show "sys_step x (s2 sv2 hid cn) (s2 sv3 hid cn')"
    using sys_step.Event [where s = "s2 sv2 hid cn" and hid = hid and cn = cn and ev = "Inbound m" and x = x] assms(7)
    by (simp add: s2_def ready_def)
qed

lemma three_steps: "r a b \<Longrightarrow> r b c \<Longrightarrow> r c d \<Longrightarrow> r\<^sup>*\<^sup>* a d"
  by (meson converse_rtranclp_into_rtranclp rtranclp.rtrancl_refl)

lemma demo_system_run:
  "\<exists>s. (sys_step watch_ext)\<^sup>*\<^sup>* (sys_init quiet_server) s \<and> subscribers (sv_bus (sy_server s)) ''k'' \<noteq> [] \<and>
       sv_connections (sy_server s) = 1"
proof -
  let ?sv1 = "quiet_server\<lparr>sv_connections := 1\<rparr>"
  let ?r = "start_connection watch_ext (\<lambda>_ _. True) 0 0 ''a'' 5 [(4, Got (WsBinary [7]))] ?sv1"
  let ?sv2 = "fst (projr (fst ?r))" and ?cn2 = "snd (projr (fst ?r))"
  let ?e = "on_event watch_ext 0 (Inbound (Got (WsBinary [8]))) (?sv2, ?cn2)"
  have ran: "\<not> isl (fst ?r)" "fst ?e"
    by code_simp+
  have "accept_conn quiet_server = Some ?sv1" "5 \<notin> fst ` set (net_handles (sv_net ?sv1))"
    by (simp_all add: accept_conn_def quiet_server_def demo_server_def)
  note run = first_steps [OF this unpack_right [OF ran(1)] unpack_true [OF ran(2)]]
  have "subscribers (sv_bus (fst (snd ?e))) ''k'' \<noteq> []" "sv_connections (fst (snd ?e)) = 1"
    by code_simp+
  then show ?thesis
    using three_steps [where r = "sys_step watch_ext", OF run] by force
qed

lemma quiet_server_ok: "sv_bus quiet_server = bus_new" "sv_connections quiet_server = 0"
  by (simp_all add: quiet_server_def demo_server_def)

theorem reachable_isolation_witness:
  "\<exists>s sub cn. (sys_step watch_ext)\<^sup>*\<^sup>* (sys_init quiet_server) s \<and> sub \<in> set (subscribers (sv_bus (sy_server s)) ''k'') \<and>
     map_of (sy_conns s) (sub_write sub) = Some cn \<and> may_read (sy_server s) (cn_session cn) ''k''"
proof -
  obtain s where s: "(sys_step watch_ext)\<^sup>*\<^sup>* (sys_init quiet_server) s" "subscribers (sv_bus (sy_server s)) ''k'' \<noteq> []"
    using demo_system_run by blast
  then obtain sub where "sub \<in> set (subscribers (sv_bus (sy_server s)) ''k'')"
    by (meson list.set_sel(1))
  with s(1) reachable_isolation [OF s(1) quiet_server_ok] show ?thesis
    by blast
qed

theorem connection_limit_witness:
  "\<exists>s. (sys_step watch_ext)\<^sup>*\<^sup>* (sys_init quiet_server) s \<and> sv_connections (sy_server s) = 1 \<and>
     1 = sy_waiting s + length (sy_conns s)"
proof -
  obtain s where s: "(sys_step watch_ext)\<^sup>*\<^sup>* (sys_init quiet_server) s" "sv_connections (sy_server s) = 1"
    using demo_system_run by blast
  with connection_limit [OF s(1) quiet_server_ok] show ?thesis
    by auto
qed


end
