(* ===== verification/Python_Client.thy ===== *)
theory Python_Client
  imports Client_Apply Wire_Frame "HOL-Library.Multiset"
begin

section \<open>The Python client\<close>

text \<open>
  The model of \<^verbatim>\<open>src/sodp-py/src/sodp/client.py\<close>: the state of \<^verbatim>\<open>SodpClient\<close>, its frame handlers, its
  sending helpers and its public operations. The client is single-threaded, so every method is one step. The
  MessagePack library is outside the model: a received frame comes decoded, a DELTA as its stream number,
  version and operations, and the frames the client sends are collected in \<open>pc_outbox\<close>, the model of
  \<^verbatim>\<open>_send_queue\<close>. Callbacks are numbers and their invocations are recorded in \<open>pc_events\<close>; futures are the call
  identifiers in \<open>pc_pending\<close>, in insertion order, and what they were completed with is recorded in
  \<open>pc_outcomes\<close>. Versions are taken as the 64-bit numbers the server sends.
\<close>

subsection \<open>State\<close>

record py_watch =
  pw_callbacks :: "nat list"
  pw_version :: u64
  pw_value :: json
  pw_initialized :: bool
  pw_params :: "json option"

datatype watch_source = FromCache | FromInit | FromDelta

record watch_meta =
  m_version :: u64
  m_initialized :: bool
  m_source :: watch_source

datatype call_outcome = Resolved json | CallFailed json | ErrorFrame json json | ConnectionLost

type_synonym raw_frame = "u8 \<times> nat \<times> nat \<times> json"

record py_client =
  pc_token :: "string option"
  pc_connected :: bool
  pc_authenticated :: bool
  pc_ready :: bool
  pc_watches :: "(string \<times> py_watch) list"
  pc_streams :: "(nat \<times> string) list"
  pc_pending :: "string list"
  pc_outcomes :: "(string \<times> call_outcome) list"
  pc_call_queue :: "(u8 \<times> nat \<times> json) list"
  pc_capabilities :: json
  pc_next_stream :: nat
  pc_next_seq :: nat
  pc_outbox :: "raw_frame list"
  pc_events :: "(nat \<times> json \<times> watch_meta) list"

datatype py_in = PyFrame frame | PyDelta nat u64 "delta_op list"

definition client_new :: "string option \<Rightarrow> py_client" where
  "client_new tok =
     \<lparr>pc_token = tok, pc_connected = False, pc_authenticated = False, pc_ready = False, pc_watches = [], pc_streams = [],
      pc_pending = [], pc_outcomes = [], pc_call_queue = [], pc_capabilities = Object [], pc_next_stream = 10,
      pc_next_seq = 0, pc_outbox = [], pc_events = []\<rparr>"

text \<open>The truth value of a Python object.\<close>

fun truthy :: "json \<Rightarrow> bool" where
  "truthy Null = False"
| "truthy (Bool b) = b"
| "truthy (Number n) = (n \<noteq> PosInt 0 \<and> n \<noteq> Float 0)"
| "truthy (String s) = (s \<noteq> [])"
| "truthy (Array xs) = (xs \<noteq> [])"
| "truthy (Object m) = (m \<noteq> [])"

subsection \<open>Sending\<close>

definition send_raw :: "u8 \<Rightarrow> nat \<Rightarrow> json \<Rightarrow> py_client \<Rightarrow> py_client" where
  "send_raw ftype sid b c =
     c\<lparr>pc_next_seq := pc_next_seq c + 1, pc_outbox := pc_outbox c @ [(ftype, sid, pc_next_seq c + 1, b)]\<rparr>"

definition send_or_queue :: "u8 \<Rightarrow> nat \<Rightarrow> json \<Rightarrow> py_client \<Rightarrow> py_client" where
  "send_or_queue ftype sid b c =
     (if pc_authenticated c then send_raw ftype sid b c
      else c\<lparr>pc_call_queue := pc_call_queue c @ [(ftype, sid, b)]\<rparr>)"

definition with_params :: "json option \<Rightarrow> (string \<times> json) list \<Rightarrow> json" where
  "with_params ps kvs = json_obj (kvs @ (case ps of None \<Rightarrow> [] | Some p \<Rightarrow> [(''params'', p)]))"

definition send_watch :: "string \<Rightarrow> json option \<Rightarrow> py_client \<Rightarrow> py_client" where
  "send_watch key ps c =
     (let c1 = send_raw WATCH (pc_next_stream c) (with_params ps [(''state'', String key)]) c
      in c1\<lparr>pc_next_stream := pc_next_stream c1 + 1\<rparr>)"

definition send_resume :: "string \<Rightarrow> u64 \<Rightarrow> json option \<Rightarrow> py_client \<Rightarrow> py_client" where
  "send_resume key since ps c =
     (let c1 = send_raw RESUME (pc_next_stream c)
                 (with_params ps [(''state'', String key), (''since_version'', json_u64 since)]) c
      in c1\<lparr>pc_next_stream := pc_next_stream c1 + 1\<rparr>)"

subsection \<open>Frame handlers\<close>

definition fire_callbacks :: "py_watch \<Rightarrow> json \<Rightarrow> watch_meta \<Rightarrow> py_client \<Rightarrow> py_client" where
  "fire_callbacks entry v meta c = c\<lparr>pc_events := pc_events c @ map (\<lambda>cb. (cb, v, meta)) (pw_callbacks entry)\<rparr>"

fun resubscribe :: "(string \<times> py_watch) list \<Rightarrow> py_client \<Rightarrow> py_client" where
  "resubscribe [] c = c"
| "resubscribe ((key, entry) # rest) c =
     resubscribe rest
       (if pw_callbacks entry = [] then c
        else if pw_version entry > 0 then send_resume key (pw_version entry) (pw_params entry) c
        else send_watch key (pw_params entry) c)"

fun flush_calls :: "(u8 \<times> nat \<times> json) list \<Rightarrow> py_client \<Rightarrow> py_client" where
  "flush_calls [] c = c"
| "flush_calls ((ftype, sid, b) # rest) c = flush_calls rest (send_raw ftype sid b c)"

definition on_ready :: "py_client \<Rightarrow> py_client" where
  "on_ready c =
     (let c1 = resubscribe (pc_watches c) (c\<lparr>pc_authenticated := True\<rparr>);
          c2 = flush_calls (pc_call_queue c1) c1
      in c2\<lparr>pc_call_queue := [], pc_ready := True\<rparr>)"

definition on_hello :: "json \<Rightarrow> py_client \<Rightarrow> py_client" where
  "on_hello b c =
     (let c1 = c\<lparr>pc_capabilities := (case json_get b ''capabilities'' of Some x \<Rightarrow> x | None \<Rightarrow> Object [])\<rparr>
      in if truthy (opt_json (json_get b ''auth''))
         then (case pc_token c1 of
                 Some tok \<Rightarrow> if tok = [] then c1\<lparr>pc_connected := False\<rparr>
                            else send_raw AUTH 0 (json_obj [(''token'', String tok)]) c1
               | None \<Rightarrow> c1\<lparr>pc_connected := False\<rparr>)
         else on_ready c1)"

definition on_auth_ok :: "py_client \<Rightarrow> py_client" where
  "on_auth_ok c = on_ready c"

text \<open>
  STATE_INIT. The stream is entered before the other fields are read, and a missing field raises an exception that
  the receive loop catches, so the assignments before it stay.
\<close>

definition on_state_init :: "nat \<Rightarrow> json \<Rightarrow> py_client \<Rightarrow> py_client" where
  "on_state_init sid b c =
     (case (case json_get b ''state'' of None \<Rightarrow> Some [] | Some j \<Rightarrow> as_str j) of
        None \<Rightarrow> c
      | Some key \<Rightarrow>
          (case map_of (pc_watches c) key of
             None \<Rightarrow> c
           | Some entry \<Rightarrow>
               (let c1 = c\<lparr>pc_streams := AList.update sid key (pc_streams c)\<rparr> in
                case get_u64 b ''version'' of
                  None \<Rightarrow> c1
                | Some version \<Rightarrow>
                    (let e1 = entry\<lparr>pw_version := version\<rparr> in
                     case json_get b ''value'' of
                       None \<Rightarrow> c1\<lparr>pc_watches := AList.update key e1 (pc_watches c1)\<rparr>
                     | Some v \<Rightarrow>
                         (let e2 = e1\<lparr>pw_value := v\<rparr> in
                          case json_get b ''initialized'' of
                            None \<Rightarrow> c1\<lparr>pc_watches := AList.update key e2 (pc_watches c1)\<rparr>
                          | Some i \<Rightarrow>
                              (let e3 = e2\<lparr>pw_initialized := truthy i\<rparr>
                               in fire_callbacks e3 v \<lparr>m_version = version, m_initialized = truthy i, m_source = FromInit\<rparr>
                                    (c1\<lparr>pc_watches := AList.update key e3 (pc_watches c1)\<rparr>)))))))"

definition on_delta :: "nat \<Rightarrow> u64 \<Rightarrow> delta_op list \<Rightarrow> py_client \<Rightarrow> py_client" where
  "on_delta sid version ops c =
     (case (case map_of (pc_streams c) sid of
              None \<Rightarrow> None
            | Some key \<Rightarrow> if key = [] then None else map_option (\<lambda>e. (key, e)) (map_of (pc_watches c) key)) of
        None \<Rightarrow> c
      | Some (key, entry) \<Rightarrow>
          (let v = apply_ops (pw_value entry) ops;
               deleted = list_ex (\<lambda>op. d_op op = Remove \<and> d_path op = ''/'') ops;
               e1 = entry\<lparr>pw_value := v, pw_version := version, pw_initialized := \<not> deleted\<rparr>
           in fire_callbacks e1 v \<lparr>m_version = version, m_initialized = \<not> deleted, m_source = FromDelta\<rparr>
                (c\<lparr>pc_watches := AList.update key e1 (pc_watches c)\<rparr>)))"

definition on_result :: "json \<Rightarrow> py_client \<Rightarrow> py_client" where
  "on_result b c =
     (let call_id = (case get_str b ''call_id'' of Some s \<Rightarrow> s | None \<Rightarrow> [])
      in if call_id \<notin> set (pc_pending c) then c
         else c\<lparr>pc_pending := remove1 call_id (pc_pending c),
                pc_outcomes := pc_outcomes c @
                  [(call_id, if truthy (opt_json (json_get b ''success'')) then Resolved (opt_json (json_get b ''data''))
                             else CallFailed (opt_json (json_get b ''data'')))]\<rparr>)"

definition on_error :: "json \<Rightarrow> py_client \<Rightarrow> py_client" where
  "on_error b c =
     (case pc_pending c of
        [] \<Rightarrow> c
      | call_id # rest \<Rightarrow>
          c\<lparr>pc_pending := rest,
            pc_outcomes := pc_outcomes c @
              [(call_id, ErrorFrame (opt_json (json_get b ''code'')) (opt_json (json_get b ''message'')))]\<rparr>)"

definition client_frame :: "py_in \<Rightarrow> py_client \<Rightarrow> py_client" where
  "client_frame m c =
     (case m of
        PyDelta sid version ops \<Rightarrow> on_delta sid version ops c
      | PyFrame f \<Rightarrow>
          if frame_type f = HELLO then on_hello (body f) c
          else if frame_type f = AUTH_OK then on_auth_ok c
          else if frame_type f = STATE_INIT then on_state_init (unat (stream_id f)) (body f) c
          else if frame_type f = RESULT then on_result (body f) c
          else if frame_type f = ERROR then on_error (body f) c
          else if frame_type f = HEARTBEAT then send_raw HEARTBEAT 0 Null c
          else c)"

definition client_frames :: "py_in list \<Rightarrow> py_client \<Rightarrow> py_client" where
  "client_frames ms c = fold client_frame ms c"

subsection \<open>The life of a connection\<close>

text \<open>The assignments \<^verbatim>\<open>_run\<close> makes when a connection is up and when it is lost.\<close>

definition connection_up :: "py_client \<Rightarrow> py_client" where
  "connection_up c = c\<lparr>pc_connected := True, pc_streams := [], pc_next_stream := 10, pc_next_seq := 0\<rparr>"

definition connection_lost :: "py_client \<Rightarrow> py_client" where
  "connection_lost c =
     c\<lparr>pc_connected := False, pc_authenticated := False,
       pc_outcomes := pc_outcomes c @ map (\<lambda>i. (i, ConnectionLost)) (pc_pending c), pc_pending := [], pc_call_queue := []\<rparr>"

text \<open>
  The loop of \<^verbatim>\<open>_run\<close> around the connections: what it knows, \<^verbatim>\<open>close\<close>, and what it does when an attempt is over.
  Delays are rational numbers of seconds; \<open>jitter\<close> is what \<^verbatim>\<open>random.random()\<close> returned. The result is the delay before the
  next attempt, if there is one.
\<close>

record py_link =
  lk_closed :: bool
  lk_reconnect :: bool
  lk_attempts :: nat
  lk_delay :: rat
  lk_max_delay :: rat

definition link_up :: "py_link \<Rightarrow> py_link" where
  "link_up l = l\<lparr>lk_attempts := 0\<rparr>"

definition client_close :: "py_link \<Rightarrow> py_link" where
  "client_close l = l\<lparr>lk_closed := True\<rparr>"

definition backoff :: "rat \<Rightarrow> py_link \<Rightarrow> rat" where
  "backoff jitter l = min (lk_delay l * 2 ^ lk_attempts l + jitter * (1 / 2)) (lk_max_delay l)"

definition attempt_over :: "rat \<Rightarrow> py_link \<Rightarrow> (rat \<times> py_link) option" where
  "attempt_over jitter l =
     (if lk_closed l \<or> \<not> lk_reconnect l then None
      else Some (backoff jitter l, l\<lparr>lk_attempts := lk_attempts l + 1\<rparr>))"

subsection \<open>Public operations\<close>

definition new_watch :: "json option \<Rightarrow> py_watch" where
  "new_watch ps = \<lparr>pw_callbacks = [], pw_version = 0, pw_value = Null, pw_initialized = False, pw_params = ps\<rparr>"

definition cached_meta :: "py_watch \<Rightarrow> watch_meta" where
  "cached_meta e = \<lparr>m_version = pw_version e, m_initialized = True, m_source = FromCache\<rparr>"

text \<open>Entering a callback for a key: fired with the cached value if there is one. The flag tells whether the key was new.\<close>

definition enter_callback :: "string \<Rightarrow> nat \<Rightarrow> json option \<Rightarrow> py_client \<Rightarrow> bool \<times> py_client" where
  "enter_callback key cb ps c =
     (let (fresh, e, c1) =
            (case map_of (pc_watches c) key of
               None \<Rightarrow> (True, new_watch ps, c)
             | Some e \<Rightarrow>
                 (False, e, if pw_initialized e then c\<lparr>pc_events := pc_events c @ [(cb, pw_value e, cached_meta e)]\<rparr> else c))
      in (fresh, c1\<lparr>pc_watches := AList.update key (e\<lparr>pw_callbacks := List.insert cb (pw_callbacks e)\<rparr>) (pc_watches c1)\<rparr>))"

definition watch :: "string \<Rightarrow> nat \<Rightarrow> json option \<Rightarrow> py_client \<Rightarrow> py_client" where
  "watch key cb ps c =
     (let (fresh, c1) = enter_callback key cb ps c
      in if fresh \<and> pc_authenticated c1 then send_watch key ps c1 else c1)"

definition unsub :: "string \<Rightarrow> nat \<Rightarrow> py_client \<Rightarrow> py_client" where
  "unsub key cb c =
     (case map_of (pc_watches c) key of
        None \<Rightarrow> c
      | Some e \<Rightarrow> c\<lparr>pc_watches := AList.update key (e\<lparr>pw_callbacks := removeAll cb (pw_callbacks e)\<rparr>) (pc_watches c)\<rparr>)"

definition watch_many :: "string list \<Rightarrow> nat \<Rightarrow> json option \<Rightarrow> py_client \<Rightarrow> py_client" where
  "watch_many keys cb ps c =
     (let c1 = fold (\<lambda>key c. snd (enter_callback key cb ps c)) keys c
      in if pc_authenticated c1
         then (let c2 = send_raw WATCH (pc_next_stream c1) (with_params ps [(''states'', Array (map String keys))]) c1
               in c2\<lparr>pc_next_stream := pc_next_stream c2 + 1\<rparr>)
         else c1)"

definition unwatch :: "string \<Rightarrow> py_client \<Rightarrow> py_client" where
  "unwatch key c =
     (if map_of (pc_watches c) key = None then c
      else let c1 = (if pc_authenticated c then send_raw UNWATCH 0 (json_obj [(''state'', String key)]) c else c)
           in c1\<lparr>pc_watches := AList.delete key (pc_watches c1), pc_streams := filter (\<lambda>(sid, k). k \<noteq> key) (pc_streams c1)\<rparr>)"

definition client_get :: "string \<Rightarrow> py_client \<Rightarrow> json" where
  "client_get key c = (case map_of (pc_watches c) key of Some e \<Rightarrow> pw_value e | None \<Rightarrow> Null)"

definition is_watching :: "string \<Rightarrow> py_client \<Rightarrow> bool" where
  "is_watching key c \<longleftrightarrow> map_of (pc_watches c) key \<noteq> None"

text \<open>\<^verbatim>\<open>unsub\<close> is the function \<^verbatim>\<open>watch\<close> returns, for the entry that is still in the table.\<close>

text \<open>Making a call, with the identifier \<^verbatim>\<open>uuid4\<close> gave it, and its timeout or cancellation.\<close>

definition call :: "string \<Rightarrow> string \<Rightarrow> json \<Rightarrow> py_client \<Rightarrow> py_client" where
  "call call_id mth args c =
     send_or_queue CALL 0 (json_obj [(''call_id'', String call_id), (''method'', String mth), (''args'', args)])
       (c\<lparr>pc_pending := pc_pending c @ [call_id]\<rparr>)"

definition call_abandoned :: "string \<Rightarrow> py_client \<Rightarrow> py_client" where
  "call_abandoned call_id c = c\<lparr>pc_pending := removeAll call_id (pc_pending c)\<rparr>"

text \<open>The named calls of \<^verbatim>\<open>SodpClient\<close> and of \<^verbatim>\<open>StateRef\<close>, a handle that fixes the key.\<close>

definition client_set :: "string \<Rightarrow> string \<Rightarrow> json \<Rightarrow> py_client \<Rightarrow> py_client" where
  "client_set call_id key v = call call_id ''state.set'' (json_obj [(''state'', String key), (''value'', v)])"

definition client_patch :: "string \<Rightarrow> string \<Rightarrow> json \<Rightarrow> py_client \<Rightarrow> py_client" where
  "client_patch call_id key partial = call call_id ''state.patch'' (json_obj [(''state'', String key), (''patch'', partial)])"

definition client_presence :: "string \<Rightarrow> string \<Rightarrow> string \<Rightarrow> json \<Rightarrow> py_client \<Rightarrow> py_client" where
  "client_presence call_id key path v =
     call call_id ''state.presence'' (json_obj [(''state'', String key), (''path'', String path), (''value'', v)])"

definition ref_set_in :: "string \<Rightarrow> string \<Rightarrow> string \<Rightarrow> json \<Rightarrow> py_client \<Rightarrow> py_client" where
  "ref_set_in call_id key path v =
     call call_id ''state.set_in'' (json_obj [(''state'', String key), (''path'', String path), (''value'', v)])"

definition ref_delete :: "string \<Rightarrow> string \<Rightarrow> py_client \<Rightarrow> py_client" where
  "ref_delete call_id key = call call_id ''state.delete'' (json_obj [(''state'', String key)])"

subsection \<open>What sending leaves alone\<close>

lemma send_simps [simp]:
  "pc_watches (send_raw t sid b c) = pc_watches c" "pc_streams (send_raw t sid b c) = pc_streams c"
  "pc_pending (send_raw t sid b c) = pc_pending c" "pc_outcomes (send_raw t sid b c) = pc_outcomes c"
  "pc_call_queue (send_raw t sid b c) = pc_call_queue c" "pc_authenticated (send_raw t sid b c) = pc_authenticated c"
  "pc_outbox (send_raw t sid b c) = pc_outbox c @ [(t, sid, pc_next_seq c + 1, b)]"
  by (simp_all add: send_raw_def)

lemma send_sub_simps [simp]:
  "pc_watches (send_watch key ps c) = pc_watches c" "pc_streams (send_watch key ps c) = pc_streams c"
  "pc_pending (send_watch key ps c) = pc_pending c" "pc_outcomes (send_watch key ps c) = pc_outcomes c"
  "pc_call_queue (send_watch key ps c) = pc_call_queue c"
  "pc_watches (send_resume key v ps c) = pc_watches c" "pc_streams (send_resume key v ps c) = pc_streams c"
  "pc_pending (send_resume key v ps c) = pc_pending c" "pc_outcomes (send_resume key v ps c) = pc_outcomes c"
  "pc_call_queue (send_resume key v ps c) = pc_call_queue c"
  by (simp_all add: send_watch_def send_resume_def Let_def)

lemma resubscribe_simps [simp]:
  "pc_watches (resubscribe ws c) = pc_watches c" "pc_streams (resubscribe ws c) = pc_streams c"
  "pc_pending (resubscribe ws c) = pc_pending c" "pc_outcomes (resubscribe ws c) = pc_outcomes c"
  "pc_call_queue (resubscribe ws c) = pc_call_queue c"
  by (induction ws c rule: resubscribe.induct) simp_all

lemma flush_calls_simps [simp]:
  "pc_watches (flush_calls q c) = pc_watches c" "pc_streams (flush_calls q c) = pc_streams c"
  "pc_pending (flush_calls q c) = pc_pending c" "pc_outcomes (flush_calls q c) = pc_outcomes c"
  by (induction q c rule: flush_calls.induct) simp_all

lemma on_ready_simps [simp]:
  "pc_watches (on_ready c) = pc_watches c" "pc_streams (on_ready c) = pc_streams c"
  "pc_pending (on_ready c) = pc_pending c" "pc_outcomes (on_ready c) = pc_outcomes c"
  by (simp_all add: on_ready_def Let_def)

lemma on_hello_simps [simp]:
  "pc_watches (on_hello b c) = pc_watches c" "pc_streams (on_hello b c) = pc_streams c"
  "pc_pending (on_hello b c) = pc_pending c" "pc_outcomes (on_hello b c) = pc_outcomes c"
  by (simp_all add: on_hello_def Let_def split: option.split)

lemma reply_handlers_simps [simp]:
  "pc_watches (on_result b c) = pc_watches c" "pc_streams (on_result b c) = pc_streams c"
  "pc_watches (on_error b c) = pc_watches c" "pc_streams (on_error b c) = pc_streams c"
  by (simp_all add: on_result_def on_error_def Let_def split: list.split)

lemma fire_callbacks_simps [simp]:
  "pc_watches (fire_callbacks e v m c) = pc_watches c" "pc_streams (fire_callbacks e v m c) = pc_streams c"
  "pc_pending (fire_callbacks e v m c) = pc_pending c" "pc_outcomes (fire_callbacks e v m c) = pc_outcomes c"
  by (simp_all add: fire_callbacks_def)

subsection \<open>The view of one key\<close>

text \<open>
  What the frames of a connection mean for one key, as a specification: the streams the key came in on, and the value.
\<close>

definition init_of :: "frame \<Rightarrow> (string \<times> u64 \<times> json \<times> json) option" where
  "init_of f =
     (if frame_type f = STATE_INIT
      then (case (get_str (body f) ''state'', get_u64 (body f) ''version'', json_get (body f) ''value'',
                  json_get (body f) ''initialized'') of
              (Some k, Some n, Some v, Some i) \<Rightarrow> Some (k, n, v, i)
            | _ \<Rightarrow> None)
      else None)"

definition key_step :: "string \<Rightarrow> py_in \<Rightarrow> nat set \<times> json \<Rightarrow> nat set \<times> json" where
  "key_step key m = (\<lambda>(sids, v).
     case m of
       PyDelta sid version ops \<Rightarrow> (sids, if sid \<in> sids then apply_ops v ops else v)
     | PyFrame f \<Rightarrow>
         (case init_of f of
            Some (k, n, w, i) \<Rightarrow> if k = key then (insert (unat (stream_id f)) sids, w) else (sids, v)
          | None \<Rightarrow> (sids, v)))"

definition key_view :: "string \<Rightarrow> py_in list \<Rightarrow> nat set \<times> json" where
  "key_view key ms = fold (key_step key) ms ({}, Null)"

text \<open>The streams a list of frames opens, with their keys, and frames the server sends: complete STATE_INIT bodies.\<close>

definition opens :: "py_in \<Rightarrow> (nat \<times> string) set" where
  "opens m =
     (case m of
        PyDelta _ _ _ \<Rightarrow> {}
      | PyFrame f \<Rightarrow> (case init_of f of None \<Rightarrow> {} | Some (k, _) \<Rightarrow> {(unat (stream_id f), k)}))"

definition opened :: "py_in list \<Rightarrow> (nat \<times> string) set" where
  "opened ms = (\<Union>m \<in> set ms. opens m)"

definition complete_inits :: "py_in list \<Rightarrow> bool" where
  "complete_inits ms \<longleftrightarrow> (\<forall>f. PyFrame f \<in> set ms \<longrightarrow> frame_type f = STATE_INIT \<longrightarrow> init_of f \<noteq> None)"

lemma opened_simps [simp]:
  "opened [] = {}" "opened (m # ms) = opens m \<union> opened ms" "opened (ms @ ms') = opened ms \<union> opened ms'"
  by (auto simp: opened_def)

lemma complete_inits_append [simp]: "complete_inits (ms @ ms') \<longleftrightarrow> complete_inits ms \<and> complete_inits ms'"
  by (auto simp: complete_inits_def)

lemma key_view_append: "key_view key (ms @ ms') = fold (key_step key) ms' (key_view key ms)"
  by (simp add: key_view_def)

lemma key_view_streams: "fst (key_view key ms) = {sid. (sid, key) \<in> opened ms}"
proof (induction ms rule: rev_induct)
  case (snoc m ms)
  then show ?case
    by (auto simp: key_view_append key_step_def opens_def split_def split: py_in.splits option.splits if_splits)
qed (simp add: key_view_def)

lemma on_state_init_eq:
  assumes "init_of f = Some (k, n, v, i)"
  shows "pc_watches (on_state_init (unat (stream_id f)) (body f) c) =
           (case map_of (pc_watches c) k of
              None \<Rightarrow> pc_watches c
            | Some e \<Rightarrow> AList.update k (e\<lparr>pw_version := n, pw_value := v, pw_initialized := truthy i\<rparr>) (pc_watches c))"
    and "pc_streams (on_state_init (unat (stream_id f)) (body f) c) =
           (if map_of (pc_watches c) k = None then pc_streams c else AList.update (unat (stream_id f)) k (pc_streams c))"
proof -
  have "json_get (body f) ''state'' = Some (String k)" "get_u64 (body f) ''version'' = Some n"
    "json_get (body f) ''value'' = Some v" "json_get (body f) ''initialized'' = Some i"
    using assms by (auto simp: init_of_def get_str_Some split: if_splits option.splits)
  then show "pc_watches (on_state_init (unat (stream_id f)) (body f) c) =
           (case map_of (pc_watches c) k of
              None \<Rightarrow> pc_watches c
            | Some e \<Rightarrow> AList.update k (e\<lparr>pw_version := n, pw_value := v, pw_initialized := truthy i\<rparr>) (pc_watches c))"
    "pc_streams (on_state_init (unat (stream_id f)) (body f) c) =
           (if map_of (pc_watches c) k = None then pc_streams c else AList.update (unat (stream_id f)) k (pc_streams c))"
    by (simp_all add: on_state_init_def Let_def split: option.split)
qed


text \<open>The part of a client's state that concerns a key.\<close>

definition follows :: "string \<Rightarrow> py_in list \<Rightarrow> py_client \<Rightarrow> bool" where
  "follows key ms c \<longleftrightarrow>
     is_watching key c \<and> (\<forall>sid. map_of (pc_streams c) sid = Some key \<longleftrightarrow> sid \<in> fst (key_view key ms)) \<and>
     (\<forall>sid k. map_of (pc_streams c) sid = Some k \<longrightarrow> (sid, k) \<in> opened ms) \<and>
     (fst (key_view key ms) \<noteq> {} \<longrightarrow> client_get key c = snd (key_view key ms))"

lemma on_delta_watches:
  "pc_streams (on_delta sid n ops c) = pc_streams c"
  "map_of (pc_watches (on_delta sid n ops c)) key =
     (if key \<noteq> [] \<and> map_of (pc_streams c) sid = Some key
      then map_option (\<lambda>e. e\<lparr>pw_value := apply_ops (pw_value e) ops, pw_version := n,
             pw_initialized := \<not> list_ex (\<lambda>op. d_op op = Remove \<and> d_path op = ''/'') ops\<rparr>) (map_of (pc_watches c) key)
      else map_of (pc_watches c) key)"
  by (auto simp: on_delta_def Let_def update_conv' split: option.splits if_splits)

lemma follows_delta:
  assumes "follows key ms c" and "key \<noteq> []"
  shows "follows key (ms @ [PyDelta sid n ops]) (on_delta sid n ops c)"
proof -
  obtain e where e: "map_of (pc_watches c) key = Some e"
    using assms(1) by (auto simp: follows_def is_watching_def)
  have view: "key_view key (ms @ [PyDelta sid n ops]) =
      (fst (key_view key ms), if sid \<in> fst (key_view key ms) then apply_ops (snd (key_view key ms)) ops else snd (key_view key ms))"
    by (simp add: key_view_append key_step_def split_def)
  show ?thesis
    using assms e unfolding follows_def is_watching_def client_get_def view
    by (auto simp: on_delta_watches opens_def)
qed

lemma follows_init:
  assumes "follows key ms c" and "init_of f = Some (k, n, v, i)"
    and "\<And>k'. (unat (stream_id f), k') \<in> opened ms \<Longrightarrow> k' = k"
  shows "follows key (ms @ [PyFrame f]) (on_state_init (unat (stream_id f)) (body f) c)"
proof -
  obtain e where e: "map_of (pc_watches c) key = Some e"
    using assms(1) by (auto simp: follows_def is_watching_def)
  have view: "key_view key (ms @ [PyFrame f]) =
      (if k = key then (insert (unat (stream_id f)) (fst (key_view key ms)), v) else key_view key ms)"
    by (simp add: key_view_append key_step_def split_def assms(2))
  have op: "opened (ms @ [PyFrame f]) = insert (unat (stream_id f), k) (opened ms)"
    by (simp add: opens_def assms(2))
  have fresh: "map_of (pc_streams c) (unat (stream_id f)) = Some key \<Longrightarrow> k = key"
    using assms(1,3) unfolding follows_def by blast
  show ?thesis
    using assms(1) e fresh unfolding follows_def is_watching_def client_get_def view op
      on_state_init_eq(1) [OF assms(2)] on_state_init_eq(2) [OF assms(2)]
    by (cases "k = key") (auto simp: update_conv' split: option.splits)
qed

lemma follows_other:
  assumes "follows key ms c" and "init_of f = None" and "pc_watches c' = pc_watches c" and "pc_streams c' = pc_streams c"
  shows "follows key (ms @ [PyFrame f]) c'"
  using assms by (simp add: follows_def is_watching_def client_get_def key_view_append key_step_def split_def opens_def)

lemma client_frames_snoc: "client_frames (ms @ [m]) c = client_frame m (client_frames ms c)"
  by (simp add: client_frames_def)

lemma client_follows:
  assumes "key \<noteq> []" and "is_watching key c" and "pc_streams c = []"
    and "complete_inits ms" and "single_valued (opened ms)"
  shows "follows key ms (client_frames ms c)"
  using assms(4,5)
proof (induction ms rule: rev_induct)
  case Nil
  show ?case
    using assms(2,3) by (simp add: follows_def client_frames_def key_view_def)
next
  case (snoc m ms)
  have IH: "follows key ms (client_frames ms c)"
    using snoc by (intro snoc.IH) (auto simp: single_valued_def)
  show ?case
  proof (cases m)
    case (PyDelta sid n ops)
    with follows_delta [OF IH assms(1)] show ?thesis
      by (simp add: client_frames_snoc client_frame_def)
  next
    case (PyFrame f)
    show ?thesis
    proof (cases "frame_type f = STATE_INIT")
      case True
      with snoc.prems(1) PyFrame obtain k n v i where init: "init_of f = Some (k, n, v, i)"
        by (auto simp: complete_inits_def)
      then have "(unat (stream_id f), k') \<in> opened ms \<Longrightarrow> k' = k" for k'
        using snoc.prems(2) PyFrame by (auto simp: single_valued_def opens_def)
      from follows_init [OF IH init this] True PyFrame show ?thesis
        by (simp add: client_frames_snoc client_frame_def frame_type_defs)
    next
      case False
      then have "init_of f = None"
        by (simp add: init_of_def)
      from follows_other [OF IH this] False PyFrame show ?thesis
        by (simp add: client_frames_snoc client_frame_def on_auth_ok_def)
    qed
  qed
qed


subsection \<open>A delta that arrives twice\<close>

text \<open>The operations of a diff do nothing to the new value.\<close>

lemma seg_diff_noop: "json_ok new \<Longrightarrow> sop \<in> set (seg_diff old new) \<Longrightarrow> seg_apply new sop = new"
proof (induction old new arbitrary: sop rule: seg_diff.induct)
  case (1 om nm)
  have ok: "bt_ok nm"
    using "1.prems"(1) by simp
  have ins: "bt_insert k v nm = nm" if "(k, v) \<in> set nm" for k v
    using bt_insert_idem [OF ok] that ok by (simp add: bt_ok_distinct)
  consider (entry) k nv where "(k, nv) \<in> set nm" "sop \<in> set (entry_ops om (k, nv))"
    | (gone) k where "sop = (Remove, [k], None)" "map_of nm k = None"
    using "1.prems"(2) by (auto simp: seg_diff_objects simp del: seg_diff.simps)
  then show ?case
  proof cases
    case entry
    consider (here) kind where "sop = (kind, [k], Some nv)" "kind \<noteq> Remove"
      | (below) ov sop' where "map_of om k = Some ov" "ov \<noteq> nv" "is_object ov \<and> is_object nv"
          "sop = under k sop'" "sop' \<in> set (seg_diff ov nv)"
      using entry(2) by (auto simp: entry_ops_def split: option.splits if_splits)
    then show ?thesis
    proof cases
      case here
      with ins [OF entry(1)] show ?thesis
        by (cases kind) (simp_all add: seg_apply_def apply_last_def)
    next
      case below
      then obtain oc nc where obj: "ov = Object oc" "nv = Object nc"
        by (auto simp: is_object_iff)
      have "json_ok nv"
        using "1.prems"(1) entry(1) by force
      with below entry(1) have step: "seg_apply nv sop' = nv"
        by (intro "1.IH") auto
      obtain kind segs w where sop': "sop' = (kind, segs, w)"
        by (cases sop')
      have "segs \<noteq> []"
        using seg_diff_below [of oc nc] below(5) obj sop' by (auto simp del: seg_diff.simps)
      moreover have "map_of nm k = Some (Object nc)"
        using entry(1) obj ok by (simp add: bt_ok_distinct)
      ultimately show ?thesis
        using seg_apply_under [of nm k nc segs kind w] step ins [OF entry(1)] below(4) obj sop' by simp
    qed
  next
    case gone
    have "bt_remove k nm = nm"
      using gone(2) ok by (intro bt_eqI) (auto simp: fun_eq_iff)
    with gone show ?thesis
      by (simp add: seg_apply_def apply_last_def)
  qed
qed (auto simp: seg_apply_def split: if_splits)

lemma apply_diff_again:
  assumes "json_ok new" "slash_free old" "slash_free new" "root_keys_ok old" "root_keys_ok new"
  shows "apply_ops new (diff old new) = new"
proof -
  have ops: "diff old new = map (print_op []) (seg_diff old new)"
    using diff_at_path_of [where segs = "[]" and old = old and new = new] assms(4,5) by (simp add: diff_def path_of_def)
  have "apply_one new (print_op [] sop) = new" if "sop \<in> set (seg_diff old new)" for sop
    using that seg_diff_slash_free [OF assms(2,3)] seg_diff_not_root_key [OF assms(4,5)]
      apply_one_print_op [of "fst (snd sop)" new "fst sop" "snd (snd sop)"] seg_diff_noop [OF assms(1) that]
    by simp
  then have "foldl apply_one new (map (print_op []) sops) = new" if "set sops \<subseteq> set (seg_diff old new)" for sops
    using that by (induction sops) (auto simp del: print_op_simp)
  then show ?thesis
    by (simp add: apply_ops_def ops)
qed


subsection \<open>Calls\<close>

text \<open>Everything that can happen to a client.\<close>

datatype client_op =
    Receive py_in
  | Watch string nat "json option"
  | WatchMany "string list" nat "json option"
  | Unsub string nat
  | Unwatch string
  | Call string string json
  | Abandoned string
  | Up
  | Lost

fun client_do :: "client_op \<Rightarrow> py_client \<Rightarrow> py_client" where
  "client_do (Receive m) c = client_frame m c"
| "client_do (Watch key cb ps) c = watch key cb ps c"
| "client_do (WatchMany keys cb ps) c = watch_many keys cb ps c"
| "client_do (Unsub key cb) c = unsub key cb c"
| "client_do (Unwatch key) c = unwatch key c"
| "client_do (Call call_id mth args) c = call call_id mth args c"
| "client_do (Abandoned call_id) c = call_abandoned call_id c"
| "client_do Up c = connection_up c"
| "client_do Lost c = connection_lost c"

definition calls_of :: "client_op list \<Rightarrow> string list" where
  "calls_of ops = List.map_filter (\<lambda>op. case op of Call i _ _ \<Rightarrow> Some i | _ \<Rightarrow> None) ops"

definition abandoned_of :: "client_op list \<Rightarrow> string list" where
  "abandoned_of ops = List.map_filter (\<lambda>op. case op of Abandoned i \<Rightarrow> Some i | _ \<Rightarrow> None) ops"

definition client_run :: "client_op list \<Rightarrow> py_client \<Rightarrow> py_client" where
  "client_run ops c = fold client_do ops c"

text \<open>The calls completed and pending.\<close>

definition call_ids :: "py_client \<Rightarrow> string list" where
  "call_ids c = map fst (pc_outcomes c) @ pc_pending c"

lemma enter_callback_calls [simp]:
  "pc_pending (snd (enter_callback key cb ps c)) = pc_pending c"
  "pc_outcomes (snd (enter_callback key cb ps c)) = pc_outcomes c"
  by (simp_all add: enter_callback_def Let_def split_def split: option.split)

lemma enter_many_calls [simp]:
  "pc_pending (fold (\<lambda>key c. snd (enter_callback key cb ps c)) keys c) = pc_pending c"
  "pc_outcomes (fold (\<lambda>key c. snd (enter_callback key cb ps c)) keys c) = pc_outcomes c"
  by (induction keys arbitrary: c) simp_all

lemma sub_ops_calls [simp]:
  "call_ids (watch key cb ps c) = call_ids c" "call_ids (watch_many keys cb ps c) = call_ids c"
  "call_ids (unsub key cb c) = call_ids c" "call_ids (unwatch key c) = call_ids c"
  by (simp_all add: call_ids_def watch_def watch_many_def unsub_def unwatch_def Let_def split_def split: option.split)

lemma state_frames_calls:
  "call_ids (on_state_init sid b c) = call_ids c" "call_ids (on_delta sid n ops c) = call_ids c"
  by (simp_all add: call_ids_def on_state_init_def on_delta_def Let_def split: option.split)

lemma mset_call_ids_frame: "mset (call_ids (client_frame m c)) = mset (call_ids c)"
proof (cases m)
  case (PyFrame f)
  have "mset (call_ids (on_result (body f) c)) = mset (call_ids c)"
    by (simp add: on_result_def call_ids_def Let_def)
  moreover have "mset (call_ids (on_error (body f) c)) = mset (call_ids c)"
    by (simp add: on_error_def call_ids_def split: list.split)
  moreover have "call_ids (on_hello (body f) c) = call_ids c" "call_ids (on_auth_ok c) = call_ids c"
    "call_ids (send_raw HEARTBEAT 0 Null c) = call_ids c"
    by (simp_all add: call_ids_def on_auth_ok_def)
  ultimately show ?thesis
    using PyFrame state_frames_calls(1) by (simp add: client_frame_def)
qed (simp add: client_frame_def state_frames_calls)

lemma call_ids_do:
  assumes "distinct (call_ids c)" and "\<forall>i mth args. op = Call i mth args \<longrightarrow> i \<notin> set (call_ids c)"
  shows "distinct (call_ids (client_do op c)) \<and>
     set (call_ids (client_do op c)) \<subseteq> set (call_ids c) \<union> set (calls_of [op]) \<and>
     set (call_ids c) \<union> set (calls_of [op]) - set (abandoned_of [op]) \<subseteq> set (call_ids (client_do op c))"
proof (cases op)
  case (Receive m)
  have "distinct (call_ids (client_frame m c))" "set (call_ids (client_frame m c)) = set (call_ids c)"
    using mset_call_ids_frame [of m c] assms(1) mset_eq_setD mset_eq_imp_distinct_iff by blast+
  then show ?thesis
    by (simp add: Receive calls_of_def map_filter_def)
next
  case (Call i mth args)
  then have "call_ids (client_do op c) = call_ids c @ [i]" "calls_of [op] = [i]"
    by (simp_all add: call_def send_or_queue_def call_ids_def calls_of_def map_filter_def)
  with assms Call show ?thesis
    by simp
next
  case (Abandoned i)
  then have "call_ids (client_do op c) = map fst (pc_outcomes c) @ removeAll i (pc_pending c)"
    by (simp add: call_abandoned_def call_ids_def)
  moreover have "calls_of [op] = []" "abandoned_of [op] = [i]"
    using Abandoned by (simp_all add: calls_of_def abandoned_of_def map_filter_def)
  ultimately show ?thesis
    using assms(1) by (auto simp: call_ids_def distinct_removeAll)
next
  case Lost
  then have "call_ids (client_do op c) = call_ids c"
    by (simp add: connection_lost_def call_ids_def comp_def)
  with assms(1) show ?thesis
    by (simp add: Lost calls_of_def map_filter_def)
next
  case Up
  then have "call_ids (client_do op c) = call_ids c"
    by (simp add: connection_up_def call_ids_def)
  with assms(1) show ?thesis
    by (simp add: Up calls_of_def map_filter_def)
qed (use assms(1) in \<open>simp_all add: calls_of_def map_filter_def\<close>)

lemma call_ids_run:
  assumes "distinct (call_ids c)" and "distinct (calls_of ops)" and "set (calls_of ops) \<inter> set (call_ids c) = {}"
  shows "distinct (call_ids (client_run ops c)) \<and>
     set (call_ids (client_run ops c)) \<subseteq> set (call_ids c) \<union> set (calls_of ops) \<and>
     set (call_ids c) \<union> set (calls_of ops) - set (abandoned_of ops) \<subseteq> set (call_ids (client_run ops c))"
  using assms
proof (induction ops arbitrary: c)
  case (Cons op ops)
  have split: "calls_of (op # ops) = calls_of [op] @ calls_of ops" "abandoned_of (op # ops) = abandoned_of [op] @ abandoned_of ops"
    by (simp_all add: calls_of_def abandoned_of_def map_filter_def)
  have fresh: "\<forall>i mth args. op = Call i mth args \<longrightarrow> i \<notin> set (call_ids c)"
    using Cons.prems(3) by (auto simp: split(1)) (auto simp: calls_of_def map_filter_def)
  note step = call_ids_do [OF Cons.prems(1) this]
  have "set (calls_of ops) \<inter> set (call_ids (client_do op c)) = {}" "distinct (calls_of ops)"
    using step Cons.prems(2,3) by (auto simp: split(1))
  from Cons.IH [OF _ this(2,1)] step have
    "distinct (call_ids (client_run ops (client_do op c)))"
    "set (call_ids (client_run ops (client_do op c))) \<subseteq> set (call_ids (client_do op c)) \<union> set (calls_of ops)"
    "set (call_ids (client_do op c)) \<union> set (calls_of ops) - set (abandoned_of ops) \<subseteq> set (call_ids (client_run ops (client_do op c)))"
    by blast+
  moreover have "client_run (op # ops) c = client_run ops (client_do op c)"
    by (simp add: client_run_def)
  ultimately show ?case
    using step unfolding split by auto
qed (simp add: client_run_def calls_of_def map_filter_def)

subsection \<open>Subscribing again after a reconnect\<close>

text \<open>The keys a list of sent frames subscribes to.\<close>

definition subscribed_keys :: "raw_frame list \<Rightarrow> string set" where
  "subscribed_keys fs = {k. \<exists>(t, sid, sq, b) \<in> set fs. t \<in> {WATCH, RESUME} \<and> get_str b ''state'' = Some k}"

lemma subscribed_keys_append [simp]: "subscribed_keys (fs @ fs') = subscribed_keys fs \<union> subscribed_keys fs'"
  by (auto simp: subscribed_keys_def)

lemma subscribed_keys_send:
  "subscribed_keys [(WATCH, sid, sq, with_params ps [(''state'', String k)])] \<subseteq> {k}"
  "subscribed_keys [(RESUME, sid, sq, with_params ps [(''state'', String k), (''since_version'', json_u64 v)])] \<subseteq> {k}"
  by (cases ps; auto simp: subscribed_keys_def with_params_def json_obj_def get_str_def)+

lemma send_sub_outbox:
  "\<exists>f. pc_outbox (send_watch key ps c) = pc_outbox c @ f \<and> subscribed_keys f \<subseteq> {key}"
  "\<exists>f. pc_outbox (send_resume key v ps c) = pc_outbox c @ f \<and> subscribed_keys f \<subseteq> {key}"
  using subscribed_keys_send by (simp_all add: send_watch_def send_resume_def Let_def)

lemma resubscribe_keys:
  "\<exists>fs. pc_outbox (resubscribe ws c) = pc_outbox c @ fs \<and> subscribed_keys fs \<subseteq> {k. \<exists>e. (k, e) \<in> set ws \<and> pw_callbacks e \<noteq> []}"
proof (induction ws c rule: resubscribe.induct)
  case (1 c)
  show ?case
    by (intro exI [of _ "[]"]) (simp add: subscribed_keys_def)
next
  case (2 key entry rest c)
  let ?c = "if pw_callbacks entry = [] then c
        else if pw_version entry > 0 then send_resume key (pw_version entry) (pw_params entry) c
        else send_watch key (pw_params entry) c"
  obtain fs where fs: "pc_outbox (resubscribe rest ?c) = pc_outbox ?c @ fs"
    "subscribed_keys fs \<subseteq> {k. \<exists>e. (k, e) \<in> set rest \<and> pw_callbacks e \<noteq> []}"
    using "2.IH" by blast
  have "\<exists>f. pc_outbox ?c = pc_outbox c @ f \<and> subscribed_keys f \<subseteq> {k. k = key \<and> pw_callbacks entry \<noteq> []}"
  proof (cases "pw_callbacks entry = []")
    case True
    then show ?thesis
      by (intro exI [of _ "[]"]) (simp add: subscribed_keys_def)
  next
    case False
    with send_sub_outbox show ?thesis
      by simp
  qed
  then obtain f where f: "pc_outbox ?c = pc_outbox c @ f" "subscribed_keys f \<subseteq> {k. k = key \<and> pw_callbacks entry \<noteq> []}"
    by blast
  then show ?case
    using fs by (intro exI [of _ "f @ fs"]) (auto dest: subsetD)
qed

lemma rewatch_silent:
  assumes "distinct (map fst (pc_watches c))" and "map_of (pc_watches c) key = Some e" and "pw_callbacks e = []"
  defines "c1 \<equiv> on_ready (connection_up (connection_lost c))"
  shows "\<exists>fs. pc_outbox (watch key cb ps c1) = pc_outbox c @ fs \<and> key \<notin> subscribed_keys fs"
    and "is_watching key (watch key cb ps c1)"
proof -
  let ?c0 = "connection_up (connection_lost c)"
  have c0: "pc_watches ?c0 = pc_watches c" "pc_outbox ?c0 = pc_outbox c" "pc_call_queue ?c0 = []"
    by (simp_all add: connection_up_def connection_lost_def)
  obtain fs where fs: "pc_outbox (resubscribe (pc_watches c) (?c0\<lparr>pc_authenticated := True\<rparr>)) = pc_outbox c @ fs"
      "subscribed_keys fs \<subseteq> {k. \<exists>e. (k, e) \<in> set (pc_watches c) \<and> pw_callbacks e \<noteq> []}"
    using resubscribe_keys [of "pc_watches c" "?c0\<lparr>pc_authenticated := True\<rparr>"] c0(2) by auto
  have out: "pc_outbox c1 = pc_outbox c @ fs"
    using fs(1) c0 by (simp add: c1_def on_ready_def Let_def)
  have old: "\<not> fst (enter_callback key cb ps c1)" "pc_outbox (snd (enter_callback key cb ps c1)) = pc_outbox c1"
    "is_watching key (snd (enter_callback key cb ps c1))"
    using assms(2) c0(1) by (simp_all add: enter_callback_def c1_def Let_def is_watching_def update_conv')
  have "key \<notin> subscribed_keys fs"
    using fs(2) assms(1-3) by (auto dest!: subsetD) (metis map_of_is_SomeI option.inject)
  with out old show "\<exists>fs. pc_outbox (watch key cb ps c1) = pc_outbox c @ fs \<and> key \<notin> subscribed_keys fs"
    "is_watching key (watch key cb ps c1)"
    by (simp_all add: watch_def Let_def split_def)
qed

subsection \<open>Reconnecting\<close>

text \<open>The delays of consecutive failed attempts, given the jitters.\<close>

fun delays :: "rat list \<Rightarrow> py_link \<Rightarrow> rat list" where
  "delays [] l = []"
| "delays (j # js) l = (case attempt_over j l of None \<Rightarrow> [] | Some (d, l') \<Rightarrow> d # delays js l')"

lemma delays_nth:
  "\<not> lk_closed l \<Longrightarrow> lk_reconnect l \<Longrightarrow>
     length (delays js l) = length js \<and>
     (\<forall>i < length js. delays js l ! i = min (lk_delay l * 2 ^ (lk_attempts l + i) + js ! i * (1 / 2)) (lk_max_delay l))"
proof (induction js arbitrary: l)
  case (Cons j js)
  then show ?case
    using Cons.IH [of "l\<lparr>lk_attempts := lk_attempts l + 1\<rparr>"]
    by (auto simp: attempt_over_def backoff_def nth_Cons split: nat.split)
qed simp

text \<open>
  Exponential back-off: after \<open>i\<close> failures in a row the client waits at least the base delay doubled \<open>i\<close> times, or the
  maximum if that is less, and never longer than the maximum; once closed it does not try again.
\<close>

theorem reconnect_backoff:
  assumes "\<not> lk_closed l" and "lk_reconnect l" and "\<forall>j \<in> set js. 0 \<le> j" and "i < length js"
  shows "min (lk_delay l * 2 ^ i) (lk_max_delay l) \<le> delays js (link_up l) ! i \<and> delays js (link_up l) ! i \<le> lk_max_delay l \<and>
         delays js (client_close l) = []"
proof -
  have "delays js (link_up l) ! i = min (lk_delay l * 2 ^ i + js ! i * (1 / 2)) (lk_max_delay l)"
    using delays_nth [of "link_up l" js] assms by (simp add: link_up_def)
  moreover have "0 \<le> js ! i"
    using assms(3,4) by simp
  moreover have "delays js (client_close l) = []"
    by (cases js) (simp_all add: client_close_def attempt_over_def)
  ultimately show ?thesis
    by (simp add: min.coboundedI1)
qed

section \<open>Properties\<close>

text \<open>
  C22. Every call completes at most once and is not forgotten. Starting from a new client, in any sequence of received frames,
  public operations, timeouts, connects and disconnects in which call identifiers are not reused, a completed call is completed
  once and no longer pending; only calls that were made are completed or pending; and a call that was made, and not abandoned by
  its timeout or cancellation, is completed or still pending.
\<close>

theorem calls_complete_once:
  assumes "distinct (calls_of ops)"
  shows "let c = client_run ops (client_new tok)
         in distinct (map fst (pc_outcomes c) @ pc_pending c) \<and>
            fst ` set (pc_outcomes c) \<union> set (pc_pending c) \<subseteq> set (calls_of ops) \<and>
            set (calls_of ops) - set (abandoned_of ops) \<subseteq> fst ` set (pc_outcomes c) \<union> set (pc_pending c)"
proof -
  have "call_ids (client_new tok) = []"
    by (simp add: call_ids_def client_new_def)
  with call_ids_run [of "client_new tok" ops] assms show ?thesis
    by (simp add: Let_def call_ids_def [of "client_run ops (client_new tok)"])
qed

theorem calls_complete_once_witness:
  "''a'' \<in> fst ` set (pc_outcomes (client_run [Call ''a'' ''m'' Null, Call ''b'' ''m'' Null, Lost] (client_new None))) \<union>
            set (pc_pending (client_run [Call ''a'' ''m'' Null, Call ''b'' ''m'' Null, Lost] (client_new None)))"
proof -
  let ?ops = "[Call ''a'' ''m'' Null, Call ''b'' ''m'' Null, Lost]"
  have "calls_of ?ops = [''a'', ''b'']" "abandoned_of ?ops = []"
    by (simp_all add: calls_of_def abandoned_of_def map_filter_def)
  with calls_complete_once [of ?ops None] show ?thesis
    by (simp add: Let_def)
qed

text \<open>
  A watch can die silently. When the last callback of a key was removed before the connection was lost, the
  reconnect does not subscribe the key, and a later watch of it does not either, although the client counts
  the key as watched from then on.
\<close>

theorem rewatch_never_subscribes:
  assumes "distinct (map fst (pc_watches c))" and "map_of (pc_watches c) key = Some e" and "pw_callbacks e = []"
  shows "(\<exists>fs. pc_outbox (watch key cb ps (on_ready (connection_up (connection_lost c)))) = pc_outbox c @ fs \<and>
               key \<notin> subscribed_keys fs) \<and>
         is_watching key (watch key cb ps (on_ready (connection_up (connection_lost c))))"
  using rewatch_silent [OF assms] by blast

theorem rewatch_never_subscribes_witness:
  "\<exists>fs. pc_outbox (watch ''k'' 1 None (on_ready (connection_up (connection_lost
          (unsub ''k'' 0 (watch ''k'' 0 None (client_new None))))))) = fs \<and> ''k'' \<notin> subscribed_keys fs"
proof -
  let ?c = "unsub ''k'' 0 (watch ''k'' 0 None (client_new None))"
  let ?e = "\<lparr>pw_callbacks = [], pw_version = 0, pw_value = Null, pw_initialized = False, pw_params = None\<rparr>"
  have "distinct (map fst (pc_watches ?c))" "map_of (pc_watches ?c) ''k'' = Some ?e" "pw_callbacks ?e = []" "pc_outbox ?c = []"
    by (simp_all add: unsub_def watch_def enter_callback_def client_new_def new_watch_def Let_def)
  with rewatch_never_subscribes [OF this(1-3), of 1 None] show ?thesis
    by simp
qed

text \<open>
  An ERROR can hit the wrong call. The server answers a refused WATCH with an ERROR frame that names no call;
  a client with a pending call then rejects that call, and drops the successful RESULT of the call when it comes.
\<close>

theorem watch_error_rejects_call:
  assumes "pc_pending c = [call_id]"
  shows "let c' = client_frames [PyFrame (error 0 sq 403 (''forbidden: '' @ key)), PyFrame (result_ok sid sq' call_id d)] c
         in pc_outcomes c' = pc_outcomes c @ [(call_id, ErrorFrame (json_u64 403) (String (''forbidden: '' @ key)))] \<and>
            pc_pending c' = []"
proof -
  have err: "frame_type (error 0 sq 403 m) = ERROR" "json_get (body (error 0 sq 403 m)) ''code'' = Some (json_u64 403)"
    "json_get (body (error 0 sq 403 m)) ''message'' = Some (String m)" for m
    by (simp_all add: error_def json_obj_def)
  have res: "frame_type (result_ok sid sq' call_id d) = RESULT"
    by (simp add: result_ok_def)
  show ?thesis
    using assms
    by (simp add: client_frames_def client_frame_def err res frame_type_defs on_error_def on_result_def opt_json_def Let_def
        del: append.simps)
qed

theorem watch_error_rejects_call_witness:
  "pc_outcomes (client_frames [PyFrame (error 0 1 403 (''forbidden: '' @ ''k'')), PyFrame (result_ok 0 2 ''a'' None)]
      (call ''a'' ''state.set'' Null (client_new None))) =
     [(''a'', ErrorFrame (json_u64 403) (String (''forbidden: '' @ ''k'')))]"
proof -
  let ?c = "call ''a'' ''state.set'' Null (client_new None)"
  have c: "pc_pending ?c = [''a'']" "pc_outcomes ?c = []"
    by (simp_all add: call_def send_or_queue_def client_new_def)
  from watch_error_rejects_call [OF c(1), of 1 "''k''" 0 2 None] c(2) show ?thesis
    by (simp add: Let_def del: append.simps)
qed


end
