(* ===== verification/Replica_Sync.thy ===== *)
theory Replica_Sync
  imports Server_System Python_Client "HOL-Library.Countable"
begin

section \<open>Replicas follow the store\<close>

text \<open>
  The end-to-end property of the protocol: a client that has received everything the server has put on its handle holds,
  for every key the server has subscribed it to, the value in the store. It composes the server of
  \<^theory_text>\<open>Server_System\<close> (store, diff, broadcast, own delivery, WATCH, RESUME, UNWATCH, presence clean-up) with
  the client of \<^theory_text>\<open>Python_Client\<close>. The wire between them is the list of messages a handle carried; \<open>ddec\<close>
  decodes the body of a DELTA frame.
\<close>

type_synonym delta_decoder = "bytes \<Rightarrow> (u64 \<times> delta_op list) option"

definition decode_msg :: "delta_decoder \<Rightarrow> outbound_msg \<Rightarrow> py_in option" where
  "decode_msg ddec m =
     (let parse = (\<lambda>b. case read_delta b of
                         Some (sid, sq, body_mp) \<Rightarrow> map_option (\<lambda>(v, ops). PyDelta sid v ops) (ddec body_mp)
                       | None \<Rightarrow> None)
      in case m of
           FrameMsg f \<Rightarrow> Some (PyFrame f)
         | Bytes b \<Rightarrow> parse b
         | ArcDelta sid body_mp \<Rightarrow> parse (delta_bytes sid 0 body_mp)
         | Ping \<Rightarrow> None
         | Pong _ \<Rightarrow> None)"

definition inbox_of :: "delta_decoder \<Rightarrow> outbound_msg list \<Rightarrow> py_in list" where
  "inbox_of ddec ms = List.map_filter (decode_msg ddec) ms"

definition codec_ok :: "externals \<Rightarrow> delta_decoder \<Rightarrow> bool" where
  "codec_ok x ddec \<longleftrightarrow> (\<forall>v ops. \<exists>b. x_delta x v ops = Some b \<and> ddec b = Some (v, ops))"

text \<open>
  What a client with these frames knows about its session, what the subscriptions on a handle say about the session, and that
  the subscribed keys are in sync.
\<close>

definition feed_ok :: "py_in list \<Rightarrow> session \<Rightarrow> bool" where
  "feed_ok ms se \<longleftrightarrow>
     complete_inits ms \<and> single_valued (opened ms) \<and>
     (\<forall>p \<in> opened ms. fst p < unat (next_stream_id se)) \<and>
     (\<forall>w \<in> set (watches se). (unat (fst w), w_key (snd w)) \<in> opened ms)"

definition sub_ok :: "fanout_bus \<Rightarrow> nat \<Rightarrow> session \<Rightarrow> bool" where
  "sub_ok bus h se \<longleftrightarrow>
     (\<forall>k. \<forall>s \<in> set (subscribers bus k). sub_write s = h \<longrightarrow> (\<exists>e. (sub_stream s, e) \<in> set (watches se) \<and> w_key e = k))"

definition sync_ok :: "fanout_bus \<Rightarrow> nat \<Rightarrow> py_in list \<Rightarrow> state_store \<Rightarrow> bool" where
  "sync_ok bus h ms st \<longleftrightarrow>
     (\<forall>k. (\<exists>s \<in> set (subscribers bus k). sub_write s = h) \<longrightarrow> snd (key_view k ms) = value_of st k)"

definition live :: "delta_decoder \<Rightarrow> server \<Rightarrow> nat \<Rightarrow> session \<Rightarrow> bool" where
  "live ddec sv h se \<longleftrightarrow>
     (\<not> net_dead (sv_net sv) h \<longrightarrow>
        feed_ok (inbox_of ddec (net_carried (sv_net sv) h)) se \<and> sub_ok (sv_bus sv) h se \<and>
        sync_ok (sv_bus sv) h (inbox_of ddec (net_carried (sv_net sv) h)) (sv_state sv))"

subsection \<open>Decoding\<close>

lemma inbox_of_append [simp]: "inbox_of ddec (ms @ ms') = inbox_of ddec ms @ inbox_of ddec ms'"
  by (simp add: inbox_of_def map_filter_def)

lemma inbox_of_simps [simp]:
  "inbox_of ddec [] = []" "inbox_of ddec [FrameMsg f] = [PyFrame f]" "inbox_of ddec [Ping] = []" "inbox_of ddec [Pong d] = []"
  by (simp_all add: inbox_of_def map_filter_def decode_msg_def)

lemma encode_delta_body_codec:
  "codec_ok x ddec \<Longrightarrow> ddec (encode_delta_body (x_delta x) v ops) = Some (v, ops)"
  by (auto simp: codec_ok_def encode_delta_body_def) (metis option.simps(5))

lemma decode_delta:
  assumes "codec_ok x ddec"
  shows "decode_msg ddec (ArcDelta sid (encode_delta_body (x_delta x) v ops)) = Some (PyDelta (unat sid) v ops)"
    and "decode_msg ddec (Bytes (delta_bytes sid sq (encode_delta_body (x_delta x) v ops))) = Some (PyDelta (unat sid) v ops)"
  by (simp_all add: decode_msg_def read_delta_bytes encode_delta_body_codec [OF assms] Let_def)

lemma init_of_state_init:
  "init_of (state_init sid sq key version v i ps) = Some (key, version, v, Bool i)"
  "stream_id (state_init sid sq key version v i ps) = sid"
  by (cases ps; simp add: init_of_def state_init_def json_obj_def get_str_def get_u64_def json_u64_def Let_def)+

subsection \<open>Messages that mean nothing to a replica\<close>

definition neutral :: "py_in list \<Rightarrow> bool" where
  "neutral ms \<longleftrightarrow> (\<forall>m \<in> set ms. \<exists>f. m = PyFrame f \<and> frame_type f \<noteq> STATE_INIT)"

lemma neutral_view:
  assumes "neutral ms'"
  shows "key_view k (ms @ ms') = key_view k ms" and "opened (ms @ ms') = opened ms" and "complete_inits ms'"
proof -
  have step: "key_step k m p = p \<and> opens m = {}" if "m \<in> set ms'" for m p
    using assms that by (auto simp: neutral_def key_step_def opens_def init_of_def split: py_in.split prod.split)
  have "fold (key_step k) ms'' p = p" if "set ms'' \<subseteq> set ms'" for ms'' p
    using that step by (induction ms'' arbitrary: p) auto
  then show "key_view k (ms @ ms') = key_view k ms"
    by (simp add: key_view_append)
  have "opened ms' = {}"
    using step by (auto simp: opened_def)
  then show "opened (ms @ ms') = opened ms"
    by simp
  show "complete_inits ms'"
    using assms by (auto simp: complete_inits_def neutral_def)
qed

text \<open>A step that only sends neutral messages to a handle and changes no subscription of it.\<close>

lemma live_neutral:
  assumes "live ddec sv h se" and "\<not> net_dead (sv_net sv') h \<Longrightarrow> \<not> net_dead (sv_net sv) h"
    and "\<not> net_dead (sv_net sv') h \<Longrightarrow>
      \<exists>ms'. inbox_of ddec (net_carried (sv_net sv') h) = inbox_of ddec (net_carried (sv_net sv) h) @ ms' \<and> neutral ms'"
    and "\<And>k. {s \<in> set (subscribers (sv_bus sv') k). sub_write s = h} \<subseteq> set (subscribers (sv_bus sv) k)"
    and "\<And>k. value_of (sv_state sv') k = value_of (sv_state sv) k"
    and "next_stream_id se' = next_stream_id se" and "watches se' = watches se"
  shows "live ddec sv' h se'"
  unfolding live_def
proof
  assume alive: "\<not> net_dead (sv_net sv') h"
  let ?ms = "inbox_of ddec (net_carried (sv_net sv) h)"
  obtain ms' where ms': "inbox_of ddec (net_carried (sv_net sv') h) = ?ms @ ms'" "neutral ms'"
    using assms(3) [OF alive] by blast
  have old: "feed_ok ?ms se" "sub_ok (sv_bus sv) h se" "sync_ok (sv_bus sv) h ?ms (sv_state sv)"
    using assms(1,2) alive by (simp_all add: live_def)
  have "feed_ok (?ms @ ms') se'"
    using old(1) neutral_view(2) [OF ms'(2), of ?ms] neutral_view(3) [OF ms'(2)] assms(6,7)
    by (simp add: feed_ok_def)
  moreover have "sub_ok (sv_bus sv') h se'"
    using old(2) assms(4,7) by (fastforce simp: sub_ok_def)
  moreover have "sync_ok (sv_bus sv') h (?ms @ ms') (sv_state sv')"
    using old(3) assms(4,5) neutral_view(1) [OF ms'(2), of _ ?ms] by (fastforce simp: sync_ok_def)
  ultimately show "feed_ok (inbox_of ddec (net_carried (sv_net sv') h)) se' \<and> sub_ok (sv_bus sv') h se' \<and>
      sync_ok (sv_bus sv') h (inbox_of ddec (net_carried (sv_net sv') h)) (sv_state sv')"
    by (simp add: ms'(1))
qed

subsection \<open>Deltas\<close>

text \<open>What a change of a key does: the operations lead from the old value to the new one, and again to the new one.\<close>

definition delta_leads :: "delta_op list \<Rightarrow> json \<Rightarrow> json \<Rightarrow> bool" where
  "delta_leads ops v w \<longleftrightarrow> apply_ops v ops = w \<and> apply_ops w ops = w"

lemma fold_deltas:
  "fold (key_step k) (map (\<lambda>sid. PyDelta sid n ops) sids) (S, v) =
     (S, ((\<lambda>v. apply_ops v ops) ^^ length (filter (\<lambda>sid. sid \<in> S) sids)) v)"
  using funpow_swap1 [of "\<lambda>v. apply_ops v ops"] by (induction sids arbitrary: v) (simp_all add: key_step_def)

lemma delta_leads_funpow: "delta_leads ops v w \<Longrightarrow> n > 0 \<Longrightarrow> ((\<lambda>v. apply_ops v ops) ^^ n) v = w"
proof (induction n)
  case (Suc n)
  then show ?case
    by (cases n) (simp_all add: delta_leads_def)
qed simp

lemma deltas_view:
  assumes "single_valued (opened ms)" and "\<forall>sid \<in> set sids. (sid, key) \<in> opened ms"
  shows "k \<noteq> key \<Longrightarrow> key_view k (ms @ map (\<lambda>sid. PyDelta sid n ops) sids) = key_view k ms"
    and "delta_leads ops (snd (key_view key ms)) w \<Longrightarrow> sids \<noteq> [] \<Longrightarrow>
           snd (key_view key (ms @ map (\<lambda>sid. PyDelta sid n ops) sids)) = w"
    and "opened (ms @ map (\<lambda>sid. PyDelta sid n ops) sids) = opened ms"
    and "complete_inits (map (\<lambda>sid. PyDelta sid n ops) sids)"
proof -
  have streams: "sid \<in> fst (key_view k ms) \<longleftrightarrow> (sid, k) \<in> opened ms" for sid k
    by (simp add: key_view_streams)
  show "key_view k (ms @ map (\<lambda>sid. PyDelta sid n ops) sids) = key_view k ms" if "k \<noteq> key"
  proof -
    have "filter (\<lambda>sid. sid \<in> fst (key_view k ms)) sids = []"
      using assms that streams by (auto simp: single_valued_def filter_empty_conv)
    then show ?thesis
      using fold_deltas [of k n ops sids "fst (key_view k ms)" "snd (key_view k ms)"] by (simp add: key_view_append)
  qed
  show "snd (key_view key (ms @ map (\<lambda>sid. PyDelta sid n ops) sids)) = w"
    if "delta_leads ops (snd (key_view key ms)) w" "sids \<noteq> []"
  proof -
    have "filter (\<lambda>sid. sid \<in> fst (key_view key ms)) sids = sids"
      using assms(2) streams by (simp add: filter_id_conv)
    then show ?thesis
      using fold_deltas [of key n ops sids "fst (key_view key ms)" "snd (key_view key ms)"]
        delta_leads_funpow [OF that(1), of "length sids"] that(2) by (simp add: key_view_append)
  qed
  show "opened (ms @ map (\<lambda>sid. PyDelta sid n ops) sids) = opened ms"
    by (auto simp: opened_def opens_def)
  show "complete_inits (map (\<lambda>sid. PyDelta sid n ops) sids)"
    by (auto simp: complete_inits_def)
qed

lemma live_deltas:
  assumes "live ddec sv h se" and "\<not> net_dead (sv_net sv') h \<Longrightarrow> \<not> net_dead (sv_net sv) h"
    and "\<not> net_dead (sv_net sv') h \<Longrightarrow>
      inbox_of ddec (net_carried (sv_net sv') h) =
        inbox_of ddec (net_carried (sv_net sv) h) @ map (\<lambda>sid. PyDelta (unat sid) n ops) sids"
    and "\<not> net_dead (sv_net sv') h \<Longrightarrow> \<forall>sid \<in> set sids. \<exists>e. (sid, e) \<in> set (watches se) \<and> w_key e = key"
    and "\<And>k. {s \<in> set (subscribers (sv_bus sv') k). sub_write s = h} \<subseteq> set (subscribers (sv_bus sv) k)"
    and "\<And>k. k \<noteq> key \<Longrightarrow> value_of (sv_state sv') k = value_of (sv_state sv) k"
    and "delta_leads ops (value_of (sv_state sv) key) (value_of (sv_state sv') key)"
    and "\<not> net_dead (sv_net sv') h \<Longrightarrow> \<forall>s \<in> set (subscribers (sv_bus sv') key). sub_write s = h \<longrightarrow> sids \<noteq> []"
  shows "live ddec sv' h se"
  unfolding live_def
proof
  assume alive: "\<not> net_dead (sv_net sv') h"
  let ?ms = "inbox_of ddec (net_carried (sv_net sv) h)" and ?ds = "map (\<lambda>sid. PyDelta (unat sid) n ops) sids"
  have old: "feed_ok ?ms se" "sub_ok (sv_bus sv) h se" "sync_ok (sv_bus sv) h ?ms (sv_state sv)"
    using assms(1,2) alive by (simp_all add: live_def)
  have sv: "single_valued (opened ?ms)" and op: "\<forall>sid \<in> set (map unat sids). (sid, key) \<in> opened ?ms"
    using old(1) assms(4) [OF alive] by (force simp: feed_ok_def)+
  have ds: "?ds = map (\<lambda>sid. PyDelta sid n ops) (map unat sids)"
    by simp
  note view = deltas_view [where n = n and ops = ops, OF sv op, folded ds]
  have "feed_ok (?ms @ ?ds) se"
    using old(1) view(3,4) by (simp add: feed_ok_def)
  moreover have "sub_ok (sv_bus sv') h se"
    using old(2) assms(5) by (fastforce simp: sub_ok_def)
  moreover have "snd (key_view k (?ms @ ?ds)) = value_of (sv_state sv') k"
    if s: "s \<in> set (subscribers (sv_bus sv') k)" "sub_write s = h" for k s
  proof -
    have sync: "snd (key_view k ?ms) = value_of (sv_state sv) k"
      using old(3) assms(5) s by (fastforce simp: sync_ok_def)
    show ?thesis
    proof (cases "k = key")
      case True
      then show ?thesis
        using view(2) assms(7) assms(8) [OF alive] s sync by auto
    next
      case False
      then show ?thesis
        using view(1) assms(6) sync by auto
    qed
  qed
  ultimately show "feed_ok (inbox_of ddec (net_carried (sv_net sv') h)) se \<and> sub_ok (sv_bus sv') h se \<and>
      sync_ok (sv_bus sv') h (inbox_of ddec (net_carried (sv_net sv') h)) (sv_state sv')"
    by (auto simp: assms(3) [OF alive] sync_ok_def)
qed


text \<open>Nothing a handle's connection is about changed.\<close>

lemma live_same:
  assumes "net_carried (sv_net sv') h = net_carried (sv_net sv) h" and "net_dead (sv_net sv') h = net_dead (sv_net sv) h"
    and "sv_bus sv' = sv_bus sv" and "sv_state sv' = sv_state sv"
  shows "live ddec sv' h se = live ddec sv h se"
  by (simp add: live_def assms)

lemma live_send_other: "h' \<noteq> h \<Longrightarrow> live ddec (send_msg h m sv) h' se = live ddec sv h' se"
  using net_sink.other [of h' h m "sv_net sv"] by (intro live_same) simp_all

lemma live_deliver_other: "h' \<noteq> h \<Longrightarrow> live ddec (deliver_own h se0 key b sv) h' se = live ddec sv h' se"
  by (simp add: deliver_own_def live_send_other split: option.split)

lemma live_cluster [simp]:
  "live ddec (cluster_sync x key n v b sv) h se = live ddec sv h se"
  "live ddec (cluster_sync_delete x key b sv) h se = live ddec sv h se"
  by (rule live_same, simp_all)+

text \<open>A reply on the connection's own handle.\<close>

lemma live_send_frame:
  assumes "live ddec sv h se" and "frame_type f \<noteq> STATE_INIT"
    and "next_stream_id se' = next_stream_id se" and "watches se' = watches se"
  shows "live ddec (send_msg h (FrameMsg f) sv) h se'"
proof (rule live_neutral [OF assms(1)])
  assume alive: "\<not> net_dead (sv_net (send_msg h (FrameMsg f) sv)) h"
  then show "\<not> net_dead (sv_net sv) h"
    using carried_send(2) by simp
  show "\<exists>ms'. inbox_of ddec (net_carried (sv_net (send_msg h (FrameMsg f) sv)) h) =
      inbox_of ddec (net_carried (sv_net sv) h) @ ms' \<and> neutral ms'"
    using carried_send(1) [of h "FrameMsg f" "sv_net sv"] alive assms(2)
    by (intro exI [of _ "[PyFrame f]"]) (simp add: neutral_def)
qed (use assms in auto)

lemma live_send_control:
  assumes "live ddec sv h se" and "m = Ping \<or> (\<exists>d. m = Pong d)"
  shows "live ddec (send_msg h m sv) h se"
proof (rule live_neutral [OF assms(1)])
  assume alive: "\<not> net_dead (sv_net (send_msg h m sv)) h"
  then show "\<not> net_dead (sv_net sv) h"
    using carried_send(2) by simp
  show "\<exists>ms'. inbox_of ddec (net_carried (sv_net (send_msg h m sv)) h) = inbox_of ddec (net_carried (sv_net sv) h) @ ms' \<and> neutral ms'"
    using carried_send(1) [of h m "sv_net sv"] alive assms(2)
    by (intro exI [of _ "[]"]) (auto simp: neutral_def)
qed auto

text \<open>A delta broadcast to a connection, and the own delivery to the author.\<close>

lemma live_broadcast:
  assumes codec: "codec_ok x ddec" and live: "live ddec sv h se"
    and aud: "\<forall>s \<in> set (subscribers (sv_bus sv) key). sub_write s = h \<longrightarrow> s \<in> set (audience key ex (sv_bus sv))"
    and other: "\<And>k. k \<noteq> key \<Longrightarrow> value_of st k = value_of (sv_state sv) k"
    and leads: "delta_leads ops (value_of (sv_state sv) key) (value_of st key)"
  shows "live ddec (broadcast_timed key (encode_delta_body (x_delta x) n ops) ex (sv\<lparr>sv_state := st\<rparr>)) h se"
proof -
  let ?b = "encode_delta_body (x_delta x) n ops"
  let ?sv = "broadcast_timed key ?b ex (sv\<lparr>sv_state := st\<rparr>)"
  let ?subs = "filter (\<lambda>s. sub_write s = h) (audience key ex (sv_bus sv))"
  have net: "sv_net ?sv = snd (broadcast_encoded key ?b ex (sv_bus sv, sv_net sv))"
    and bus: "sv_bus ?sv = fst (broadcast_encoded key ?b ex (sv_bus sv, sv_net sv))"
    by simp_all
  have alive: "\<not> net_dead (sv_net sv) h" if "\<not> net_dead (sv_net ?sv) h"
    using that broadcast_dead unfolding net by blast
  have dec: "inbox_of ddec (map (\<lambda>s. ArcDelta (sub_stream s) ?b) ss) = map (\<lambda>sid. PyDelta (unat sid) n ops) (map sub_stream ss)" for ss
    by (induction ss) (simp_all add: inbox_of_def map_filter_def decode_delta [OF codec])
  have sub: "set (subscribers (sv_bus ?sv) k) \<subseteq> set (subscribers (sv_bus sv) k)" for k
    unfolding bus by (rule broadcast_subset)
  show ?thesis
  proof (rule live_deltas [OF live, where sids = "map sub_stream ?subs" and n = n and ops = ops and key = key])
    assume a: "\<not> net_dead (sv_net ?sv) h"
    show "\<not> net_dead (sv_net sv) h"
      using alive [OF a] .
    show "inbox_of ddec (net_carried (sv_net ?sv) h) =
        inbox_of ddec (net_carried (sv_net sv) h) @ map (\<lambda>sid. PyDelta (unat sid) n ops) (map sub_stream ?subs)"
      unfolding net broadcast_delivered [OF a [unfolded net]] inbox_of_append dec ..
    show "\<forall>sid \<in> set (map sub_stream ?subs). \<exists>e. (sid, e) \<in> set (watches se) \<and> w_key e = key"
      using live alive [OF a] by (auto simp: live_def sub_ok_def audience_def)
    show "\<forall>s \<in> set (subscribers (sv_bus ?sv) key). sub_write s = h \<longrightarrow> map sub_stream ?subs \<noteq> []"
      using sub [of key] aud by (fastforce simp: filter_empty_conv)
  qed (use sub other leads in auto)
qed

lemma live_own_delivery:
  assumes codec: "codec_ok x ddec" and live: "live ddec sv h se" and own: "owns h se (sv_bus sv)"
    and other: "\<And>k. k \<noteq> key \<Longrightarrow> value_of st k = value_of (sv_state sv) k"
    and leads: "delta_leads ops (value_of (sv_state sv) key) (value_of st key)"
  shows "live ddec (deliver_own h se key (encode_delta_body (x_delta x) n ops)
           (broadcast_timed key (encode_delta_body (x_delta x) n ops) (Some (s_id se)) (sv\<lparr>sv_state := st\<rparr>))) h se"
proof -
  let ?b = "encode_delta_body (x_delta x) n ops"
  let ?sv1 = "broadcast_timed key ?b (Some (s_id se)) (sv\<lparr>sv_state := st\<rparr>)"
  let ?sv = "deliver_own h se key ?b ?sv1"
  let ?sids = "case watch_stream_id key se of None \<Rightarrow> [] | Some sid \<Rightarrow> [sid]"
  have net1: "net_carried (sv_net ?sv1) h = net_carried (sv_net sv) h" "net_dead (sv_net ?sv1) h = net_dead (sv_net sv) h"
    using broadcast_own [OF own, of key ?b "sv_net sv"] by simp_all
  have sub: "set (subscribers (sv_bus ?sv) k) \<subseteq> set (subscribers (sv_bus sv) k)" for k
    using broadcast_subset by (auto dest: subsetD)
  have dec: "inbox_of ddec (own_delta se key ?b) = map (\<lambda>sid. PyDelta (unat sid) n ops) ?sids"
    by (simp add: own_delta_def inbox_of_def map_filter_def decode_delta [OF codec] split: option.split)
  have alive: "\<not> net_dead (sv_net sv) h" if "\<not> net_dead (sv_net ?sv) h"
    using deliver_own_carried(2) [OF that] net1(2) by simp
  show ?thesis
  proof (rule live_deltas [OF live, where sids = ?sids and n = n and ops = ops and key = key])
    assume a: "\<not> net_dead (sv_net ?sv) h"
    show "\<not> net_dead (sv_net sv) h"
      using alive [OF a] .
    show "inbox_of ddec (net_carried (sv_net ?sv) h) =
        inbox_of ddec (net_carried (sv_net sv) h) @ map (\<lambda>sid. PyDelta (unat sid) n ops) ?sids"
      unfolding deliver_own_carried(1) [OF a] net1(1) inbox_of_append dec ..
    show "\<forall>sid \<in> set ?sids. \<exists>e. (sid, e) \<in> set (watches se) \<and> w_key e = key"
      using watch_stream_id_Some [of key se] by (auto split: option.splits)
    show "\<forall>s \<in> set (subscribers (sv_bus ?sv) key). sub_write s = h \<longrightarrow> ?sids \<noteq> []"
    proof (intro ballI impI)
      fix s
      assume s: "s \<in> set (subscribers (sv_bus ?sv) key)" "sub_write s = h"
      have "sub_ok (sv_bus sv) h se"
        using live alive [OF a] by (simp add: live_def)
      then obtain e where "(sub_stream s, e) \<in> set (watches se)" "w_key e = key"
        using subsetD [OF sub s(1)] s(2) unfolding sub_ok_def by blast
      then show "?sids \<noteq> []"
        using watch_stream_id_None [of key se] by (auto split: option.splits)
    qed
  qed (use sub other leads in auto)
qed


subsection \<open>Changes of a key\<close>

definition values_ok :: "state_store \<Rightarrow> bool" where
  "values_ok st \<longleftrightarrow> (\<forall>k e. store_get st k = Some e \<longrightarrow> replicable (e_value e))"

text \<open>The handle of another session: none of its subscriptions carries the author's identifier.\<close>

definition separate :: "session \<Rightarrow> nat \<Rightarrow> fanout_bus \<Rightarrow> bool" where
  "separate se h bus \<longleftrightarrow> (\<forall>k. \<forall>s \<in> set (subscribers bus k). sub_write s = h \<longrightarrow> sub_session s \<noteq> s_id se)"

lemma apply_leads:
  assumes "values_ok s" and "replicable v"
  shows "delta_leads (apply_delta s key v) (value_of s key) v"
proof -
  have old: "\<forall>e. store_get s key = Some e \<longrightarrow> replicable (e_value e)"
    using assms(1) by (simp add: values_ok_def)
  moreover have "apply_ops v (apply_delta s key v) = v"
  proof (cases "store_get s key")
    case None
    then show ?thesis
      by (simp add: apply_delta_def apply_root_ops)
  next
    case (Some e)
    with old assms(2) show ?thesis
      by (simp add: apply_delta_def replicable_def apply_diff_again)
  qed
  ultimately show ?thesis
    using apply_delta_replay [OF assms(2) old] by (simp add: delta_leads_def)
qed

lemma value_of_apply:
  "value_of (snd (store_apply enc s key v)) k = (if k = key then v else value_of s k)"
  by (simp add: value_of_def store_get_apply)

lemma value_of_delete: "value_of (snd (store_delete enc s key)) k = (if k = key then Null else value_of s k)"
  by (simp add: value_of_def store_get_delete)

lemma remove_leads: "delta_leads [op_remove ''/''] v Null"
  by (simp add: delta_leads_def apply_root_ops)

text \<open>A change with its delta, seen by the author or by another connection.\<close>

lemma publish_live:
  assumes "codec_ok x ddec" and "live ddec sv h' se'"
    and "\<And>k. k \<noteq> key \<Longrightarrow> value_of st k = value_of (sv_state sv) k"
    and "delta_leads ops (value_of (sv_state sv) key) (value_of st key)"
    and "h' = h \<and> se' = se \<and> owns h se (sv_bus sv) \<or> h' \<noteq> h \<and> separate se h' (sv_bus sv)"
  shows "live ddec (deliver_own h se key (encode_delta_body (x_delta x) n ops)
           (broadcast_timed key (encode_delta_body (x_delta x) n ops) (Some (s_id se)) (sv\<lparr>sv_state := st\<rparr>))) h' se'"
  using assms(5)
proof (elim disjE conjE)
  assume "h' = h" "se' = se" "owns h se (sv_bus sv)"
  then show ?thesis
    using live_own_delivery [OF assms(1), of sv h se key st ops n] assms(2-4) by simp
next
  assume other: "h' \<noteq> h" "separate se h' (sv_bus sv)"
  have "live ddec (broadcast_timed key (encode_delta_body (x_delta x) n ops) (Some (s_id se)) (sv\<lparr>sv_state := st\<rparr>)) h' se'"
    using other(2) assms(3,4)
    by (intro live_broadcast [OF assms(1,2)]) (auto simp: separate_def audience_def)
  with other(1) show ?thesis
    by (simp add: live_deliver_other)
qed

lemma live_state:
  assumes "live ddec sv h se" and "\<And>k. value_of st k = value_of (sv_state sv) k"
  shows "live ddec (sv\<lparr>sv_state := st\<rparr>) h se"
  using assms by (simp add: live_def sync_ok_def)

lemma commit_live:
  assumes "codec_ok x ddec" and "live ddec sv h' se'" and "values_ok (sv_state sv)" and "replicable v"
    and "h' = h \<and> se' = se \<and> owns h se (sv_bus sv) \<or> h' \<noteq> h \<and> separate se h' (sv_bus sv)"
  shows "live ddec (snd (commit x h se key v sv)) h' se'"
proof -
  let ?r = "store_apply (x_log x) (sv_state sv) key v"
  have res: "fst ?r = (st_version (sv_state sv) + 1, apply_delta (sv_state sv) key v)"
    by (rule store_apply_result)
  have leads: "delta_leads (apply_delta (sv_state sv) key v) (value_of (sv_state sv) key) v"
    using apply_leads [OF assms(3,4)] .
  show ?thesis
  proof (cases "apply_delta (sv_state sv) key v = []")
    case True
    then have "value_of (sv_state sv) key = v"
      using leads by (simp add: delta_leads_def apply_ops_def)
    then have "live ddec (sv\<lparr>sv_state := snd ?r\<rparr>) h' se'"
      by (intro live_state [OF assms(2)]) (simp add: value_of_apply)
    with True res show ?thesis
      by (simp add: commit_def split_def Let_def)
  next
    case False
    then show ?thesis
      using publish_live [OF assms(1,2) _ _ assms(5), of key "snd ?r" "apply_delta (sv_state sv) key v"] leads res
      by (simp add: commit_def split_def Let_def value_of_apply)
  qed
qed

lemma drop_key_live:
  assumes "codec_ok x ddec" and "live ddec sv h' se'"
    and "h' = h \<and> se' = se \<and> owns h se (sv_bus sv) \<or> h' \<noteq> h \<and> separate se h' (sv_bus sv)"
  shows "live ddec (snd (drop_key x h se key sv)) h' se'"
proof (cases "store_get (sv_state sv) key")
  case None
  then show ?thesis
    using live_state [OF assms(2), of "sv_state sv"] by (simp add: drop_key_def store_delete_absent)
next
  case (Some e)
  let ?r = "store_delete (x_log x) (sv_state sv) key"
  have "?r = (Some (st_version (sv_state sv) + 1, [op_remove ''/'']), snd ?r)"
    using store_delete_parts(1) [OF Some] by (metis prod.collapse)
  then obtain st where r: "?r = (Some (st_version (sv_state sv) + 1, [op_remove ''/'']), st)"
    by blast
  have "value_of st k = (if k = key then Null else value_of (sv_state sv) k)" for k
    using value_of_delete [of "x_log x" "sv_state sv" key k] r by simp
  then show ?thesis
    using publish_live [OF assms(1,2) _ _ assms(3), of key st "[op_remove ''/'']"] remove_leads r
    by (simp add: drop_key_def Let_def)
qed


subsection \<open>The frame handlers\<close>

text \<open>A connection as a handler of \<open>(h, se)\<close> meets it: the handler's own, or another one's.\<close>

definition own_or_separate :: "nat \<Rightarrow> session \<Rightarrow> nat \<Rightarrow> session \<Rightarrow> fanout_bus \<Rightarrow> bool" where
  "own_or_separate h se h' se' bus \<longleftrightarrow>
     h' = h \<and> se' = se \<and> owns h se bus \<or> h' \<noteq> h \<and> separate se h' bus"

text \<open>The session of a connection after a handler of \<open>h\<close> left \<open>c\<close>.\<close>

definition after_session :: "nat \<Rightarrow> ctx \<Rightarrow> nat \<Rightarrow> session \<Rightarrow> session" where
  "after_session h c h' se' = (if h' = h then snd c else se')"

lemma live_session:
  assumes "next_stream_id se' = next_stream_id se" and "watches se' = watches se"
  shows "live ddec sv h se' = live ddec sv h se"
  using assms by (simp add: live_def feed_ok_def sub_ok_def)

lemma own_or_separate_session:
  assumes "own_or_separate h se h' se' bus" and "s_id se1 = s_id se"
  shows "own_or_separate h se1 h' (if h' = h then se1 else se') bus"
  using assms by (auto simp: own_or_separate_def owns_def separate_def)

text \<open>Any reply that is not a STATE_INIT.\<close>

lemma live_reply:
  assumes "live ddec sv h' (if h' = h then se else se')" and "frame_type f \<noteq> STATE_INIT"
  shows "live ddec (send_msg h (FrameMsg f) sv) h' (after_session h (send_msg h (FrameMsg f) sv, se\<lparr>seq_counter := n\<rparr>) h' se')"
  using assms live_send_frame [of ddec sv h se f "se\<lparr>seq_counter := n\<rparr>"] live_send_other [of h' h ddec "FrameMsg f" sv se']
  by (simp add: after_session_def split: if_splits)

lemma not_init_frames [simp]:
  "frame_type (error sid sq code msg) \<noteq> STATE_INIT" "frame_type (result_ok sid sq cid d) \<noteq> STATE_INIT"
  "frame_type heartbeat \<noteq> STATE_INIT"
  by (simp_all add: error_def result_ok_def heartbeat_def frame_type_defs)

lemma reply_error_live:
  "live ddec sv h' (if h' = h then se else se') \<Longrightarrow>
     live ddec (fst (reply_error h sid code msg (sv, se))) h' (after_session h (reply_error h sid code msg (sv, se)) h' se')"
  using live_reply [of ddec sv h' h se se' "error sid (seq_counter se + 1) code msg" "seq_counter se + 1"]
  by (simp add: reply_error_eq)

lemma reply_ok_live:
  "live ddec sv h' (if h' = h then se else se') \<Longrightarrow>
     live ddec (fst (reply_ok h sid cid v (sv, se))) h' (after_session h (reply_ok h sid cid v (sv, se)) h' se')"
  using live_reply [of ddec sv h' h se se' "result_ok sid (seq_counter se + 1) cid
      (Some (json_obj [(''version'', json_u64 v)]))" "seq_counter se + 1"]
  by (simp add: reply_ok_eq)

lemma execute_live:
  assumes codec: "codec_ok x ddec" and live: "live ddec sv h' se'" and rel: "own_or_separate h se h' se' (sv_bus sv)"
    and old: "values_ok (sv_state sv)" and new: "values_ok (sv_state (fst (execute x h sid cid p (sv, se))))"
  shows "live ddec (fst (execute x h sid cid p (sv, se))) h' (after_session h (execute x h sid cid p (sv, se)) h' se')"
proof (cases p)
  case (Refuse code msg)
  have "live ddec sv h' (if h' = h then se else se')"
    using live rel by (auto simp: own_or_separate_def)
  then show ?thesis
    using reply_error_live [of ddec sv h' h se se' sid code msg] by (simp add: execute_def Refuse)
next
  case (Store key v q)
  have "replicable v"
    using new execute_state [of x h sid cid p sv se key] by (fastforce simp: values_ok_def Store)
  then have "live ddec (snd (commit x h se key v sv)) h' se'"
    using commit_live [OF codec live old] rel by (simp add: own_or_separate_def)
  then have "live ddec (snd (commit x h se key v sv)) h' (if h' = h then (case q of None \<Rightarrow> se | Some q \<Rightarrow> add_presence key q se) else se')"
    using rel live_session [of "case q of None \<Rightarrow> se | Some q \<Rightarrow> add_presence key q se" se]
    by (auto simp: own_or_separate_def split: option.splits)
  then show ?thesis
    using reply_ok_live [of ddec "snd (commit x h se key v sv)" h' h "case q of None \<Rightarrow> se | Some q \<Rightarrow> add_presence key q se" se']
    by (simp add: execute_def Store)
next
  case (Drop key)
  have "live ddec (snd (drop_key x h se key sv)) h' (if h' = h then se else se')"
    using drop_key_live [OF codec live] rel by (auto simp: own_or_separate_def)
  then show ?thesis
    using reply_ok_live [of ddec "snd (drop_key x h se key sv)" h' h se se'] by (simp add: execute_def Drop)
qed

lemma handle_call_live:
  assumes codec: "codec_ok x ddec" and live: "live ddec sv h' se'" and rel: "own_or_separate h se h' se' (sv_bus sv)"
    and old: "values_ok (sv_state sv)" and new: "values_ok (sv_state (fst (handle_call x now h f (sv, se))))"
  shows "live ddec (fst (handle_call x now h f (sv, se))) h' (after_session h (handle_call x now h f (sv, se)) h' se')"
proof -
  obtain cid p se1 where run: "handle_call x now h f (sv, se) = execute x h (stream_id f) cid p (sv, se1)"
    and se1: "se1 = se \<or> se1 = snd (take_write_token now se)"
    using handle_call_executes [of x now h f sv se] by metis
  have "next_stream_id se1 = next_stream_id se" "watches se1 = watches se" "s_id se1 = s_id se"
    using se1 by auto
  then have "live ddec sv h' (if h' = h then se1 else se')" "own_or_separate h se1 h' (if h' = h then se1 else se') (sv_bus sv)"
    using live rel live_session [of se1 se ddec sv h] own_or_separate_session [OF rel, of se1]
    by (auto simp: own_or_separate_def)
  from execute_live [OF codec this old, of "stream_id f" cid p] new show ?thesis
    unfolding run by (simp add: after_session_def split: if_splits)
qed


text \<open>Deltas on a stream that is not open yet change no view; opening it sets the view of its key.\<close>

lemma unopened_deltas_view:
  assumes "\<And>k. (sid, k) \<notin> opened ms"
  shows "key_view k (ms @ map (\<lambda>d. PyDelta sid (fst d) (snd d)) ds) = key_view k ms"
proof -
  have "sid \<notin> fst (key_view k ms)"
    using assms by (simp add: key_view_streams)
  then have "fold (key_step k) (map (\<lambda>d. PyDelta sid (fst d) (snd d)) ds) (key_view k ms) = key_view k ms"
    by (induction ds) (simp_all add: key_step_def split_def)
  then show ?thesis
    by (simp add: key_view_append)
qed

lemma open_view:
  fixes ds :: "delta_rec list"
  assumes "\<And>k. (unat (stream_id f), k) \<notin> opened ms" and "init_of f = Some (key, n, v, i)"
  defines "ms' \<equiv> ms @ map (\<lambda>d. PyDelta (unat (stream_id f)) (fst d) (snd d)) ds @ [PyFrame f]"
  shows "opened ms' = insert (unat (stream_id f), key) (opened ms)"
    and "complete_inits ms' \<longleftrightarrow> complete_inits ms"
    and "snd (key_view k ms') = (if k = key then v else snd (key_view k ms))"
proof -
  show "opened ms' = insert (unat (stream_id f), key) (opened ms)"
    using assms(2) by (auto simp: ms'_def opened_def opens_def)
  show "complete_inits ms' \<longleftrightarrow> complete_inits ms"
    using assms(2) by (auto simp: ms'_def complete_inits_def)
  have "key_view k ms' = key_step k (PyFrame f) (key_view k (ms @ map (\<lambda>d. PyDelta (unat (stream_id f)) (fst d) (snd d)) ds))"
    by (simp add: ms'_def key_view_append)
  then show "snd (key_view k ms') = (if k = key then v else snd (key_view k ms))"
    using unopened_deltas_view [OF assms(1), of k ds] assms(2) by (simp add: key_step_def split_def)
qed

lemma live_opened:
  assumes live: "live ddec sv h se" and room: "unat (next_stream_id se) + 1 < 2 ^ 32"
    and alive: "\<not> net_dead (sv_net sv') h \<Longrightarrow> \<not> net_dead (sv_net sv) h"
    and feed: "\<not> net_dead (sv_net sv') h \<Longrightarrow> inbox_of ddec (net_carried (sv_net sv') h) =
      inbox_of ddec (net_carried (sv_net sv) h) @ map (\<lambda>d. PyDelta (unat (next_stream_id se)) (fst d) (snd d)) ds @ [PyFrame f]"
    and f: "init_of f = Some (key, n, value_of (sv_state sv) key, i)" "stream_id f = next_stream_id se"
    and bus: "sv_bus sv' = subscribe key \<lparr>sub_session = s_id se, sub_stream = next_stream_id se, sub_write = h\<rparr> (sv_bus sv)"
    and st: "sv_state sv' = sv_state sv"
    and se': "next_stream_id se' = next_stream_id se + 1" "watches se' = AList.update (next_stream_id se) w (watches se)"
    and w: "w_key w = key"
  shows "live ddec sv' h se'"
  unfolding live_def
proof
  assume a: "\<not> net_dead (sv_net sv') h"
  let ?ms = "inbox_of ddec (net_carried (sv_net sv) h)" and ?sid = "next_stream_id se"
  have old: "feed_ok ?ms se" "sub_ok (sv_bus sv) h se" "sync_ok (sv_bus sv) h ?ms (sv_state sv)"
    using live alive [OF a] by (simp_all add: live_def)
  have fresh: "(unat (stream_id f), k) \<notin> opened ?ms" for k
    using old(1) f(2) by (fastforce simp: feed_ok_def)
  note view = open_view [where ds = ds, OF fresh f(1), unfolded f(2)]
  have nxt: "unat (next_stream_id se') = Suc (unat ?sid)"
    using room unat_Suc_u32 [of ?sid] se'(1) by simp
  have "map_of (watches se) ?sid = None"
  proof (rule ccontr)
    assume "map_of (watches se) ?sid \<noteq> None"
    then obtain e where "(?sid, e) \<in> set (watches se)"
      by (auto dest: map_of_SomeD)
    then have "(unat ?sid, w_key e) \<in> opened ?ms"
      using old(1) by (force simp: feed_ok_def)
    with fresh f(2) show False
      by metis
  qed
  then have ws: "watches se' = watches se @ [(?sid, w)]"
    unfolding se'(2) by (rule update_new)
  have "feed_ok (inbox_of ddec (net_carried (sv_net sv') h)) se'"
    using old(1) fresh view(1,2) nxt ws w f(2) unfolding feed [OF a] feed_ok_def
    by (auto simp: single_valued_def less_Suc_eq)
  moreover have "sub_ok (sv_bus sv') h se'"
    using old(2) w by (auto simp: sub_ok_def bus subscribers_subscribe ws)
  moreover have "sync_ok (sv_bus sv') h (inbox_of ddec (net_carried (sv_net sv') h)) (sv_state sv')"
    using old(3) unfolding feed [OF a] sync_ok_def st view(3)
    by (auto simp: bus subscribers_subscribe)
  ultimately show "feed_ok (inbox_of ddec (net_carried (sv_net sv') h)) se' \<and> sub_ok (sv_bus sv') h se' \<and>
      sync_ok (sv_bus sv') h (inbox_of ddec (net_carried (sv_net sv') h)) (sv_state sv')"
    by blast
qed


text \<open>The common course of WATCH and RESUME for one key: a stream is opened, deltas are replayed and the value is sent.\<close>

definition open_key :: "externals \<Rightarrow> nat \<Rightarrow> string \<Rightarrow> json option \<Rightarrow> delta_rec list \<Rightarrow> ctx \<Rightarrow> ctx" where
  "open_key x h key ps ms c =
     send_state_init h key (next_stream_id (snd c)) ps (replay_missed x h (next_stream_id (snd c)) ms (snd (open_stream h key ps c)))"

lemma subscribe_key_open: "subscribe_key h key ps c = open_key x h key ps [] c"
  by (simp add: open_key_def subscribe_key_eq open_stream_eq)

lemma inbox_of_replay:
  "codec_ok x ddec \<Longrightarrow> inbox_of ddec (replay_msgs x sid sq ms) = map (\<lambda>d. PyDelta (unat sid) (fst d) (snd d)) ms"
  by (induction ms arbitrary: sq) (simp_all add: inbox_of_def map_filter_def decode_delta)

lemma init_of_init_frame:
  "\<exists>n i. init_of (init_frame sv key sid sq ps) = Some (key, n, value_of (sv_state sv) key, i)"
  "stream_id (init_frame sv key sid sq ps) = sid"
  by (auto simp: init_frame_def value_of_def init_of_state_init split: option.split)

lemma open_key_parts:
  "sv_state (fst (open_key x h key ps ms c)) = sv_state (fst c)"
  "sv_bus (fst (open_key x h key ps ms c)) =
     subscribe key \<lparr>sub_session = s_id (snd c), sub_stream = next_stream_id (snd c), sub_write = h\<rparr> (sv_bus (fst c))"
  "next_stream_id (snd (open_key x h key ps ms c)) = next_stream_id (snd c) + 1"
  "watches (snd (open_key x h key ps ms c)) =
     AList.update (next_stream_id (snd c)) \<lparr>w_key = key, last_seq = 0, w_params = ps\<rparr> (watches (snd c))"
  "s_id (snd (open_key x h key ps ms c)) = s_id (snd c)"
  by (simp_all add: open_key_def send_state_init_eq open_stream_eq replay_missed_session add_watch_def)

lemma open_key_carried:
  assumes "\<not> net_dead (sv_net (fst (open_key x h key ps ms c))) h"
  shows "\<exists>sq sq'. net_carried (sv_net (fst (open_key x h key ps ms c))) h =
           net_carried (sv_net (fst c)) h @ replay_msgs x (next_stream_id (snd c)) sq ms @
           [FrameMsg (init_frame (fst c) key (next_stream_id (snd c)) sq' ps)]"
    and "\<not> net_dead (sv_net (fst c)) h"
proof -
  let ?sid = "next_stream_id (snd c)"
  let ?c1 = "snd (open_stream h key ps c)"
  let ?c2 = "replay_missed x h ?sid ms ?c1"
  have c1: "sv_net (fst ?c1) = sv_net (fst c)" "sv_state (fst ?c1) = sv_state (fst c)"
    by (simp_all add: open_stream_eq)
  have "init_frame (fst ?c2) = init_frame (fst c)"
    by (rule init_frame_cong) (simp add: c1)
  then have net: "sv_net (fst (open_key x h key ps ms c)) =
      snd (net_send h (FrameMsg (init_frame (fst c) key ?sid (seq_counter (snd ?c2) + 1) ps)) (sv_net (fst ?c2)))"
    by (simp add: open_key_def send_state_init_eq)
  note send = carried_send [OF assms [unfolded net]]
  note rep = replay_missed_carried [OF send(2)]
  show "\<exists>sq sq'. net_carried (sv_net (fst (open_key x h key ps ms c))) h =
           net_carried (sv_net (fst c)) h @ replay_msgs x ?sid sq ms @ [FrameMsg (init_frame (fst c) key ?sid sq' ps)]"
    unfolding net send(1) conjunct1 [OF rep] by (auto simp: c1)
  show "\<not> net_dead (sv_net (fst c)) h"
    using rep c1 by simp
qed

lemma open_key_other:
  assumes "h' \<noteq> h"
  shows "net_carried (sv_net (fst (open_key x h key ps ms c))) h' = net_carried (sv_net (fst c)) h'"
    and "net_dead (sv_net (fst (open_key x h key ps ms c))) h' = net_dead (sv_net (fst c)) h'"
proof -
  have "net_carried (sv_net (fst (replay_missed x h sid ms c))) h' = net_carried (sv_net (fst c)) h' \<and>
      net_dead (sv_net (fst (replay_missed x h sid ms c))) h' = net_dead (sv_net (fst c)) h'" for sid c
    using net_sink.other [OF assms] by (induction ms arbitrary: c) (simp_all add: replay_missed_Cons)
  then show "net_carried (sv_net (fst (open_key x h key ps ms c))) h' = net_carried (sv_net (fst c)) h'"
    "net_dead (sv_net (fst (open_key x h key ps ms c))) h' = net_dead (sv_net (fst c)) h'"
    using net_sink.other [OF assms] by (simp_all add: open_key_def send_state_init_eq open_stream_eq)
qed

lemma open_key_live:
  assumes codec: "codec_ok x ddec" and live: "live ddec sv h' (if h' = h then se else se')"
    and room: "unat (next_stream_id se) + 1 < 2 ^ 32"
  shows "live ddec (fst (open_key x h key ps ms (sv, se))) h' (after_session h (open_key x h key ps ms (sv, se)) h' se')"
proof (cases "h' = h")
  case True
  let ?r = "open_key x h key ps ms (sv, se)"
  have feed: "\<exists>f n i. inbox_of ddec (net_carried (sv_net (fst ?r)) h) = inbox_of ddec (net_carried (sv_net sv) h) @
      map (\<lambda>d. PyDelta (unat (next_stream_id se)) (fst d) (snd d)) ms @ [PyFrame f] \<and>
      init_of f = Some (key, n, value_of (sv_state sv) key, i) \<and> stream_id f = next_stream_id se"
    if a: "\<not> net_dead (sv_net (fst ?r)) h"
    using open_key_carried(1) [OF a] init_of_init_frame [of sv key "next_stream_id se"] inbox_of_replay [OF codec]
    by auto
  show ?thesis
  proof (cases "net_dead (sv_net (fst ?r)) h")
    case True
    with \<open>h' = h\<close> show ?thesis
      by (simp add: live_def)
  next
    case False
    then obtain f n i where f: "inbox_of ddec (net_carried (sv_net (fst ?r)) h) = inbox_of ddec (net_carried (sv_net sv) h) @
        map (\<lambda>d. PyDelta (unat (next_stream_id se)) (fst d) (snd d)) ms @ [PyFrame f]"
        "init_of f = Some (key, n, value_of (sv_state sv) key, i)" "stream_id f = next_stream_id se"
      using feed by blast
    have "live ddec (fst ?r) h (snd ?r)"
      using live open_key_parts [of x h key ps ms "(sv, se)"] open_key_carried(2) [OF False] \<open>h' = h\<close>
      by (intro live_opened [OF _ room _ f(1-3), where w = "\<lparr>w_key = key, last_seq = 0, w_params = ps\<rparr>"]) auto
    with \<open>h' = h\<close> show ?thesis
      by (simp add: after_session_def)
  qed
next
  case False
  have "live ddec (fst (open_key x h key ps ms (sv, se))) h' se'"
  proof (rule live_neutral)
    show "live ddec sv h' se'"
      using live False by simp
    show "\<exists>ms'. inbox_of ddec (net_carried (sv_net (fst (open_key x h key ps ms (sv, se)))) h') =
        inbox_of ddec (net_carried (sv_net sv) h') @ ms' \<and> neutral ms'"
      using open_key_other(1) [OF False] by (intro exI [of _ "[]"]) (simp add: neutral_def)
  qed (use False open_key_other(2) [OF False] in \<open>auto simp: open_key_parts subscribers_subscribe\<close>)
  with False show ?thesis
    by (simp add: after_session_def)
qed


lemma after_session_pair: "after_session h (sv, se) h' se' = (if h' = h then se else se')"
  by (simp add: after_session_def)

lemma watch_keys_live:
  assumes "codec_ok x ddec"
  shows "live ddec (fst c) h' (after_session h c h' se') \<Longrightarrow> unat (next_stream_id (snd c)) + length keys < 2 ^ 32 \<Longrightarrow>
     live ddec (fst (watch_keys h ps keys c)) h' (after_session h (watch_keys h ps keys c) h' se')"
proof (induction keys arbitrary: c)
  case (Cons key keys)
  obtain sv se where c: "c = (sv, se)"
    by (cases c)
  let ?c = "if \<not> may_read sv se key then reply_error h 0 403 (''forbidden: '' @ key) (sv, se) else subscribe_key h key ps (sv, se)"
  have live: "live ddec sv h' (if h' = h then se else se')"
    using Cons.prems(1) by (simp only: c after_session_pair fst_conv)
  have room: "unat (next_stream_id se) + 1 < 2 ^ 32"
    using Cons.prems(2) by (simp add: c)
  have l: "live ddec (fst ?c) h' (after_session h ?c h' se')"
    using reply_error_live [OF live, of 0 403 "''forbidden: '' @ key"] open_key_live [OF assms live room, of key ps "[]"]
    by (simp add: subscribe_key_open [where x = x] del: append.simps)
  have "unat (next_stream_id (snd ?c)) \<le> unat (next_stream_id se) + 1"
    using unat_Suc_u32 [of "next_stream_id se"] room open_key_parts(3) [of x h key ps "[]" "(sv, se)"]
    by (simp add: subscribe_key_open [where x = x] del: append.simps)
  then have "unat (next_stream_id (snd ?c)) + length keys < 2 ^ 32"
    using Cons.prems(2) by (simp add: c)
  from Cons.IH [OF l this] show ?case
    by (simp add: c del: append.simps)
qed simp

lemma token_live:
  "live ddec sv h' (if h' = h then se else se') \<Longrightarrow>
     live ddec sv h' (if h' = h then snd (take_watch_token now se) else se')"
  using live_session [of "snd (take_watch_token now se)" se ddec sv h] by (auto split: if_splits)

definition keys_room :: "frame \<Rightarrow> session \<Rightarrow> bool" where
  "keys_room f se \<longleftrightarrow>
     unat (next_stream_id se) + 1 < 2 ^ 32 \<and>
     (case frame_keys (body f) of None \<Rightarrow> True | Some keys \<Rightarrow> unat (next_stream_id se) + length keys < 2 ^ 32)"

lemma handle_watch_live:
  assumes "codec_ok x ddec" and "live ddec sv h' (if h' = h then se else se')" and "keys_room f se"
  shows "live ddec (fst (handle_watch now h f (sv, se))) h' (after_session h (handle_watch now h f (sv, se)) h' se')"
proof -
  let ?se = "snd (take_watch_token now se)"
  have tok: "live ddec sv h' (if h' = h then ?se else se')"
    using token_live [OF assms(2)] .
  have err: "live ddec (fst (reply_error h sid code msg (sv, ?se))) h' (after_session h (reply_error h sid code msg (sv, ?se)) h' se')"
    for sid code msg
    using reply_error_live [OF tok] .
  have keys: "live ddec (fst (watch_keys h ps keys (sv, ?se))) h' (after_session h (watch_keys h ps keys (sv, ?se)) h' se')"
    if "frame_keys (body f) = Some keys" for ps keys
    using tok assms(3) that by (intro watch_keys_live [OF assms(1)]) (simp_all add: after_session_pair keys_room_def)
  show ?thesis
    using err keys by (simp add: handle_watch_def split_def Let_def split: option.split)
qed

lemma handle_resume_live:
  assumes "codec_ok x ddec" and "live ddec sv h' (if h' = h then se else se')" and "keys_room f se"
  shows "live ddec (fst (handle_resume x now h f (sv, se))) h' (after_session h (handle_resume x now h f (sv, se)) h' se')"
proof -
  let ?se = "snd (take_watch_token now se)"
  have tok: "live ddec sv h' (if h' = h then ?se else se')"
    using token_live [OF assms(2)] .
  have err: "live ddec (fst (reply_error h sid code msg (sv, ?se))) h' (after_session h (reply_error h sid code msg (sv, ?se)) h' se')"
    for sid code msg
    using reply_error_live [OF tok] .
  have op: "live ddec (fst (open_key x h key ps ms (sv, ?se))) h' (after_session h (open_key x h key ps ms (sv, ?se)) h' se')"
    for key ps ms
    using assms(3) by (intro open_key_live [OF assms(1) tok]) (simp add: keys_room_def)
  have eq: "\<exists>ms. (let (sid, c1) = open_stream h key ps (sv, ?se);
        c2 = (if since > 0 then replay_missed x h sid (deltas_since (sv_state (fst c1)) key since) c1 else c1)
        in send_state_init h key sid ps c2) = open_key x h key ps ms (sv, ?se)" for key ps since
    by (intro exI [of _ "if since > 0 then deltas_since (sv_state sv) key since else []"])
      (simp add: open_key_def open_stream_eq split_def Let_def)
  have "live ddec (fst (let (sid, c1) = open_stream h key ps (sv, ?se);
        c2 = (if since > 0 then replay_missed x h sid (deltas_since (sv_state (fst c1)) key since) c1 else c1)
        in send_state_init h key sid ps c2)) h'
      (after_session h (let (sid, c1) = open_stream h key ps (sv, ?se);
        c2 = (if since > 0 then replay_missed x h sid (deltas_since (sv_state (fst c1)) key since) c1 else c1)
        in send_state_init h key sid ps c2) h' se')" for key ps since
    using op eq [of key ps since] by metis
  then show ?thesis
    using err by (simp add: handle_resume_def split_def Let_def split: option.split)
qed


text \<open>Only the streams and keys of the watches matter.\<close>

lemma live_watched:
  assumes "next_stream_id se' = next_stream_id se"
    and "(\<lambda>w. (fst w, w_key (snd w))) ` set (watches se') = (\<lambda>w. (fst w, w_key (snd w))) ` set (watches se)"
  shows "live ddec sv h se' = live ddec sv h se"
proof -
  have f: "(\<forall>w \<in> set (watches s). (unat (fst w), w_key (snd w)) \<in> A) =
      (\<forall>p \<in> (\<lambda>w. (fst w, w_key (snd w))) ` set (watches s). (unat (fst p), snd p) \<in> A)" for s A
    by auto
  have g: "(\<exists>e. (sid, e) \<in> set (watches s) \<and> w_key e = k) = ((sid, k) \<in> (\<lambda>w. (fst w, w_key (snd w))) ` set (watches s))" for s sid k
    by force
  show ?thesis
    unfolding live_def feed_ok_def sub_ok_def f g assms ..
qed

lemma ack_live: "live ddec sv h (ack_stream sid n se) = live ddec sv h se"
proof (rule live_watched)
  show "next_stream_id (ack_stream sid n se) = next_stream_id se"
    by (simp add: ack_stream_def split: option.split)
  have "(\<lambda>w. (fst w, w_key (snd w))) ` set (AList.update sid e' m) = (\<lambda>w. (fst w, w_key (snd w))) ` set m"
    if "map_of m sid = Some e" "w_key e' = w_key e" for m :: "(u32 \<times> watch_entry) list" and e e'
    using that by (induction m) (auto split: if_splits)
  then show "(\<lambda>w. (fst w, w_key (snd w))) ` set (watches (ack_stream sid n se)) = (\<lambda>w. (fst w, w_key (snd w))) ` set (watches se)"
    by (simp add: ack_stream_def split: option.split)
qed

lemma unwatch_own_live:
  assumes live: "live ddec sv h se" and own: "owns h se (sv_bus sv)" and w: "watch_stream_id key se = Some sid"
  shows "live ddec (sv\<lparr>sv_bus := unsubscribe key (s_id se) (sv_bus sv)\<rparr>) h (snd (remove_watch sid se))"
  unfolding live_def
proof
  let ?sv = "sv\<lparr>sv_bus := unsubscribe key (s_id se) (sv_bus sv)\<rparr>" and ?se = "snd (remove_watch sid se)"
  let ?ms = "inbox_of ddec (net_carried (sv_net sv) h)"
  assume "\<not> net_dead (sv_net ?sv) h"
  then have old: "feed_ok ?ms se" "sub_ok (sv_bus sv) h se" "sync_ok (sv_bus sv) h ?ms (sv_state sv)"
    using live by (simp_all add: live_def)
  obtain e0 where e0: "(sid, e0) \<in> set (watches se)" "w_key e0 = key"
    using watch_stream_id_Some [OF w] by blast
  have "feed_ok ?ms ?se"
    using old(1) by (auto simp: feed_ok_def remove_watch_def AList.delete_eq)
  moreover have sub: "s \<in> set (subscribers (sv_bus sv) k) \<and> k \<noteq> key"
    if "s \<in> set (subscribers (sv_bus ?sv) k)" "sub_write s = h" for s k
    using that own by (auto simp: subscribers_unsubscribe owns_def split: if_splits)
  have "\<exists>e. (sub_stream s, e) \<in> set (watches ?se) \<and> w_key e = k"
    if s: "s \<in> set (subscribers (sv_bus ?sv) k)" "sub_write s = h" for s k
  proof -
    obtain e where e: "(sub_stream s, e) \<in> set (watches se)" "w_key e = k"
      using old(2) sub [OF s] s(2) by (auto simp: sub_ok_def)
    have "(unat (sub_stream s), k) \<in> opened ?ms" "(unat sid, key) \<in> opened ?ms"
      using old(1) e e0 by (force simp: feed_ok_def)+
    then have "sub_stream s \<noteq> sid"
      using old(1) sub [OF s] by (auto simp: feed_ok_def single_valued_def)
    with e show ?thesis
      by (auto simp: remove_watch_def AList.delete_eq)
  qed
  then have "sub_ok (sv_bus ?sv) h ?se"
    by (simp add: sub_ok_def)
  moreover have "sync_ok (sv_bus ?sv) h ?ms (sv_state ?sv)"
    using old(3) sub by (fastforce simp: sync_ok_def)
  ultimately show "feed_ok (inbox_of ddec (net_carried (sv_net ?sv) h)) ?se \<and> sub_ok (sv_bus ?sv) h ?se \<and>
      sync_ok (sv_bus ?sv) h (inbox_of ddec (net_carried (sv_net ?sv) h)) (sv_state ?sv)"
    by simp
qed

lemma live_fewer_subs:
  assumes "live ddec sv h se" and "\<And>k. set (subscribers bus k) \<subseteq> set (subscribers (sv_bus sv) k)"
  shows "live ddec (sv\<lparr>sv_bus := bus\<rparr>) h se"
proof (rule live_neutral [OF assms(1)])
  show "\<exists>ms'. inbox_of ddec (net_carried (sv_net (sv\<lparr>sv_bus := bus\<rparr>)) h) =
      inbox_of ddec (net_carried (sv_net sv) h) @ ms' \<and> neutral ms'"
    by (intro exI [of _ "[]"]) (simp add: neutral_def)
qed (use assms(2) in auto)

lemma unwatch_keys_live:
  "live ddec (fst c) h' (after_session h c h' se') \<Longrightarrow> owns h (snd c) (sv_bus (fst c)) \<Longrightarrow>
     live ddec (fst (unwatch_keys keys c)) h' (after_session h (unwatch_keys keys c) h' se')"
proof (induction keys c rule: unwatch_keys.induct)
  case (2 key keys sv se)
  show ?case
  proof (cases "watch_stream_id key se")
    case None
    with 2 show ?thesis
      by simp
  next
    case (Some sid)
    let ?c = "(sv\<lparr>sv_bus := unsubscribe key (s_id se) (sv_bus sv)\<rparr>, snd (remove_watch sid se))"
    have sub: "set (subscribers (unsubscribe key (s_id se) (sv_bus sv)) k) \<subseteq> set (subscribers (sv_bus sv) k)" for k
      by (auto simp: subscribers_unsubscribe)
    have "owns h (snd ?c) (sv_bus (fst ?c))"
      using "2.prems"(2) sub by (fastforce simp: owns_def remove_watch_def)
    moreover have "live ddec (fst ?c) h' (after_session h ?c h' se')"
      using "2.prems" unwatch_own_live [OF _ _ Some, of ddec sv h] live_fewer_subs [of ddec sv h' se', OF _ sub]
      by (simp add: after_session_def split: if_splits)
    ultimately show ?thesis
      using "2.IH"(2) [OF Some] Some by simp
  qed
qed simp

lemma handle_frame_live:
  assumes codec: "codec_ok x ddec" and live: "live ddec sv h' se'" and rel: "own_or_separate h se h' se' (sv_bus sv)"
    and own: "owns h se (sv_bus sv)" and room: "keys_room f se"
    and old: "values_ok (sv_state sv)" and new: "values_ok (sv_state (fst (handle_frame x now h f (sv, se))))"
  shows "live ddec (fst (handle_frame x now h f (sv, se))) h' (after_session h (handle_frame x now h f (sv, se)) h' se')"
proof -
  have here: "live ddec sv h' (if h' = h then se else se')"
    using live rel by (auto simp: own_or_separate_def)
  consider (watch) "frame_type f = WATCH" | (resume) "frame_type f = RESUME" | (unwatch) "frame_type f = UNWATCH"
    | (call) "frame_type f = CALL" | (ack) "frame_type f = ACK" | (heartbeat) "frame_type f = HEARTBEAT"
    | (other) "frame_type f \<notin> {WATCH, RESUME, UNWATCH, CALL, ACK, HEARTBEAT}"
    by blast
  then show ?thesis
  proof cases
    case watch
    then show ?thesis
      using handle_watch_live [OF codec here room] by (simp add: handle_frame_def)
  next
    case resume
    then show ?thesis
      using handle_resume_live [OF codec here room] by (simp add: handle_frame_def frame_type_defs)
  next
    case unwatch
    then show ?thesis
      using unwatch_keys_live [of ddec "(sv, se)" h' h se'] here own
      by (simp add: handle_frame_def frame_type_defs handle_unwatch_def after_session_pair split: option.split)
  next
    case call
    then have "handle_frame x now h f (sv, se) = handle_call x now h f (sv, se)"
      by (simp add: handle_frame_def frame_type_defs)
    then show ?thesis
      using handle_call_live [OF codec live rel old] new by simp
  next
    case ack
    then show ?thesis
      using here by (simp add: handle_frame_def frame_type_defs after_session_pair ack_live split: if_splits)
  next
    case heartbeat
    then show ?thesis
      using here live_send_frame [OF _ not_init_frames(3) refl refl, of ddec sv h se] live_send_other [of h' h ddec _ sv se']
      by (simp add: handle_frame_def frame_type_defs after_session_pair split: if_splits)
  next
    case other
    then show ?thesis
      using here by (simp add: handle_frame_def after_session_pair)
  qed
qed


subsection \<open>The end of a connection\<close>

lemma slash_free_remove_in: "slash_free j \<Longrightarrow> slash_free (remove_in_recursive j ks)"
proof (induction j ks rule: remove_in_recursive.induct)
  case (2 node k rest)
  show ?case
  proof (cases node)
    case (Object m)
    have rem: "slash_free (Object (bt_remove k m))"
      using "2.prems" Object set_bt_remove_subset [of k m] by auto
    show ?thesis
    proof (cases "map_of m k")
      case None
      with rem Object show ?thesis
        by simp
    next
      case (Some child)
      then have child: "slash_free child" "CHR ''/'' \<notin> set k"
        using "2.prems" Object by (auto dest!: map_of_SomeD)
      show ?thesis
      proof (cases "rest = []")
        case False
        then have "slash_free (remove_in_recursive child rest)"
          using "2.IH" Object Some child by simp
        then show ?thesis
          using False Object Some rem child(2) set_bt_insert_subset [of k "remove_in_recursive child rest" "bt_remove k m"]
          by auto
      qed (use rem Object in simp)
    qed
  qed (use "2.prems" in simp_all)
qed simp

lemma root_keys_remove_in: "root_keys_ok j \<Longrightarrow> root_keys_ok (remove_in_recursive j ks)"
proof (cases ks)
  case (Cons k rest)
  assume ok: "root_keys_ok j"
  show ?thesis
  proof (cases j)
    case (Object m)
    then show ?thesis
      using ok Cons map_of_SomeD [of m k] by (force split: option.splits simp: image_iff)
  qed (use Cons in simp_all)
qed simp

lemma replicable_remove: "replicable v \<Longrightarrow> replicable (json_remove_in v p)"
  by (simp add: replicable_def json_ok_json_remove_in)
    (simp add: json_remove_in_def slash_free_remove_in root_keys_remove_in)

lemma values_ok_apply: "values_ok s \<Longrightarrow> replicable v \<Longrightarrow> values_ok (snd (store_apply enc s key v))"
  by (simp add: values_ok_def store_get_apply)

lemma presence_cleanup_live:
  assumes "codec_ok x ddec"
  shows "live ddec sv h se \<Longrightarrow> values_ok (sv_state sv) \<Longrightarrow> live ddec (presence_cleanup x ps sv) h se"
proof (induction ps arbitrary: sv)
  case (Cons p ps)
  show ?case
  proof (cases "store_get (sv_state sv) (p_key p)")
    case None
    with Cons show ?thesis
      by simp
  next
    case (Some e)
    let ?v = "json_remove_in (e_value e) (p_path p)"
    let ?r = "store_apply (x_log x) (sv_state sv) (p_key p) ?v"
    let ?ops = "apply_delta (sv_state sv) (p_key p) ?v" and ?n = "st_version (sv_state sv) + 1"
    let ?b = "encode_delta_body (x_delta x) ?n ?ops"
    let ?sv = "if ?ops = [] then sv\<lparr>sv_state := snd ?r\<rparr>
      else cluster_sync x (p_key p) ?n ?v ?b (broadcast_timed (p_key p) ?b None (sv\<lparr>sv_state := snd ?r\<rparr>))"
    have rep: "replicable ?v"
      using Cons.prems(2) Some by (intro replicable_remove) (simp add: values_ok_def)
    have leads: "delta_leads ?ops (value_of (sv_state sv) (p_key p)) ?v"
      using apply_leads [OF Cons.prems(2) rep] .
    have run: "presence_cleanup x (p # ps) sv = presence_cleanup x ps ?sv"
      using Some store_apply_result [of "x_log x" "sv_state sv" "p_key p" ?v] by (simp add: split_def Let_def)
    have "live ddec ?sv h se"
    proof (cases "?ops = []")
      case True
      then have "value_of (sv_state sv) (p_key p) = ?v"
        using leads by (simp add: delta_leads_def apply_ops_def)
      then have "live ddec (sv\<lparr>sv_state := snd ?r\<rparr>) h se"
        by (intro live_state [OF Cons.prems(1)]) (simp add: value_of_apply)
      with True show ?thesis
        by simp
    next
      case False
      have "live ddec (broadcast_timed (p_key p) ?b None (sv\<lparr>sv_state := snd ?r\<rparr>)) h se"
        using leads by (intro live_broadcast [OF assms Cons.prems(1)]) (simp_all add: audience_def value_of_apply)
      with False show ?thesis
        by simp
    qed
    moreover have "values_ok (sv_state ?sv)"
      using values_ok_apply [OF Cons.prems(2) rep] by simp
    ultimately show ?thesis
      unfolding run by (rule Cons.IH)
  qed
qed simp

lemma end_connection_live:
  assumes "codec_ok x ddec" and "live ddec sv h se" and "values_ok (sv_state sv)"
  shows "live ddec (finish_conn (end_connection x se0 sv)) h se"
proof -
  let ?sv = "presence_cleanup x (presence se0) sv"
  have "live ddec (?sv\<lparr>sv_bus := remove_session (s_id se0) (sv_bus ?sv)\<rparr>) h se"
    by (intro live_fewer_subs presence_cleanup_live [OF assms]) (auto simp: subscribers_remove_session)
  then show ?thesis
    by (simp add: end_connection_def Let_def live_def)
qed


subsection \<open>The whole system\<close>

text \<open>A decoded frame names no more keys than it has bytes: every element of a MessagePack array takes at least one.\<close>

definition keys_fit :: "externals \<Rightarrow> bool" where
  "keys_fit x \<longleftrightarrow>
     (\<forall>bs f keys. x_fdec x bs = Some f \<longrightarrow> frame_keys (body f) = Some keys \<longrightarrow> length keys \<le> length bs)"

text \<open>Every session has stream numbers left for the largest frame.\<close>

definition room :: "system \<Rightarrow> bool" where
  "room s \<longleftrightarrow>
     (\<forall>h cn. map_of (sy_conns s) h = Some cn \<longrightarrow>
        unat (next_stream_id (cn_session cn)) + sv_max_frame_bytes (sy_server s) + 1 < 2 ^ 32)"

text \<open>Steps of a single node that store replicable values and do not run out of stream numbers.\<close>

definition calm_step :: "externals \<Rightarrow> system \<Rightarrow> system \<Rightarrow> bool" where
  "calm_step x s s' \<longleftrightarrow> sys_step x s s' \<and> room s \<and> values_ok (sv_state (sy_server s'))"

definition all_live :: "delta_decoder \<Rightarrow> system \<Rightarrow> bool" where
  "all_live ddec s \<longleftrightarrow> (\<forall>h cn. map_of (sy_conns s) h = Some cn \<longrightarrow> live ddec (sy_server s) h (cn_session cn))"

definition sync_inv :: "externals \<Rightarrow> delta_decoder \<Rightarrow> system \<Rightarrow> bool" where
  "sync_inv x ddec s \<longleftrightarrow>
     sys_ok x s \<and> all_live ddec s \<and> values_ok (sv_state (sy_server s)) \<and> sv_cluster (sy_server s) = None"

lemma sys_ok_owns:
  assumes "sys_ok x s" and "map_of (sy_conns s) h = Some cn"
  shows "owns h (cn_session cn) (sv_bus (sy_server s))"
  using assms by (fastforce simp: sys_ok_def subs_ok_def owns_def)

lemma sys_ok_separate:
  assumes "sys_ok x s" and "map_of (sy_conns s) h = Some cn" and "map_of (sy_conns s) h' = Some cn'"
  shows "own_or_separate h (cn_session cn) h' (cn_session cn') (sv_bus (sy_server s))"
proof (cases "h' = h")
  case True
  with assms show ?thesis
    using sys_ok_owns [OF assms(1,2)] by (simp add: own_or_separate_def)
next
  case False
  have "s_id (cn_session cn') \<noteq> s_id (cn_session cn)"
    using assms False unfolding sys_ok_def conns_ok_def by metis
  moreover have "sub_session sb = s_id (cn_session cn')"
    if "sb \<in> set (subscribers (sv_bus (sy_server s)) k)" "sub_write sb = h'" for sb k
    using sys_ok_owns [OF assms(1,3)] that by (simp add: owns_def)
  ultimately show ?thesis
    using False by (auto simp: own_or_separate_def separate_def)
qed

lemma plain_change_live:
  assumes "plain_change (sv, cn) (sv', cn')" and "live ddec sv h' se'"
  shows "live ddec sv' h' se'"
proof -
  consider "sv' = sv" | m where "control m" "sv' = send_msg (cn_handle cn) m sv"
    using assms(1) by (auto simp: plain_change_def)
  then show ?thesis
  proof cases
    case 2
    show ?thesis
    proof (cases "h' = cn_handle cn")
      case True
      show ?thesis
      proof (cases m)
        case (FrameMsg f)
        then have "frame_type f \<noteq> STATE_INIT"
          using 2(1) by (simp add: control_def frame_type_defs)
        with FrameMsg 2(2) True assms(2) show ?thesis
          by (simp add: live_send_frame)
      qed (use 2 True assms(2) live_send_control in \<open>auto simp: control_def\<close>)
    next
      case False
      with 2 assms(2) show ?thesis
        by (simp add: live_send_other)
    qed
  qed (use assms(2) in simp)
qed

lemma on_event_stops:
  "\<not> fst (on_event x nanos ev c) \<Longrightarrow> plain_change c (snd (on_event x nanos ev c))"
  by (cases c) (auto simp: on_event_def on_message_def plain_changeI split_def Let_def
      split: conn_event.splits recv.splits ws_msg.splits option.splits if_splits)

lemma event_live:
  assumes codec: "codec_ok x ddec" and fit: "keys_fit x" and inv: "sync_inv x ddec s" and room: "room s"
    and cn: "map_of (sy_conns s) hid = Some cn" and ev: "on_event x nanos ev (sy_server s, cn) = (go, sv, cn')"
    and new: "values_ok (sv_state sv)"
  shows "all_live ddec (s\<lparr>sy_server := sv, sy_conns := AList.update hid cn' (sy_conns s)\<rparr>)"
  unfolding all_live_def
proof (intro allI impI)
  fix h c
  assume "map_of (sy_conns (s\<lparr>sy_server := sv, sy_conns := AList.update hid cn' (sy_conns s)\<rparr>)) h = Some c"
  then obtain c0 where c0: "map_of (sy_conns s) h = Some c0" "c = (if h = hid then cn' else c0)"
    using cn by (auto simp: update_conv' split: if_splits)
  have ok: "sys_ok x s" and live: "live ddec (sy_server s) h (cn_session c0)" and old: "values_ok (sv_state (sy_server s))"
    using inv c0(1) by (auto simp: sync_inv_def all_live_def)
  have hd: "cn_handle cn = hid"
    using ok cn by (auto simp: sys_ok_def conns_ok_def conn_ok_def)
  consider (plain) "plain_change (sy_server s, cn) (sv, cn')"
    | (frame) bs f where "x_fdec x bs = Some f" "length bs \<le> sv_max_frame_bytes (sy_server s)" "frame_change x nanos f (sy_server s, cn) (sv, cn')"
    using on_event_change [of "(sy_server s, cn)" x nanos ev] ev by force
  then have "live ddec sv h (cn_session c)"
  proof cases
    case plain
    have "cn_session c = cn_session c0"
      using plain c0 cn by (auto simp: plain_change_def split: if_splits)
    with plain_change_live [OF plain live] show ?thesis
      by simp
  next
    case (frame bs f)
    let ?r = "handle_frame x nanos hid f (sy_server s, cn_session cn)"
    have r: "sv = fst ?r" "cn_session cn' = snd ?r"
      using frame(3) hd by (simp_all add: frame_change_def)
    have "keys_room f (cn_session cn)"
      using room cn frame(1,2) fit unfolding room_def keys_fit_def keys_room_def by (fastforce split: option.splits)
    then have "live ddec (fst ?r) h (after_session hid ?r h (cn_session c0))"
      using new r(1) by (intro handle_frame_live [OF codec live sys_ok_separate [OF ok cn c0(1)] sys_ok_owns [OF ok cn] _ old]) simp_all
    moreover have "after_session hid ?r h (cn_session c0) = cn_session c"
      using c0(2) r(2) by (simp add: after_session_def)
    ultimately show ?thesis
      using r(1) by simp
  qed
  then show "live ddec (sy_server (s\<lparr>sy_server := sv, sy_conns := AList.update hid cn' (sy_conns s)\<rparr>)) h (cn_session c)"
    by simp
qed

lemma start_connection_net:
  assumes "start_connection x up nanos now uuid hid inbox sv = (Inr (sv', cn), out, rest)"
  shows "sv_net sv' = (sv_net sv)\<lparr>net_handles := AList.update hid (make_handle (sv_write_mode sv) (sv_backpressure_limit sv))
           (net_handles (sv_net sv))\<rparr>"
  using assms by (cases rule: start_connection_cases) (use new_conn_parts in fastforce)+

lemma start_live:
  assumes inv: "sync_inv x ddec s" and new: "hid \<notin> fst ` set (sy_conns s)"
    and start: "start_connection x up nanos now uuid hid inbox (sy_server s) = (Inr (sv, cn), out, rest)"
  shows "all_live ddec (s\<lparr>sy_server := sv, sy_conns := (hid, cn) # sy_conns s, sy_waiting := n\<rparr>)"
  unfolding all_live_def
proof (intro allI impI)
  fix h c
  assume "map_of (sy_conns (s\<lparr>sy_server := sv, sy_conns := (hid, cn) # sy_conns s, sy_waiting := n\<rparr>)) h = Some c"
  then consider (here) "h = hid" "c = cn" | (old) "h \<noteq> hid" "map_of (sy_conns s) h = Some c"
    by (auto split: if_splits)
  then have "live ddec sv h (cn_session c)"
  proof cases
    case here
    have mh: "messages (make_handle m b) = []" for m b
      by (simp add: make_handle_def messages_def new_task_def new_handle_def split: write_mode.split)
    have "net_carried (sv_net sv) hid = []"
      by (simp add: start_connection_net [OF start] net_carried_def update_conv' mh)
    moreover have "sub_write sb \<noteq> hid" if "sb \<in> set (subscribers (sv_bus sv) k)" for sb k
      using that inv new start_connection_keeps [OF start] unfolding sync_inv_def sys_ok_def subs_ok_def
      by (metis domI dom_map_of_conv_image_fst)
    moreover have "watches (cn_session cn) = []"
      using start_connection_keeps [OF start] by blast
    ultimately show ?thesis
      using here by (auto simp: live_def feed_ok_def sub_ok_def sync_ok_def complete_inits_def)
  next
    case old
    then have "live ddec (sy_server s) h (cn_session c)"
      using inv by (simp add: sync_inv_def all_live_def)
    moreover have "net_carried (sv_net sv) h = net_carried (sv_net (sy_server s)) h" "net_dead (sv_net sv) h = net_dead (sv_net (sy_server s)) h"
      using old(1) by (simp_all add: start_connection_net [OF start] net_carried_def net_dead_def update_conv')
    ultimately show ?thesis
      using start_connection_keeps [OF start] live_same [of sv h "sy_server s"] by blast
  qed
  then show "live ddec (sy_server (s\<lparr>sy_server := sv, sy_conns := (hid, cn) # sy_conns s, sy_waiting := n\<rparr>)) h (cn_session c)"
    by simp
qed


lemma writer_net:
  assumes "map_of (net_handles (sv_net sv)) hid = Some w" and "w' = taken n w \<or> w' = w\<lparr>h_closed := True\<rparr>"
  shows "net_carried (sv_net (set_handle hid w' sv)) h = net_carried (sv_net sv) h"
    and "net_dead (sv_net (set_handle hid w' sv)) h = net_dead (sv_net sv) h"
proof -
  have "messages w' = messages w" "h_cancel w' = h_cancel w"
    using assms(2) by (auto simp: messages_def taken_def)
  then show "net_carried (sv_net (set_handle hid w' sv)) h = net_carried (sv_net sv) h"
    "net_dead (sv_net (set_handle hid w' sv)) h = net_dead (sv_net sv) h"
    using assms(1) by (simp_all add: set_handle_def net_carried_def net_dead_def update_conv')
qed

lemma all_live_server:
  assumes "all_live ddec s" and "\<And>h. net_carried (sv_net sv) h = net_carried (sv_net (sy_server s)) h"
    and "\<And>h. net_dead (sv_net sv) h = net_dead (sv_net (sy_server s)) h"
    and "sv_bus sv = sv_bus (sy_server s)" and "sv_state sv = sv_state (sy_server s)"
  shows "all_live ddec (s\<lparr>sy_server := sv, sy_waiting := n\<rparr>)" and "all_live ddec (s\<lparr>sy_server := sv\<rparr>)"
  using assms live_same [of sv _ "sy_server s"] by (simp_all add: all_live_def)

lemma close_live:
  assumes codec: "codec_ok x ddec" and inv: "sync_inv x ddec s" and cn: "map_of (sy_conns s) hid = Some cn"
    and ev: "on_event x nanos ev (sy_server s, cn) = (False, sv, cn')"
  shows "all_live ddec (s\<lparr>sy_server := finish_conn (end_connection x (cn_session cn') sv), sy_conns := AList.delete hid (sy_conns s)\<rparr>)"
proof -
  have plain: "plain_change (sy_server s, cn) (sv, cn')"
    using on_event_stops [of x nanos ev "(sy_server s, cn)"] ev by simp
  have vals: "values_ok (sv_state sv)"
    using plain_change_parts [OF plain] inv by (simp add: sync_inv_def)
  have "live ddec (finish_conn (end_connection x (cn_session cn') sv)) h (cn_session c)"
    if "map_of (sy_conns s) h = Some c" for h c
  proof -
    have "live ddec (sy_server s) h (cn_session c)"
      using that inv by (simp add: sync_inv_def all_live_def)
    from end_connection_live [OF codec plain_change_live [OF plain this] vals] show ?thesis .
  qed
  then show ?thesis
    by (auto simp: all_live_def delete_conv' split: if_splits)
qed

lemma sys_step_cluster:
  assumes "sys_step x s s'"
  shows "sv_cluster (sy_server s') = sv_cluster (sy_server s)"
  using assms
proof (cases rule: sys_step.cases)
  case (Accept sv)
  with accept_conn_Some [OF Accept(2)] show ?thesis
    by simp
next
  case (Start uuid hid up nanos now inbox sv cn out rest)
  then show ?thesis
    using start_connection_keeps [OF Start(6)] config_parts(6) [of sv "sy_server s"] by simp
next
  case (Event hid cn now ev nanos sv cn')
  then show ?thesis
    using on_event_keeps [OF Event(4)] config_parts(6) [of sv "sy_server s"] by simp
next
  case (Close hid cn now ev nanos sv cn')
  have "config (end_connection x (cn_session cn') sv) = config (sy_server s)"
    using on_event_keeps [OF Close(4)] by (simp add: end_connection_config)
  from config_parts(6) [OF this] Close(1) show ?thesis
    by (simp add: finish_conn_def)
next
  case (Write hid h h' n)
  then show ?thesis
    by (simp add: set_handle_def)
qed (simp_all add: finish_conn_def)

lemma sync_step:
  assumes codec: "codec_ok x ddec" and fit: "keys_fit x" and inv: "sync_inv x ddec s" and step: "calm_step x s s'"
  shows "sync_inv x ddec s'"
proof -
  have st: "sys_step x s s'" and room: "room s" and new: "values_ok (sv_state (sy_server s'))"
    using step by (simp_all add: calm_step_def)
  have live: "all_live ddec s"
    using inv by (simp add: sync_inv_def)
  have "all_live ddec s'"
    using st
  proof (cases rule: sys_step.cases)
    case (Accept sv)
    with accept_conn_Some [OF Accept(2)] all_live_server(1) [OF live, of sv "sy_waiting s + 1"] show ?thesis
      by simp
  next
    case Abandon
    with all_live_server(1) [OF live, of "finish_conn (sy_server s)"] show ?thesis
      by simp
  next
    case (Start uuid hid up nanos now inbox sv cn out rest)
    with start_live [OF inv Start(5,6)] show ?thesis
      by simp
  next
    case (Event hid cn now ev nanos sv cn')
    with event_live [OF codec fit inv room Event(2,4)] new show ?thesis
      by simp
  next
    case (Close hid cn now ev nanos sv cn')
    with close_live [OF codec inv Close(2,4)] show ?thesis
      by simp
  next
    case (Peer cl channel payload bus net)
    with inv show ?thesis
      by (simp add: sync_inv_def)
  next
    case (Write hid h h' n)
    have "sv_bus (set_handle hid h' (sy_server s)) = sv_bus (sy_server s)" "sv_state (set_handle hid h' (sy_server s)) = sv_state (sy_server s)"
      by (simp_all add: set_handle_def)
    with Write(1) all_live_server(2) [OF live, of "set_handle hid h' (sy_server s)"] writer_net [OF Write(2,3)] show ?thesis
      by simp
  qed
  then show ?thesis
    using inv sys_ok_step [OF _ st] sys_step_cluster [OF st] new by (simp add: sync_inv_def)
qed

text \<open>The invariant as a property of runs; the two facts on the codecs are conditions of the step.\<close>

interpretation replicas: inv_relation "\<lambda>s s'. codec_ok x ddec \<and> keys_fit x \<and> calm_step x s s'" "sync_inv x ddec"
  by unfold_locales (blast intro: sync_step)

lemma sync_run:
  assumes "codec_ok x ddec" and "keys_fit x" and "(calm_step x)\<^sup>*\<^sup>* s s'" and "sync_inv x ddec s"
  shows "sync_inv x ddec s'"
proof -
  have "(\<lambda>s s'. codec_ok x ddec \<and> keys_fit x \<and> calm_step x s s')\<^sup>*\<^sup>* s s'"
    using assms(3) by (rule rtranclp_mono [THEN predicate2D, rotated]) (auto simp: assms(1,2))
  from replicas.reach_inv [OF this assms(4)] show ?thesis .
qed

lemma sync_init:
  assumes "sv_bus sv = bus_new" and "sv_connections sv = 0" and "sv_cluster sv = None" and "values_ok (sv_state sv)"
  shows "sync_inv x ddec (sys_init sv)"
  using assms sys_ok_init [OF assms(1,2)] by (simp add: sync_inv_def all_live_def sys_init_def)

subsection \<open>Properties\<close>

text \<open>
  C1. Replicas converge when frames are handled one at a time. On a single node, without Redis, from a server without
  subscriptions and connections, take any interleaving of accepts, handshakes, frames of any sessions, timers, disconnects with their
  presence clean-up and writer steps, where each of these runs to its end before the next begins (between the accesses of two
  handlers the statement can fail, as \<open>Server_Races\<close> shows). Let only well-formed values
  without slashes in their keys and without an empty key at the root be stored, let no session run out of stream numbers, and let
  the encoding of deltas be faithful. If in the reached state the server has a subscription of a key on the handle of a running
  connection and that handle did not overflow, then a client of that connection that watches the key and has processed
  every message put on the handle, in order, holds exactly the value the server stores under the key (null if there is
  none). This covers changes of other sessions, of the client's own session, keys watched more than once,
  resumed subscriptions and the clean-up of other sessions.
\<close>

theorem replica_converges:
  assumes "codec_ok x ddec" and "keys_fit x"
    and "sv_bus sv = bus_new" and "sv_connections sv = 0" and "sv_cluster sv = None" and "values_ok (sv_state sv)"
    and "(calm_step x)\<^sup>*\<^sup>* (sys_init sv) s"
    and "sub \<in> set (subscribers (sv_bus (sy_server s)) key)" and "\<not> net_dead (sv_net (sy_server s)) (sub_write sub)"
    and "key \<noteq> []" and "is_watching key c" and "pc_streams c = []"
  shows "client_get key (client_frames (inbox_of ddec (net_carried (sv_net (sy_server s)) (sub_write sub))) c) =
           value_of (sv_state (sy_server s)) key"
proof -
  let ?ms = "inbox_of ddec (net_carried (sv_net (sy_server s)) (sub_write sub))"
  have inv: "sync_inv x ddec s"
    using sync_run [OF assms(1,2,7) sync_init [OF assms(3-6)]] .
  obtain cn where cn: "map_of (sy_conns s) (sub_write sub) = Some cn"
    using inv assms(8) unfolding sync_inv_def sys_ok_def subs_ok_def by blast
  then have ok: "feed_ok ?ms (cn_session cn)" "sub_ok (sv_bus (sy_server s)) (sub_write sub) (cn_session cn)"
      "sync_ok (sv_bus (sy_server s)) (sub_write sub) ?ms (sv_state (sy_server s))"
    using inv assms(9) by (auto simp: sync_inv_def all_live_def live_def)
  obtain e where "(sub_stream sub, e) \<in> set (watches (cn_session cn))" "w_key e = key"
    using ok(2) assms(8) by (auto simp: sub_ok_def)
  then have "(unat (sub_stream sub), key) \<in> opened ?ms"
    using ok(1) by (force simp: feed_ok_def)
  then have "fst (key_view key ?ms) \<noteq> {}"
    by (auto simp: key_view_streams)
  moreover have "follows key ?ms (client_frames ?ms c)"
    using ok(1) by (intro client_follows assms(10-12)) (simp_all add: feed_ok_def)
  ultimately have "client_get key (client_frames ?ms c) = snd (key_view key ?ms)"
    by (simp add: follows_def)
  also have "\<dots> = value_of (sv_state (sy_server s)) key"
    using ok(3) assms(8) by (auto simp: sync_ok_def)
  finally show ?thesis .
qed


subsection \<open>Witness\<close>

text \<open>A faithful encoding of deltas exists: the type is countable.\<close>

instance number :: countable
  by countable_datatype

instance json :: countable
  by countable_datatype

instance delta_op_kind :: countable
  by countable_datatype

definition op_tuple :: "delta_op \<Rightarrow> delta_op_kind \<times> string \<times> json option" where
  "op_tuple d = (d_op d, d_path d, d_value d)"

definition tuple_op :: "delta_op_kind \<times> string \<times> json option \<Rightarrow> delta_op" where
  "tuple_op t = \<lparr>d_op = fst t, d_path = fst (snd t), d_value = snd (snd t)\<rparr>"

lemma tuple_op_inverse: "map tuple_op (map op_tuple ops) = ops"
  by (induction ops) (simp_all add: tuple_op_def op_tuple_def)

definition sync_ext :: externals where
  "sync_ext = watch_ext\<lparr>x_delta := (\<lambda>v ops. Some (replicate (to_nat (v, map op_tuple ops)) 0))\<rparr>"

definition sync_dec :: delta_decoder where
  "sync_dec b = (let (v, ts) = from_nat (length b) in Some (v, map tuple_op ts))"

lemma sync_codec: "codec_ok sync_ext sync_dec"
  unfolding codec_ok_def
proof (intro allI)
  fix v :: u64 and ops :: "delta_op list"
  have "sync_dec (replicate (to_nat (v, map op_tuple ops)) 0) = Some (v, ops)"
    using tuple_op_inverse [of ops] by (simp add: sync_dec_def)
  then show "\<exists>b. x_delta sync_ext v ops = Some b \<and> sync_dec b = Some (v, ops)"
    by (simp add: sync_ext_def)
qed

lemma sync_keys_fit: "keys_fit sync_ext"
  by (auto simp: keys_fit_def sync_ext_def watch_ext_def auth_ext_def watch_frame_def heartbeat_def frame_keys_def get_array_def
      get_str_def map_filter_def split: if_splits)

definition sync_server :: server where
  "sync_server = quiet_server\<lparr>sv_state := snd (store_apply (\<lambda>_. None) store_new ''k'' (Bool True))\<rparr>"

lemma sync_server_values: "values_ok (sv_state sync_server)"
  by (simp add: sync_server_def values_ok_def store_get_apply replicable_def) (simp add: store_get_def store_new_def)


text \<open>A run: a connection is accepted, authenticates and watches a key that has a value.\<close>

lemma sync_demo_run:
  "\<exists>s sub. (calm_step sync_ext)\<^sup>*\<^sup>* (sys_init sync_server) s \<and> sub \<in> set (subscribers (sv_bus (sy_server s)) ''k'') \<and>
       \<not> net_dead (sv_net (sy_server s)) (sub_write sub) \<and> value_of (sv_state (sy_server s)) ''k'' = Bool True"
proof -
  let ?sv1 = "sync_server\<lparr>sv_connections := 1\<rparr>"
  let ?r = "start_connection sync_ext (\<lambda>_ _. True) 0 0 ''a'' 5 [(4, Got (WsBinary [7]))] ?sv1"
  let ?sv2 = "fst (projr (fst ?r))" and ?cn2 = "snd (projr (fst ?r))"
  let ?e = "on_event sync_ext 0 (Inbound (Got (WsBinary [8]))) (?sv2, ?cn2)"
  let ?sub = "\<lparr>sub_session = ''a'', sub_stream = 10, sub_write = 5\<rparr>"
  have ran: "\<not> isl (fst ?r)" "fst ?e"
    by code_simp+
  have "accept_conn sync_server = Some ?sv1" "5 \<notin> fst ` set (net_handles (sv_net ?sv1))"
    by (simp_all add: accept_conn_def sync_server_def quiet_server_def demo_server_def)
  note run = first_steps [OF this unpack_right [OF ran(1)] unpack_true [OF ran(2)]]
  have st2: "sv_state ?sv2 = sv_state sync_server"
    using start_connection_keeps [OF unpack_right [OF ran(1)]] by simp
  have st3: "sv_state (fst (snd ?e)) = sv_state sync_server"
    and fit: "next_stream_id (cn_session ?cn2) = 10" "sv_max_frame_bytes ?sv2 = 64"
    and sub: "?sub \<in> set (subscribers (sv_bus (fst (snd ?e))) ''k'')" "\<not> net_dead (sv_net (fst (snd ?e))) (sub_write ?sub)"
    by code_simp+
  have "calm_step sync_ext (sys_init sync_server) \<lparr>sy_server = ?sv1, sy_conns = [], sy_waiting = 1\<rparr>"
    "calm_step sync_ext \<lparr>sy_server = ?sv1, sy_conns = [], sy_waiting = 1\<rparr> \<lparr>sy_server = ?sv2, sy_conns = [(5, ?cn2)], sy_waiting = 0\<rparr>"
    "calm_step sync_ext \<lparr>sy_server = ?sv2, sy_conns = [(5, ?cn2)], sy_waiting = 0\<rparr>
       \<lparr>sy_server = fst (snd ?e), sy_conns = [(5, snd (snd ?e))], sy_waiting = 0\<rparr>"
    using run sync_server_values st2 st3 fit by (simp_all add: calm_step_def room_def sys_init_def)
  from three_steps [where r = "calm_step sync_ext", OF this] sub show ?thesis
    using st3 by (intro exI conjI) (assumption | simp add: sync_server_def value_of_def store_get_apply)+
qed

lemma sync_server_fresh:
  "sv_bus sync_server = bus_new" "sv_connections sync_server = 0" "sv_cluster sync_server = None"
  by (simp_all add: sync_server_def quiet_server_def demo_server_def)

theorem replica_converges_witness:
  "\<exists>s h. (calm_step sync_ext)\<^sup>*\<^sup>* (sys_init sync_server) s \<and>
     client_get ''k'' (client_frames (inbox_of sync_dec (net_carried (sv_net (sy_server s)) h)) (watch ''k'' 0 None (client_new None)))
       = Bool True"
proof -
  obtain s sub where s: "(calm_step sync_ext)\<^sup>*\<^sup>* (sys_init sync_server) s" "sub \<in> set (subscribers (sv_bus (sy_server s)) ''k'')"
      "\<not> net_dead (sv_net (sy_server s)) (sub_write sub)" "value_of (sv_state (sy_server s)) ''k'' = Bool True"
    using sync_demo_run by blast
  have c: "is_watching ''k'' (watch ''k'' 0 None (client_new None))" "pc_streams (watch ''k'' 0 None (client_new None)) = []"
    by (simp_all add: watch_def enter_callback_def client_new_def new_watch_def is_watching_def Let_def)
  have "''k'' \<noteq> []"
    by simp
  from replica_converges [OF sync_codec sync_keys_fit sync_server_fresh sync_server_values s(1-3) this c] s(1,4)
  show ?thesis
    by auto
qed


end
