(* ===== verification/Server_Writes.thy ===== *)
theory Server_Writes
  imports Server_System
begin

section \<open>Who writes what\<close>

text \<open>
  Every change the running server makes to its store is a sequence of the store's own mutations, and each of them is made
  for a running connection that may write the key: by a frame it sent, or by the clean-up of presence
  paths it had bound earlier. The second needs an invariant, since the clean-up itself checks nothing: a session
  only ever bound paths of keys it may write, and neither its claims nor the access-control list change.
\<close>

definition authored :: "server \<Rightarrow> session \<Rightarrow> encoder \<Rightarrow> state_store \<Rightarrow> state_store \<Rightarrow> bool" where
  "authored sv se enc st st' \<longleftrightarrow> (\<exists>ms. (\<forall>m \<in> set ms. may_write sv se (mutation_key m)) \<and> st' = foldl (mutate enc) st ms)"

lemma authored_refl: "authored sv se enc st st"
  unfolding authored_def by (rule exI [of _ "[]"]) simp

lemma authored_one: "may_write sv se (mutation_key m) \<Longrightarrow> authored sv se enc st (mutate enc st m)"
  unfolding authored_def by (rule exI [of _ "[m]"]) simp

lemma authored_trans: "authored sv se enc st st' \<Longrightarrow> authored sv se enc st' st'' \<Longrightarrow> authored sv se enc st st''"
  unfolding authored_def by (metis Un_iff foldl_append set_append)

lemma may_write_party: "config sv = config sv' \<Longrightarrow> party se = party se' \<Longrightarrow> may_write sv se = may_write sv' se'"
  using config_parts(1) [of sv sv'] by (intro may_write_cong) (simp_all add: party_def)

lemma authored_party:
  "config sv = config sv' \<Longrightarrow> party se = party se' \<Longrightarrow> authored sv se enc st st' = authored sv' se' enc st st'"
  using may_write_party [of sv sv' se se'] by (simp add: authored_def)

subsection \<open>Handlers\<close>

lemma execute_authored:
  assumes "plan_admitted sv se p"
  shows "authored sv se (x_log x) (sv_state sv) (sv_state (fst (execute x h sid cid p (sv, se1))))"
proof (cases p)
  case (Refuse code msg)
  then show ?thesis
    by (simp add: execute_def reply_error_eq authored_refl)
next
  case (Store key v q)
  have "sv_state (fst (execute x h sid cid p (sv, se1))) = mutate (x_log x) (sv_state sv) (Apply key v)"
    by (simp add: Store execute_def reply_ok_eq mutate_def split: option.split)
  with assms Store show ?thesis
    by (simp add: authored_one plan_admitted_def mutation_key_def)
next
  case (Drop key)
  have "sv_state (fst (execute x h sid cid p (sv, se1))) = mutate (x_log x) (sv_state sv) (Delete key)"
    by (simp add: Drop execute_def reply_ok_eq mutate_def)
  with assms Drop show ?thesis
    by (simp add: authored_one plan_admitted_def mutation_key_def)
qed

lemma handle_frame_authored: "authored sv se (x_log x) (sv_state sv) (sv_state (fst (handle_frame x now h f (sv, se))))"
proof (cases "frame_type f = CALL")
  case True
  then have "handle_frame x now h f (sv, se) = handle_call x now h f (sv, se)"
    by (simp add: handle_frame_def frame_type_defs)
  then show ?thesis
    using handle_call_executes [of x now h f sv se] execute_authored by metis
qed (simp add: handle_frame_def authored_refl)

text \<open>The paths a session binds while it handles a frame are of keys it may write.\<close>

definition bound_ok :: "server \<Rightarrow> session \<Rightarrow> bool" where
  "bound_ok sv se \<longleftrightarrow> (\<forall>p \<in> set (presence se). may_write sv se (p_key p))"

lemma bound_ok_acl: "sv_acl sv = sv_acl sv' \<Longrightarrow> bound_ok sv = bound_ok sv'"
  using may_write_cong [of sv sv'] by (simp add: bound_ok_def fun_eq_iff)

lemma bound_ok_config: "config sv = config sv' \<Longrightarrow> bound_ok sv = bound_ok sv'"
  using config_parts(1) bound_ok_acl by blast

lemma presence_simps [simp]:
  "presence (snd (watch_keys h ps keys c)) = presence (snd c)"
  "presence (snd (unwatch_keys keys c)) = presence (snd c)"
  "presence (snd (handle_watch now h f c)) = presence (snd c)"
  "presence (snd (handle_resume x now h f c)) = presence (snd c)"
  "presence (ack_stream sid n se) = presence se"
proof -
  have w: "presence (snd (watch_keys h ps keys c)) = presence (snd c)" for h ps keys c
    by (induction keys arbitrary: c) (simp_all add: subscribe_key_eq open_stream_eq send_state_init_eq add_watch_def del: append.simps)
  then show "presence (snd (watch_keys h ps keys c)) = presence (snd c)" .
  show "presence (snd (unwatch_keys keys c)) = presence (snd c)"
    by (induction keys c rule: unwatch_keys.induct) (simp_all add: remove_watch_def split: option.split)
  show "presence (snd (handle_watch now h f c)) = presence (snd c)"
    by (cases c) (simp add: handle_watch_def w reply_error_eq split_def Let_def split: option.split)
  show "presence (snd (handle_resume x now h f c)) = presence (snd c)"
    by (cases c) (simp add: handle_resume_def replay_missed_session open_stream_eq send_state_init_eq reply_error_eq
        add_watch_def split_def Let_def split: option.split)
  show "presence (ack_stream sid n se) = presence se"
    by (simp add: ack_stream_def split: option.split)
qed

lemma execute_presence:
  "set (presence (snd (execute x h sid cid p (sv, se)))) \<subseteq>
     set (presence se) \<union> (case p of Store key v (Some q) \<Rightarrow> {\<lparr>p_key = key, p_path = q\<rparr>} | _ \<Rightarrow> {})"
  by (cases p) (auto simp: execute_def reply_error_eq reply_ok_eq add_presence_def split: option.split)

lemma handle_frame_bound:
  assumes "bound_ok sv se"
  shows "bound_ok sv (snd (handle_frame x now h f (sv, se)))"
proof -
  let ?se = "snd (handle_frame x now h f (sv, se))"
  have mw: "may_write sv ?se = may_write sv se"
    using keeps_handle_frame [of "(sv, se)" x now h f] by (intro may_write_party) (simp_all add: keeps_def)
  have "may_write sv se (p_key p)" if p: "p \<in> set (presence ?se)" for p
  proof (cases "frame_type f = CALL")
    case True
    then have "handle_frame x now h f (sv, se) = handle_call x now h f (sv, se)"
      by (simp add: handle_frame_def frame_type_defs)
    then obtain cid q se1 where "?se = snd (execute x h (stream_id f) cid q (sv, se1))" "plan_admitted sv se q" "presence se1 = presence se"
      using handle_call_executes [of x now h f sv se] by (metis token_simps(5))
    with p execute_presence [of x h "stream_id f" cid q sv se1] assms show ?thesis
      by (auto simp: bound_ok_def plan_admitted_def split: plan.splits option.splits)
  next
    case False
    with p assms show ?thesis
      by (auto simp: bound_ok_def handle_frame_def handle_unwatch_def split: if_splits option.splits)
  qed
  then show ?thesis
    by (simp add: bound_ok_def mw)
qed

lemma presence_cleanup_authored:
  "\<forall>p \<in> set ps. may_write sv0 se (p_key p) \<Longrightarrow> authored sv0 se (x_log x) (sv_state sv) (sv_state (presence_cleanup x ps sv))"
proof (induction ps arbitrary: sv)
  case (Cons p ps)
  show ?case
  proof (cases "store_get (sv_state sv) (p_key p)")
    case None
    with Cons show ?thesis
      by simp
  next
    case (Some e)
    let ?v = "json_remove_in (e_value e) (p_path p)"
    have "authored sv0 se (x_log x) (sv_state sv) (snd (store_apply (x_log x) (sv_state sv) (p_key p) ?v))"
      using Cons.prems authored_one [of sv0 se "Apply (p_key p) ?v" "x_log x" "sv_state sv"] by (simp add: mutation_key_def mutate_def)
    moreover obtain sv1 where "presence_cleanup x (p # ps) sv = presence_cleanup x ps sv1"
      "sv_state sv1 = snd (store_apply (x_log x) (sv_state sv) (p_key p) ?v)"
      by (rule that [OF presence_cleanup.simps(2) [of x p ps sv, unfolded Some option.case Let_def split_def]]) simp
    ultimately show ?thesis
      using Cons.IH [of sv1] Cons.prems authored_trans by simp
  qed
qed (simp add: authored_refl)

subsection \<open>The whole server\<close>

definition bounds_ok :: "system \<Rightarrow> bool" where
  "bounds_ok s \<longleftrightarrow> (\<forall>h cn. map_of (sy_conns s) h = Some cn \<longrightarrow> bound_ok (sy_server s) (cn_session cn))"

lemma on_event_authored:
  assumes "on_event x nanos ev (sv, cn) = (go, sv', cn')" and "bound_ok sv (cn_session cn)"
  shows "authored sv (cn_session cn) (x_log x) (sv_state sv) (sv_state sv') \<and> bound_ok sv (cn_session cn')"
proof -
  consider (plain) "plain_change (sv, cn) (sv', cn')" | (handled) f where "frame_change x nanos f (sv, cn) (sv', cn')"
    using on_event_change [of "(sv, cn)" x nanos ev] assms(1) by force
  then show ?thesis
  proof cases
    case plain
    then show ?thesis
      using plain_change_parts [OF plain] assms(2) by (simp add: plain_change_def authored_refl)
  next
    case (handled f)
    then show ?thesis
      using handle_frame_authored handle_frame_bound [OF assms(2)] by (simp add: frame_change_def)
  qed
qed

lemma bounds_ok_server:
  "bounds_ok s \<Longrightarrow> config sv = config (sy_server s) \<Longrightarrow> bounds_ok (s\<lparr>sy_server := sv\<rparr>)"
  using bound_ok_config [of sv "sy_server s"] by (simp add: bounds_ok_def)

lemma bounds_ok_event:
  assumes "bounds_ok s" and "map_of (sy_conns s) hid = Some cn" and "on_event x nanos ev (sy_server s, cn) = (go, sv, cn')"
  shows "bounds_ok (s\<lparr>sy_server := sv, sy_conns := AList.update hid cn' (sy_conns s)\<rparr>)"
proof -
  have "config sv = config (sy_server s)"
    using on_event_keeps [OF assms(3)] by simp
  moreover have "bound_ok (sy_server s) (cn_session cn')"
    using on_event_authored [OF assms(3)] assms(1,2) by (simp add: bounds_ok_def)
  ultimately show ?thesis
    using assms(1) bound_ok_config [of sv "sy_server s"] by (simp add: bounds_ok_def update_conv')
qed

lemma bounds_ok_counters:
  "bounds_ok s \<Longrightarrow> sv_acl sv = sv_acl (sy_server s) \<Longrightarrow> bounds_ok (s\<lparr>sy_server := sv, sy_waiting := n\<rparr>)"
  using bound_ok_acl [of sv "sy_server s"] by (simp add: bounds_ok_def)

lemma bounds_ok_step:
  assumes "sys_step x s s'" and "bounds_ok s"
  shows "bounds_ok s'"
  using assms(1)
proof cases
  case (Accept sv)
  with assms(2) show ?thesis
    by (auto simp: accept_conn_def intro!: bounds_ok_counters split: if_splits)
next
  case Abandon
  with assms(2) show ?thesis
    by (auto simp: finish_conn_def intro!: bounds_ok_counters)
next
  case (Start uuid hid up nanos now inbox sv cn out rest)
  note new = start_connection_keeps [OF Start(6)]
  have "presence (cn_session cn) = []"
    using new by (metis session.select_convs(5) session.update_convs(2,3) session.surjective session_new_def)
  with new assms(2) Start(1) show ?thesis
    using bound_ok_config [of sv "sy_server s"] by (simp add: bounds_ok_def bound_ok_def)
next
  case (Event hid cn now ev nanos sv cn')
  with bounds_ok_event [OF assms(2)] show ?thesis
    by simp
next
  case (Close hid cn now ev nanos sv cn')
  let ?s = "s\<lparr>sy_server := sv, sy_conns := AList.update hid cn' (sy_conns s)\<rparr>"
  have "bounds_ok ?s"
    using bounds_ok_event [OF assms(2) Close(2,4)] .
  then have "bound_ok sv (cn_session c)" if "map_of (sy_conns s) h = Some c" "h \<noteq> hid" for h c
    using that by (auto simp: bounds_ok_def update_conv' split: if_splits)
  moreover have "sv_acl (finish_conn (end_connection x (cn_session cn') sv)) = sv_acl sv"
    using config_parts(1) [OF end_connection_config] by (simp add: finish_conn_def)
  ultimately show ?thesis
    using Close(1) bound_ok_acl [of "finish_conn (end_connection x (cn_session cn') sv)" sv]
    by (auto simp: bounds_ok_def delete_conv' fun_upd_def split: if_splits)
next
  case (Peer cl channel payload bus net)
  with bounds_ok_server [OF assms(2)] show ?thesis
    by simp
next
  case (Write hid h h' n)
  with bounds_ok_server [OF assms(2)] show ?thesis
    by simp
qed

interpretation bound_system: inv_relation "sys_step x" bounds_ok
  by unfold_locales (rule bounds_ok_step)

lemma bounds_ok_init: "bounds_ok (sys_init sv)"
  by (simp add: bounds_ok_def sys_init_def)

text \<open>What a step does to the store, and for whom.\<close>

lemma close_authored:
  assumes "on_event x nanos ev (sv, cn) = (go, sv', cn')" and "bound_ok sv (cn_session cn)"
  shows "authored sv (cn_session cn) (x_log x) (sv_state sv) (sv_state (finish_conn (end_connection x (cn_session cn') sv')))"
proof -
  note ev = on_event_authored [OF assms] and keep = on_event_keeps [OF assms(1)]
  have "may_write sv (cn_session cn') = may_write sv (cn_session cn)"
    using keep by (intro may_write_party) simp_all
  then have "authored sv (cn_session cn) (x_log x) (sv_state sv') (sv_state (presence_cleanup x (presence (cn_session cn')) sv'))"
    using ev by (intro presence_cleanup_authored) (simp add: bound_ok_def)
  with authored_trans [OF conjunct1 [OF ev]] show ?thesis
    by (simp add: finish_conn_def end_connection_def Let_def)
qed

lemma step_authored:
  assumes "sys_step x s s'" and "bounds_ok s"
  shows "sv_state (sy_server s') = sv_state (sy_server s) \<or>
    (\<exists>h cn. map_of (sy_conns s) h = Some cn \<and>
       authored (sy_server s) (cn_session cn) (x_log x) (sv_state (sy_server s)) (sv_state (sy_server s')))"
  using assms(1)
proof cases
  case (Start uuid hid up nanos now inbox sv cn out rest)
  then show ?thesis
    using start_connection_keeps [OF Start(6)] by simp
next
  case (Event hid cn now ev nanos sv cn')
  with on_event_authored [OF Event(4)] assms(2) show ?thesis
    by (auto simp: bounds_ok_def)
next
  case (Close hid cn now ev nanos sv cn')
  with close_authored [OF Close(4)] assms(2) show ?thesis
    by (auto simp: bounds_ok_def)
qed (auto simp: accept_conn_def finish_conn_def set_handle_def split: if_splits)

subsection \<open>Properties\<close>

text \<open>
  C3. Only authorised writes. Take any state the server reaches and any step from there: a frame, a timer, the end of a
  connection with its presence clean-up, a writer or a message of another node. Either the store is as before, or its
  new state comes from the old one by applies and deletes on keys that one connection, running when the step was taken, may
  write.
\<close>

theorem reachable_writes_authorised:
  assumes "(sys_step x)\<^sup>*\<^sup>* (sys_init sv) s" and "sys_step x s s'"
  shows "sv_state (sy_server s') = sv_state (sy_server s) \<or>
    (\<exists>h cn ms. map_of (sy_conns s) h = Some cn \<and>
       (\<forall>m \<in> set ms. may_write (sy_server s) (cn_session cn) (mutation_key m)) \<and>
       sv_state (sy_server s') = foldl (mutate (x_log x)) (sv_state (sy_server s)) ms)"
  using step_authored [OF assms(2) bound_system.reach_inv [OF assms(1) bounds_ok_init]] unfolding authored_def by blast

subsection \<open>Witness\<close>

definition set_ext :: externals where
  "set_ext = auth_ext\<lparr>x_fdec := (\<lambda>bs. if bs = [9] then Some (call_frame ''state.set'' [(''state'', String ''k''), (''value'', Object [(''a'', Null)])])
     else if bs = [7] then x_fdec auth_ext [7] else None)\<rparr>"

text \<open>The last step of a run, in which a connection stores an object.\<close>

lemma set_demo_step:
  "\<exists>s s'. (sys_step set_ext)\<^sup>*\<^sup>* (sys_init quiet_server) s \<and> sys_step set_ext s s' \<and>
     store_get (sv_state (sy_server s)) ''k'' = None \<and>
     map_option e_value (store_get (sv_state (sy_server s')) ''k'') = Some (Object [(''a'', Null)])"
proof -
  let ?sv1 = "quiet_server\<lparr>sv_connections := 1\<rparr>"
  let ?r = "start_connection set_ext (\<lambda>_ _. True) 0 0 ''a'' 5 [(4, Got (WsBinary [7]))] ?sv1"
  let ?sv2 = "fst (projr (fst ?r))" and ?cn2 = "snd (projr (fst ?r))"
  let ?e = "on_event set_ext 0 (Inbound (Got (WsBinary [9]))) (?sv2, ?cn2)"
  have ran: "\<not> isl (fst ?r)" "fst ?e"
    by code_simp+
  have "accept_conn quiet_server = Some ?sv1" "5 \<notin> fst ` set (net_handles (sv_net ?sv1))"
    by (simp_all add: accept_conn_def quiet_server_def demo_server_def)
  note run = first_steps [OF this unpack_right [OF ran(1)] unpack_true [OF ran(2)]]
  have "store_get (sv_state ?sv2) ''k'' = None"
    "map_option e_value (store_get (sv_state (fst (snd ?e))) ''k'') = Some (Object [(''a'', Null)])"
    by code_simp+
  moreover from run(1,2) have "(sys_step set_ext)\<^sup>*\<^sup>* (sys_init quiet_server) \<lparr>sy_server = ?sv2, sy_conns = [(5, ?cn2)], sy_waiting = 0\<rparr>"
    by (rule converse_rtranclp_into_rtranclp [OF _ r_into_rtranclp])
  ultimately show ?thesis
    using run(3) by force
qed

theorem reachable_writes_authorised_witness:
  "\<exists>s s' h cn. (sys_step set_ext)\<^sup>*\<^sup>* (sys_init quiet_server) s \<and> sys_step set_ext s s' \<and>
     sv_state (sy_server s') \<noteq> sv_state (sy_server s) \<and> map_of (sy_conns s) h = Some cn"
proof -
  obtain s s' where s: "(sys_step set_ext)\<^sup>*\<^sup>* (sys_init quiet_server) s" "sys_step set_ext s s'"
      "store_get (sv_state (sy_server s)) ''k'' = None"
      "map_option e_value (store_get (sv_state (sy_server s')) ''k'') = Some (Object [(''a'', Null)])"
    using set_demo_step by blast
  then have "sv_state (sy_server s') \<noteq> sv_state (sy_server s)"
    by auto
  with s(1,2) reachable_writes_authorised [OF s(1,2)] show ?thesis
    by blast
qed

end
