(* ===== verification/Value_Types.thy ===== *)
theory Value_Types
  imports Server_Writes
begin

section \<open>Stored values stay well-formed\<close>

text \<open>
  Rust's type of JSON objects is an ordered map, so every stored value has strictly ascending object keys at
  every level. In the model an object is any association list and this is a property, \<^const>\<open>json_ok\<close>. Here
  it is shown to be kept by every step of the whole server, provided the decoder of frames yields
  such values.
\<close>

definition values_typed :: "state_store \<Rightarrow> bool" where
  "values_typed st \<longleftrightarrow> (\<forall>k e. store_get st k = Some e \<longrightarrow> json_ok (e_value e))"

definition bodies_typed :: "externals \<Rightarrow> bool" where
  "bodies_typed x \<longleftrightarrow> (\<forall>bs f. x_fdec x bs = Some f \<longrightarrow> json_ok (body f))"

lemma values_typed_apply: "values_typed st \<Longrightarrow> json_ok v \<Longrightarrow> values_typed (snd (store_apply enc st key v))"
  by (simp add: values_typed_def store_get_apply)

lemma json_ok_opt_get: "json_ok j \<Longrightarrow> json_ok (opt_json (json_get j k))"
  by (auto simp: opt_json_def dest: json_ok_get split: option.split)

lemma current_typed:
  "values_typed st \<Longrightarrow> json_ok d \<Longrightarrow> json_ok (case store_get st key of Some e \<Rightarrow> e_value e | None \<Rightarrow> d)"
  by (auto simp: values_typed_def split: option.split)

lemma nested_update_typed:
  assumes "values_typed (sv_state sv)" and "json_ok args" and "nested_update m sv args = Inr (key, path, v)"
  shows "json_ok v"
  using assms(3) json_ok_json_set_in current_typed [OF assms(1), of Null key] json_ok_opt_get [OF assms(2), of "''value''"]
  by (auto simp: nested_update_def Let_def split: option.splits sum.splits)

lemma plan_typed:
  assumes "values_typed (sv_state sv)" and "json_ok args" and "plan_of m args sv = Store key v q"
  shows "json_ok v"
proof -
  have merged: "json_ok (json_merge c (Object p))" if "json_get args ''patch'' = Some (Object p)" "json_ok c" for c p
    using json_ok_get [OF assms(2) that(1)] that(2) by (intro json_ok_merge)
  have cur: "json_ok (e_value e)" if "store_get (sv_state sv) k = Some e" for k e
    using assms(1) that by (simp add: values_typed_def)
  have new: "json_ok (Object [])"
    by simp
  show ?thesis
    using assms(3) merged [OF _ new] merged [OF _ cur] json_ok_opt_get [OF assms(2), of "''value''"]
      nested_update_typed [OF assms(1,2)]
    by (auto simp: plan_of_def Let_def extract_state_and_value_def simp del: json_ok.simps json_merge.simps
        split: if_splits option.splits sum.splits json.splits prod.splits)
qed

lemma execute_typed:
  assumes "values_typed (sv_state sv)" and "\<And>key v q. p = Store key v q \<Longrightarrow> json_ok v"
  shows "values_typed (sv_state (fst (execute x h sid cid p (sv, se))))"
  using assms by (auto simp: values_typed_def execute_state split: plan.splits if_splits)

lemma handle_call_typed:
  assumes "values_typed (sv_state sv)" and "json_ok (body f)"
  shows "values_typed (sv_state (fst (handle_call x now h f (sv, se))))"
proof -
  have "json_ok (opt_json (json_get (body f) ''args''))"
    using assms(2) by (rule json_ok_opt_get)
  from plan_typed [OF assms(1) this] show ?thesis
    unfolding handle_call_plan Let_def
    by (auto intro!: execute_typed [OF assms(1)] split: option.splits if_splits)
qed

lemma handle_frame_typed:
  assumes "values_typed (sv_state (fst c))" and "json_ok (body f)"
  shows "values_typed (sv_state (fst (handle_frame x now h f c)))"
  using assms handle_call_typed [of "fst c" f x now h "snd c"] by (simp add: handle_frame_def)

lemma on_event_typed:
  assumes "bodies_typed x" and "values_typed (sv_state sv)"
  shows "values_typed (sv_state (fst (snd (on_event x nanos ev (sv, cn)))))"
  using assms handle_frame_typed [of "(sv, cn_session cn)"]
  by (auto simp: on_event_def on_message_def bodies_typed_def split_def Let_def
      split: conn_event.split recv.split ws_msg.split option.split)

lemma presence_cleanup_typed: "values_typed (sv_state sv) \<Longrightarrow> values_typed (sv_state (presence_cleanup x ps sv))"
proof (induction ps arbitrary: sv)
  case (Cons p ps)
  have "values_typed (snd (store_apply (x_log x) (sv_state sv) (p_key p) (json_remove_in (e_value e) (p_path p))))"
    if "store_get (sv_state sv) (p_key p) = Some e" for e
    using that Cons.prems by (intro values_typed_apply json_ok_json_remove_in) (auto simp: values_typed_def)
  then show ?case
    using Cons by (auto simp: split_def Let_def intro!: Cons.IH split: option.split)
qed simp

lemma values_typed_step:
  assumes "sys_step x s s'" and "bodies_typed x" and "values_typed (sv_state (sy_server s))"
  shows "values_typed (sv_state (sy_server s'))"
  using assms(1)
proof cases
  case (Start uuid hid up nanos now inbox sv cn out rest)
  with assms(3) start_connection_keeps [OF Start(6)] show ?thesis
    by simp
next
  case (Event hid cn now ev nanos sv cn')
  with on_event_typed [OF assms(2,3), of nanos ev cn] show ?thesis
    by simp
next
  case (Close hid cn now ev nanos sv cn')
  with on_event_typed [OF assms(2,3), of nanos ev cn] presence_cleanup_typed [of sv x "presence (cn_session cn')"] show ?thesis
    by (simp add: finish_conn_def end_connection_def Let_def)
qed (use assms(3) in \<open>auto simp: accept_conn_def finish_conn_def set_handle_def split: if_splits\<close>)

interpretation typed_system: inv_relation "\<lambda>s s'. bodies_typed x \<and> sys_step x s s'" "\<lambda>s. values_typed (sv_state (sy_server s))"
  by unfold_locales (blast intro: values_typed_step)

text \<open>
  Type preservation. If the decoder of frames yields well-formed JSON and every stored value is
  well-formed when the server starts, then every stored value is well-formed in every state the server reaches, by
  any interleaving of the frames, timers, closes and clean-ups of its connections.
\<close>

theorem values_stay_typed:
  assumes "(sys_step x)\<^sup>*\<^sup>* (sys_init sv) s" and "\<And>bs f. x_fdec x bs = Some f \<Longrightarrow> json_ok (body f)"
    and "\<And>k e. store_get (sv_state sv) k = Some e \<Longrightarrow> json_ok (e_value e)"
    and "store_get (sv_state (sy_server s)) key = Some e"
  shows "json_ok (e_value e)"
proof -
  have x: "bodies_typed x"
    using assms(2) by (simp add: bodies_typed_def)
  with assms(1) have "(\<lambda>s s'. bodies_typed x \<and> sys_step x s s')\<^sup>*\<^sup>* (sys_init sv) s"
    by simp
  then have "values_typed (sv_state (sy_server s))"
    by (rule typed_system.reach_inv) (use assms(3) in \<open>simp add: values_typed_def sys_init_def\<close>)
  with assms(4) show ?thesis
    by (simp add: values_typed_def)
qed

theorem values_stay_typed_witness:
  "\<exists>s e. (sys_step set_ext)\<^sup>*\<^sup>* (sys_init quiet_server) s \<and> store_get (sv_state (sy_server s)) ''k'' = Some e \<and>
     e_value e = Object [(''a'', Null)] \<and> json_ok (e_value e)"
proof -
  obtain s e where s: "(sys_step set_ext)\<^sup>*\<^sup>* (sys_init quiet_server) s" "store_get (sv_state (sy_server s)) ''k'' = Some e"
      "e_value e = Object [(''a'', Null)]"
    using set_demo_step by (auto dest: rtranclp.rtrancl_into_rtrancl)
  have "json_ok (body f)" if "x_fdec set_ext bs = Some f" for bs f
    using that by (auto simp: set_ext_def auth_ext_def call_frame_def bt_ok_def split: if_splits)
  moreover have "store_get (sv_state quiet_server) k = None" for k
    by (simp add: quiet_server_def demo_server_def store_get_def store_new_def)
  ultimately show ?thesis
    using s values_stay_typed [where x = set_ext and sv = quiet_server, OF s(1) _ _ s(2)] by auto
qed

end
