(* ===== verification/Server_Boot.thy ===== *)
theory Server_Boot
  imports Server_Writes
begin

section \<open>Starting the server\<close>

text \<open>
  The model of \<^verbatim>\<open>src/src/main.rs\<close>: the choice of the constructor from the command line, joining the Redis
  cluster, the ports of the side servers and the HTTP answers those give. What the process finds in its
  surroundings is a record: the environment, the files, the directory of the log, the connection to Redis and its
  answer to \<^verbatim>\<open>HGETALL\<close>.
\<close>

record surroundings =
  b_env :: "string \<Rightarrow> string option"
  b_read :: "string \<Rightarrow> string option"
  b_acl_file :: "string \<Rightarrow> acl_registry option"
  b_schema_file :: "string \<Rightarrow> string + schema_registry"
  b_dir :: "string \<Rightarrow> dir"
  b_cores :: "nat option"
  b_connect :: "string \<Rightarrow> redis_cluster option"
  b_hgetall :: "redis_cluster \<Rightarrow> (bytes \<times> bytes) list option"

text \<open>\<open>argv\<close> is the command line, the name of the program first.\<close>

definition arg_at :: "nat \<Rightarrow> string list \<Rightarrow> string option" where
  "arg_at n argv = (if n < length argv then Some (argv ! n) else None)"

definition listen_addr :: "string list \<Rightarrow> string" where
  "listen_addr argv = (case arg_at 1 argv of Some a \<Rightarrow> a | None \<Rightarrow> ''0.0.0.0:7777'')"

definition nonempty_arg :: "nat \<Rightarrow> string list \<Rightarrow> string option" where
  "nonempty_arg n argv = (case arg_at n argv of Some s \<Rightarrow> if s = [] then None else Some s | None \<Rightarrow> None)"

definition choose_server :: "decoder \<Rightarrow> surroundings \<Rightarrow> string list \<Rightarrow> start_error + server" where
  "choose_server dec b argv =
     (case nonempty_arg 3 argv of
        Some sf \<Rightarrow>
          with_schema dec (map_option (b_dir b) (nonempty_arg 2 argv)) (b_schema_file b sf) (b_env b) (b_read b) (b_acl_file b) (b_cores b)
      | None \<Rightarrow>
          (case nonempty_arg 2 argv of
             Some d \<Rightarrow> new_persistent dec (b_dir b d) (b_env b) (b_read b) (b_acl_file b) (b_cores b)
           | None \<Rightarrow> Inr (server_new (b_env b) (b_read b) (b_acl_file b) (b_cores b))))"

definition join_cluster :: "value_decoder \<Rightarrow> surroundings \<Rightarrow> server \<Rightarrow> server" where
  "join_cluster vdec b sv =
     (case Option.bind (b_env b ''SODP_REDIS_URL'') (b_connect b) of
        None \<Rightarrow> sv
      | Some cluster \<Rightarrow>
          (case b_hgetall b cluster of
             None \<Rightarrow> sv
           | Some raw \<Rightarrow> sv\<lparr>sv_state := load_entries (sv_state sv) (load_state vdec raw), sv_cluster := Some cluster\<rparr>))"

definition boot :: "decoder \<Rightarrow> value_decoder \<Rightarrow> surroundings \<Rightarrow> string list \<Rightarrow> start_error + server" where
  "boot dec vdec b argv =
     (case choose_server dec b argv of Inl e \<Rightarrow> Inl e | Inr sv \<Rightarrow> Inr (join_cluster vdec b sv))"

subsection \<open>The side servers\<close>

definition side_port :: "surroundings \<Rightarrow> string \<Rightarrow> nat option" where
  "side_port b name = env_nat (b_env b) 16 name"

definition crlf :: string where
  "crlf = [CHR 0x0D, CHR 0x0A]"

definition http_ok :: "string \<Rightarrow> string \<Rightarrow> string" where
  "http_ok content_type b =
     ''HTTP/1.1 200 OK'' @ crlf @ ''Content-Type: '' @ content_type @ crlf @
     ''Content-Length: '' @ show_nat (length b) @ crlf @ crlf @ b"

definition health_response :: "server \<Rightarrow> string" where
  "health_response sv =
     http_ok ''application/json''
       ([CHR 0x7B, CHR 0x22] @ ''status'' @ [CHR 0x22, CHR 0x3A, CHR 0x22] @ ''ok'' @ [CHR 0x22, CHR 0x2C, CHR 0x22] @
        ''connections'' @ [CHR 0x22, CHR 0x3A] @ show_nat (sv_connections sv) @ [CHR 0x2C, CHR 0x22] @
        ''version'' @ [CHR 0x22, CHR 0x3A, CHR 0x22] @ ''0.1'' @ [CHR 0x22, CHR 0x7D])"

definition metrics_response :: "string \<Rightarrow> string" where
  "metrics_response rendered = http_ok ''text/plain; version=0.0.4'' rendered"

text \<open>A reader of such answers: the head ends at the first empty line, its last line gives the length of the body.\<close>

fun split_head :: "string \<Rightarrow> (string \<times> string) option" where
  "split_head [] = None"
| "split_head (c # cs) =
     (case strip_prefix (crlf @ crlf) (c # cs) of
        Some rest \<Rightarrow> Some ([], rest)
      | None \<Rightarrow> map_option (\<lambda>(h, rest). (c # h, rest)) (split_head cs))"

definition last_line :: "string \<Rightarrow> string" where
  "last_line s = rev (takeWhile (\<lambda>c. c \<noteq> CHR 0x0A) (rev s))"

definition http_body :: "string \<Rightarrow> string option" where
  "http_body resp =
     (case split_head resp of
        None \<Rightarrow> None
      | Some (h, b) \<Rightarrow>
          (case strip_prefix ''Content-Length: '' (last_line h) of
             None \<Rightarrow> None
           | Some ds \<Rightarrow> if digits_val ds = length b then Some b else None))"

subsection \<open>Facts\<close>

lemma server_from_simps [simp]:
  "sv_state (server_from st sch env rd af cores) = st" "sv_schema (server_from st sch env rd af cores) = sch"
  "sv_bus (server_from st sch env rd af cores) = bus_new" "sv_connections (server_from st sch env rd af cores) = 0"
  "sv_cluster (server_from st sch env rd af cores) = None"
  "sv_acl (server_from st sch env rd af cores) = read_acl env af"
  "sv_jwt (server_from st sch env rd af cores) = read_jwt_config env rd"
  by (simp_all add: server_from_def Let_def)

lemma join_cluster_simps [simp]:
  "sv_schema (join_cluster vdec b sv) = sv_schema sv" "sv_bus (join_cluster vdec b sv) = sv_bus sv"
  "sv_connections (join_cluster vdec b sv) = sv_connections sv" "sv_acl (join_cluster vdec b sv) = sv_acl sv"
  "sv_jwt (join_cluster vdec b sv) = sv_jwt sv"
  by (simp_all add: join_cluster_def split: option.split)

lemma choose_server_parts:
  assumes "choose_server dec b argv = Inr sv"
  shows "sv_bus sv = bus_new \<and> sv_connections sv = 0 \<and> sv_acl sv = read_acl (b_env b) (b_acl_file b) \<and>
    sv_jwt sv = read_jwt_config (b_env b) (b_read b) \<and>
    (case nonempty_arg 3 argv of Some sf \<Rightarrow> \<exists>sch. b_schema_file b sf = Inr sch \<and> sv_schema sv = Some sch | None \<Rightarrow> sv_schema sv = None) \<and>
    (case nonempty_arg 2 argv of Some d \<Rightarrow> store_open dec (b_dir b d) = Inr (sv_state sv) | None \<Rightarrow> sv_state sv = store_new)"
  using assms by (auto simp: choose_server_def with_schema_def new_persistent_def server_new_def split: option.splits sum.splits)

lemma split_head_line: "CHR 0x0D \<notin> set l \<Longrightarrow> split_head (l @ r) = map_option (\<lambda>(h, b). (l @ h, b)) (split_head r)"
  by (induction l) (auto simp: crlf_def option.map_comp comp_def split_def option.map_ident)

lemma split_head_crlf:
  "c \<noteq> CHR 0x0D \<Longrightarrow> split_head (crlf @ c # r) = map_option (\<lambda>(h, b). (crlf @ h, b)) (split_head (c # r))"
  by (simp add: crlf_def option.map_comp comp_def split_def)

lemma last_line_append: "CHR 0x0A \<notin> set l \<Longrightarrow> last_line (h @ CHR 0x0A # l) = l"
  by (simp add: last_line_def takeWhile_append)

lemma show_nat_no_line: "CHR 0x0D \<notin> set (show_nat n)" "CHR 0x0A \<notin> set (show_nat n)"
  using show_nat_digits [of n] by (auto simp: list_all_iff is_digit_def)

lemma http_ok_body:
  assumes "CHR 0x0D \<notin> set ct"
  shows "http_body (http_ok ct b) = Some b"
proof -
  let ?h = "''HTTP/1.1 200 OK'' @ crlf @ ''Content-Type: '' @ ct @ crlf @ ''Content-Length: '' @ show_nat (length b)"
  have end_of: "split_head (crlf @ crlf @ b) = Some ([], b)"
    by (simp add: crlf_def)
  have line: "split_head (l @ r) = Some (l @ h, b)" if "CHR 0x0D \<notin> set l" "split_head r = Some (h, b)" for l r h
    using split_head_line [OF that(1), of r] that(2) by simp
  have next_line: "split_head (crlf @ l @ r) = Some (crlf @ l @ h, b)"
    if "l \<noteq> []" "CHR 0x0D \<notin> set l" "split_head r = Some (h, b)" for l r h
    using that(1,2) line [OF that(2,3)] split_head_crlf [of "hd l" "tl l @ r"] by (cases l) auto
  have "split_head (crlf @ (''Content-Length: '' @ show_nat (length b)) @ crlf @ crlf @ b) =
      Some (crlf @ (''Content-Length: '' @ show_nat (length b)) @ [], b)"
    by (rule next_line [OF _ _ end_of]) (simp_all add: show_nat_no_line)
  from next_line [OF _ _ this, of "''Content-Type: '' @ ct"] assms
  have "split_head (crlf @ (''Content-Type: '' @ ct) @ crlf @ (''Content-Length: '' @ show_nat (length b)) @ crlf @ crlf @ b) =
      Some (crlf @ (''Content-Type: '' @ ct) @ crlf @ (''Content-Length: '' @ show_nat (length b)) @ [], b)"
    by (simp del: split_head.simps)
  from line [OF _ this, of "''HTTP/1.1 200 OK''"] have "split_head (http_ok ct b) = Some (?h, b)"
    by (simp add: http_ok_def del: split_head.simps)
  moreover have "last_line ?h = ''Content-Length: '' @ show_nat (length b)"
    using last_line_append [of "''Content-Length: '' @ show_nat (length b)" "''HTTP/1.1 200 OK'' @ crlf @ ''Content-Type: '' @ ct @ [CHR 0x0D]"]
    by (simp add: crlf_def show_nat_no_line)
  ultimately show ?thesis
    by (simp add: http_body_def digits_val_show_nat)
qed

text \<open>A step whose records the codec stores faithfully.\<close>

definition disk_step :: "externals \<Rightarrow> decoder \<Rightarrow> system \<Rightarrow> system \<Rightarrow> bool" where
  "disk_step x dec s s' \<longleftrightarrow> sys_step x s s' \<and>
     (\<exists>ms. run_ok (mutate (x_log x)) (disk_mutation_ok (x_log x) dec) (sv_state (sy_server s)) ms \<and>
           sv_state (sy_server s') = foldl (mutate (x_log x)) (sv_state (sy_server s)) ms)"

lemma disk_steps_run:
  assumes "(disk_step x dec)\<^sup>*\<^sup>* s s'"
  shows "\<exists>ms. run_ok (mutate (x_log x)) (disk_mutation_ok (x_log x) dec) (sv_state (sy_server s)) ms \<and>
              sv_state (sy_server s') = foldl (mutate (x_log x)) (sv_state (sy_server s)) ms"
  using assms
proof induction
  case base
  show ?case
    by (rule exI [of _ "[]"]) simp
next
  case (step s1 s2)
  then obtain ms ms' where
    "run_ok (mutate (x_log x)) (disk_mutation_ok (x_log x) dec) (sv_state (sy_server s)) ms"
    "sv_state (sy_server s1) = foldl (mutate (x_log x)) (sv_state (sy_server s)) ms"
    "run_ok (mutate (x_log x)) (disk_mutation_ok (x_log x) dec) (sv_state (sy_server s1)) ms'"
    "sv_state (sy_server s2) = foldl (mutate (x_log x)) (sv_state (sy_server s1)) ms'"
    by (auto simp: disk_step_def)
  then show ?case
    by (intro exI [of _ "ms @ ms'"]) (simp add: run_ok_append)
qed

subsection \<open>Properties\<close>


text \<open>
  The configuration that is asked for is the one that runs. If the server starts, its store is the log directory's
  or empty, merged with what Redis answered if it did; the schema of the given file is enforced; authentication and the
  access-control list are those of the environment; and the answers of the two side servers are framed correctly.
\<close>

theorem boot_configured:
  assumes "boot dec vdec b argv = Inr sv"
  shows "sv_bus sv = bus_new \<and> sv_connections sv = 0 \<and> sv_acl sv = read_acl (b_env b) (b_acl_file b) \<and>
    sv_jwt sv = read_jwt_config (b_env b) (b_read b) \<and>
    (case nonempty_arg 3 argv of Some sf \<Rightarrow> \<exists>sch. b_schema_file b sf = Inr sch \<and> sv_schema sv = Some sch | None \<Rightarrow> sv_schema sv = None) \<and>
    (\<exists>st. (case nonempty_arg 2 argv of Some d \<Rightarrow> store_open dec (b_dir b d) = Inr st | None \<Rightarrow> st = store_new) \<and>
       sv_state sv = (case sv_cluster sv of None \<Rightarrow> st | Some cl \<Rightarrow> load_entries st (load_state vdec (the (b_hgetall b cl))))) \<and>
    http_body (metrics_response rendered) = Some rendered \<and> http_body (health_response sv) \<noteq> None"
proof -
  obtain sv0 where sv0: "choose_server dec b argv = Inr sv0" "sv = join_cluster vdec b sv0"
    using assms by (auto simp: boot_def split: sum.splits)
  have "sv_cluster sv0 = None"
    using sv0(1) by (auto simp: choose_server_def with_schema_def new_persistent_def server_new_def split: option.splits sum.splits)
  then have "sv_state sv = (case sv_cluster sv of None \<Rightarrow> sv_state sv0 | Some cl \<Rightarrow> load_entries (sv_state sv0) (load_state vdec (the (b_hgetall b cl))))"
    by (auto simp: sv0(2) join_cluster_def split: option.split)
  with choose_server_parts [OF sv0(1)] show ?thesis
    unfolding sv0(2) join_cluster_simps metrics_response_def health_response_def by (auto simp: http_ok_body)
qed

subsection \<open>Witnesses\<close>

definition demo_surroundings :: "dir \<Rightarrow> surroundings" where
  "demo_surroundings d =
     \<lparr>b_env = (\<lambda>_. None), b_read = (\<lambda>_. None), b_acl_file = (\<lambda>_. None), b_schema_file = (\<lambda>_. Inr []), b_dir = (\<lambda>_. d),
      b_cores = None, b_connect = (\<lambda>_. None), b_hgetall = (\<lambda>_. None)\<rparr>"

text \<open>A run on an empty log directory: a connection comes up and sets a key.\<close>

definition boot_ext :: externals where
  "boot_ext = demo_ext\<lparr>x_log := table_enc demo_table,
     x_fdec := (\<lambda>_. Some (call_frame ''state.set'' [(''state'', String ''k''), (''value'', Bool True)]))\<rparr>"

definition boot_server :: server where
  "boot_server = (demo_server None None)\<lparr>sv_state := fresh_store (table_dec demo_table)\<rparr>"

lemma boot_set:
  assumes "sv_state sv = fresh_store (table_dec demo_table)" "sv_acl sv = None" "sv_schema sv = None"
    "write_limiter (cn_session cn) = None" "sv_max_frame_bytes sv = 64"
  obtains sv' cn' where "on_event boot_ext 0 (Inbound (Got (WsBinary [9]))) (sv, cn) = (True, sv', cn')" "sv_state sv' = demo_store"
proof -
  let ?f = "call_frame ''state.set'' [(''state'', String ''k''), (''value'', Bool True)]"
  let ?r = "handle_frame boot_ext 0 (cn_handle cn) ?f (sv, cn_session cn)"
  have "sv_state (fst ?r) = demo_store"
    using assms by (simp add: handle_frame_def frame_type_defs handle_call_plan call_frame_def Let_def get_str_def opt_json_def
        take_write_token_def may_write_def plan_of_def extract_state_and_value_def check_schema_def execute_def reply_ok_eq demo_store_def mutate_def boot_ext_def)
  moreover have "on_event boot_ext 0 (Inbound (Got (WsBinary [9]))) (sv, cn) = (True, fst ?r, cn\<lparr>cn_session := snd ?r\<rparr>)"
    using assms(5) by (simp add: on_event_def on_message_def boot_ext_def split_def Let_def)
  ultimately show thesis
    by (rule that [rotated])
qed

lemma boot_run:
  "\<exists>s. (disk_step boot_ext (table_dec demo_table))\<^sup>*\<^sup>* (sys_init boot_server) s \<and> sv_state (sy_server s) = demo_store"
proof -
  define sv1 where "sv1 = boot_server\<lparr>sv_connections := 2\<rparr>"
  define c2 where "c2 = new_conn 0 5 (session_new ''a'' 0 None None) None sv1"
  have a: "accept_conn boot_server = Some sv1" "5 \<notin> fst ` set (net_handles (sv_net sv1))"
    by (simp_all add: accept_conn_def sv1_def boot_server_def demo_server_def)
  have b: "start_connection boot_ext (\<lambda>_ _. True) 0 0 ''a'' 5 [] sv1 =
      (Inr (fst c2, snd c2), snd (tx_frame boot_ext (\<lambda>_ _. True) (hello False (capabilities sv1)) []), [])"
    by (simp add: start_connection_def c2_def sv1_def boot_server_def demo_server_def tx_frame_def boot_ext_def demo_ext_def)
  have "sv_state (fst c2) = fresh_store (table_dec demo_table)" "sv_acl (fst c2) = None" "sv_schema (fst c2) = None"
    "write_limiter (cn_session (snd c2)) = None" "sv_max_frame_bytes (fst c2) = 64"
    by (simp_all add: c2_def new_conn_def sv1_def boot_server_def demo_server_def session_new_def Let_def)
  then obtain sv3 cn3 where e: "on_event boot_ext 0 (Inbound (Got (WsBinary [9]))) (fst c2, snd c2) = (True, sv3, cn3)" "sv_state sv3 = demo_store"
    using boot_set by blast
  note run = first_steps [OF a b e(1)]
  have none: "\<exists>ms. run_ok (mutate enc) (disk_mutation_ok enc dec) t ms \<and> t = foldl (mutate enc) t ms" for enc dec t
    by (rule exI [of _ "[]"]) simp
  have set_k: "\<exists>ms. run_ok (mutate (table_enc demo_table)) (disk_mutation_ok (table_enc demo_table) (table_dec demo_table))
      (fresh_store (table_dec demo_table)) ms \<and> demo_store = foldl (mutate (table_enc demo_table)) (fresh_store (table_dec demo_table)) ms"
    using demo_mutation_ok by (intro exI [of _ "[Apply ''k'' (Bool True)]"]) (simp add: demo_store_def)
  have "x_log boot_ext = table_enc demo_table" "sv_state boot_server = fresh_store (table_dec demo_table)"
    "sv_state sv1 = fresh_store (table_dec demo_table)" "sv_state (fst c2) = fresh_store (table_dec demo_table)"
    by (simp_all add: boot_ext_def boot_server_def sv1_def c2_def new_conn_def Let_def)
  then have "disk_step boot_ext (table_dec demo_table) (sys_init boot_server) \<lparr>sy_server = sv1, sy_conns = [], sy_waiting = 1\<rparr>"
    "disk_step boot_ext (table_dec demo_table) \<lparr>sy_server = sv1, sy_conns = [], sy_waiting = 1\<rparr>
       \<lparr>sy_server = fst c2, sy_conns = [(5, snd c2)], sy_waiting = 0\<rparr>"
    "disk_step boot_ext (table_dec demo_table) \<lparr>sy_server = fst c2, sy_conns = [(5, snd c2)], sy_waiting = 0\<rparr>
       \<lparr>sy_server = sv3, sy_conns = [(5, cn3)], sy_waiting = 0\<rparr>"
    using run none set_k by (simp_all add: disk_step_def sys_init_def e(2) del: foldl.simps)
  from three_steps [where r = "disk_step boot_ext (table_dec demo_table)", OF this] e(2) show ?thesis
    by force
qed


theorem boot_configured_witness:
  "\<exists>sv. boot (\<lambda>_. None) (\<lambda>_. None) (demo_surroundings []) [''sodp-server''] = Inr sv \<and> sv_bus sv = bus_new \<and>
     http_body (metrics_response ''up 1'') = Some ''up 1''"
proof -
  obtain sv where "boot (\<lambda>_. None) (\<lambda>_. None) (demo_surroundings []) [''sodp-server''] = Inr sv"
    by (simp add: boot_def choose_server_def nonempty_arg_def arg_at_def)
  with boot_configured [OF this, of "''up 1''"] show ?thesis
    by blast
qed

end
