(* ===== verification/Client_Calls.thy ===== *)
theory Client_Calls
  imports Server_Safety Python_Client
begin

section \<open>Calls of the client, answered by the server\<close>

text \<open>
  The composition of the calling side of \<^verbatim>\<open>src/sodp-py/src/sodp/client.py\<close> with \<^verbatim>\<open>handle_call\<close> of
  \<^verbatim>\<open>src/src/server.rs\<close>: what the client puts into a CALL frame is what the server takes out of it, and the
  reply the server sends completes the call it answers. The MessagePack codec is outside both programs; \<open>received\<close>
  is the frame the server's decoder yields for the array the client packs.
\<close>

definition received :: "raw_frame \<Rightarrow> frame" where
  "received = (\<lambda>(ftype, sid, sq, b). \<lparr>frame_type = ftype, stream_id = of_nat sid, seq = of_nat sq, body = b\<rparr>)"

text \<open>The decision the server takes on a call, before it acts.\<close>

definition decision :: "nat \<Rightarrow> string \<Rightarrow> json \<Rightarrow> server \<Rightarrow> session \<Rightarrow> plan" where
  "decision now mth args sv se =
     (if \<not> fst (take_write_token now se) then Refuse 429 ''rate limit exceeded''
      else if (case get_str args ''state'' of None \<Rightarrow> False | Some key \<Rightarrow> \<not> may_write sv se key)
      then Refuse 403 ''forbidden''
      else plan_of mth args sv)"

lemma json_get_obj: "json_get (json_obj kvs) k = map_of (rev kvs) k"
proof -
  have "map_of (fold (\<lambda>(k, v). bt_insert k v) kvs m) k = (case map_of (rev kvs) k of Some v \<Rightarrow> Some v | None \<Rightarrow> map_of m k)" for m
    by (induction kvs arbitrary: m) (auto simp: map_add_def split: option.splits)
  from this [of "[]"] show ?thesis
    by (simp add: json_obj_def split: option.splits)
qed

lemma get_str_obj: "get_str (json_obj kvs) k = Option.bind (map_of (rev kvs) k) as_str"
  by (simp add: get_str_def json_get_obj)

lemmas obj_simps = json_get_obj get_str_obj get_str_def opt_json_def

text \<open>The CALL frame of a ready client.\<close>

definition call_sent :: "string \<Rightarrow> string \<Rightarrow> json \<Rightarrow> py_client \<Rightarrow> frame" where
  "call_sent call_id mth args c = received (last (pc_outbox (call call_id mth args c)))"

lemma call_outbox:
  "pc_authenticated c \<Longrightarrow> pc_outbox (call call_id mth args c) =
     pc_outbox c @ [(CALL, 0, pc_next_seq c + 1, json_obj [(''call_id'', String call_id), (''method'', String mth), (''args'', args)])]"
  by (simp add: call_def send_or_queue_def send_raw_def)

lemma call_sent_handled:
  assumes "pc_authenticated c"
  shows "handle_frame x now h (call_sent call_id mth args c) (sv, se) =
     execute x h 0 call_id (decision now mth args sv se) (sv, snd (take_write_token now se))"
proof -
  let ?b = "json_obj [(''call_id'', String call_id), (''method'', String mth), (''args'', args)]"
  have f: "call_sent call_id mth args c = \<lparr>frame_type = CALL, stream_id = 0, seq = of_nat (pc_next_seq c + 1), body = ?b\<rparr>"
    by (simp add: call_sent_def call_outbox [OF assms] received_def)
  have b: "get_str ?b ''call_id'' = Some call_id" "get_str ?b ''method'' = Some mth" "opt_json (json_get ?b ''args'') = args"
    by (simp_all add: obj_simps)
  have "handle_frame x now h (call_sent call_id mth args c) (sv, se) = handle_call x now h (call_sent call_id mth args c) (sv, se)"
    by (simp add: f handle_frame_def frame_type_defs)
  then show ?thesis
    by (simp add: handle_call_plan f b decision_def Let_def)
qed

text \<open>What a reply makes of the pending calls: a RESULT names its call, an ERROR goes to the oldest one.\<close>

lemma pending_call [simp]:
  "pc_pending (call call_id mth args c) = pc_pending c @ [call_id]" "pc_outcomes (call call_id mth args c) = pc_outcomes c"
  by (simp_all add: call_def send_or_queue_def)

lemma reply_completes:
  assumes "pc_pending c = ps @ [call_id]"
  shows "pc_outcomes (client_frame (PyFrame (error sid sq code msg)) c) =
           pc_outcomes c @ [(hd (ps @ [call_id]), ErrorFrame (json_u64 (ucast code)) (String msg))]"
    and "pc_outcomes (client_frame (PyFrame (result_ok sid sq call_id (Some d))) c) = pc_outcomes c @ [(call_id, Resolved d)]"
    and "pc_pending (client_frame (PyFrame (error sid sq code msg)) c) = tl (ps @ [call_id])"
    and "pc_pending (client_frame (PyFrame (result_ok sid sq call_id (Some d))) c) = remove1 call_id (ps @ [call_id])"
  using assms by (cases ps; simp add: client_frame_def error_def result_ok_def frame_type_defs on_error_def on_result_def obj_simps)+

text \<open>The reply to an executed plan.\<close>

definition plan_reply :: "externals \<Rightarrow> nat \<Rightarrow> string \<Rightarrow> plan \<Rightarrow> server \<Rightarrow> session \<Rightarrow> frame" where
  "plan_reply x h call_id p sv se =
     (case p of
        Refuse code msg \<Rightarrow> error 0 (seq_counter se + 1) code msg
      | Store key v q \<Rightarrow> result_ok 0 (seq_counter se + 1) call_id (Some (json_obj [(''version'', json_u64 (fst (commit x h se key v sv)))]))
      | Drop key \<Rightarrow> result_ok 0 (seq_counter se + 1) call_id (Some (json_obj [(''version'', json_u64 (fst (drop_key x h se key sv)))])))"

lemma execute_last:
  assumes "\<not> net_dead (sv_net (fst (execute x h 0 call_id p (sv, se)))) h"
  shows "last (net_carried (sv_net (fst (execute x h 0 call_id p (sv, se)))) h) = FrameMsg (plan_reply x h call_id p sv se)"
proof (cases p)
  case (Refuse code msg)
  with assms carried_send(1) [of h "FrameMsg (plan_reply x h call_id p sv se)" "sv_net sv"] show ?thesis
    by (simp add: execute_def reply_error_eq plan_reply_def)
next
  case (Store key v q)
  with assms carried_send(1) [of h "FrameMsg (plan_reply x h call_id p sv se)" "sv_net (snd (commit x h se key v sv))"] show ?thesis
    by (simp add: execute_def reply_ok_eq plan_reply_def split: option.splits)
next
  case (Drop key)
  with assms carried_send(1) [of h "FrameMsg (plan_reply x h call_id p sv se)" "sv_net (snd (drop_key x h se key sv))"] show ?thesis
    by (simp add: execute_def reply_ok_eq plan_reply_def)
qed

lemma commit_version: "fst (commit x h se key v sv) = st_version (sv_state sv) + 1"
  by (simp add: commit_def store_apply_result split_def Let_def)

definition outcome_of :: "plan \<Rightarrow> u64 \<Rightarrow> call_outcome" where
  "outcome_of p version =
     (case p of
        Refuse code msg \<Rightarrow> ErrorFrame (json_u64 (ucast code)) (String msg)
      | _ \<Rightarrow> Resolved (json_obj [(''version'', json_u64 version)]))"

lemma execute_effect:
  "store_get (sv_state (fst (execute x h sid cid p (sv, se)))) k = plan_effect p (sv_state sv) k"
  by (simp add: execute_state plan_effect_def)

lemma drop_key_version: "fst (drop_key x h se key sv) = (if store_get (sv_state sv) key = None then 0 else st_version (sv_state sv) + 1)"
  by (auto simp: drop_key_def store_delete_def store_get_def Let_def split_def split: option.split)

text \<open>The call a reply completes, and the version it reports.\<close>

definition replied_call :: "plan \<Rightarrow> string list \<Rightarrow> string \<Rightarrow> string" where
  "replied_call p earlier call_id = (case p of Refuse _ _ \<Rightarrow> hd (earlier @ [call_id]) | _ \<Rightarrow> call_id)"

definition replied_version :: "plan \<Rightarrow> state_store \<Rightarrow> u64" where
  "replied_version p st =
     (case p of
        Drop key \<Rightarrow> if store_get st key = None then 0 else st_version st + 1
      | _ \<Rightarrow> st_version st + 1)"

lemma plan_reply_outcome:
  assumes "pc_pending c = ps @ [call_id]"
  shows "pc_outcomes (client_frame (PyFrame (plan_reply x h call_id p sv se)) c) =
           pc_outcomes c @ [(replied_call p ps call_id, outcome_of p (replied_version p (sv_state sv)))]"
    and "pc_pending (client_frame (PyFrame (plan_reply x h call_id p sv se)) c) = remove1 (replied_call p ps call_id) (ps @ [call_id])"
  by (cases p; cases ps; simp add: plan_reply_def outcome_of_def reply_completes [OF assms] commit_version drop_key_version
      replied_call_def replied_version_def)+

text \<open>The value of a key, and its value after the server handled the last frame the client queued.\<close>

definition value_at :: "string \<Rightarrow> ctx \<Rightarrow> json option" where
  "value_at key c = map_option e_value (store_get (sv_state (fst c)) key)"

definition value_or :: "json \<Rightarrow> string \<Rightarrow> server \<Rightarrow> json" where
  "value_or d key sv = (case store_get (sv_state sv) key of Some e \<Rightarrow> e_value e | None \<Rightarrow> d)"

definition value_after :: "externals \<Rightarrow> nat \<Rightarrow> nat \<Rightarrow> ctx \<Rightarrow> string \<Rightarrow> py_client \<Rightarrow> json option" where
  "value_after x now h ctx key c = value_at key (handle_frame x now h (received (last (pc_outbox c))) ctx)"

lemma call_sent_value:
  assumes "pc_authenticated c" and "fst (take_write_token now se)" and "may_write sv se key" and "get_str args ''state'' = Some key"
  shows "value_at key (handle_frame x now h (call_sent cid mth args c) (sv, se)) =
           map_option e_value (plan_effect (plan_of mth args sv) (sv_state sv) key)"
  unfolding call_sent_handled [OF assms(1)] value_at_def execute_effect using assms(2-4) by (simp add: decision_def)

subsection \<open>Properties\<close>

text \<open>
  C9. Calls are answered as decided. A ready client, with any calls pending, makes a call; the server handles the CALL frame
  it sent. If the session's handle did not overflow, the last message of the handle is a reply that completes one pending call:
  this one, with the version of the change, if the call is executed (the next version of the store, or 0 for the delete of an
  absent key), and the oldest pending one, with the error the server decided on, if it is refused; with no other call pending
  that is this call too. All other calls stay pending. The entries of the store are those the decision prescribes, so a refused
  call changes none and an executed one only its key.
\<close>

theorem call_roundtrip:
  assumes "pc_authenticated c"
    and "handle_frame x now h (call_sent call_id mth args c) (sv, se) = (sv', se')" and "\<not> net_dead (sv_net sv') h"
  shows "\<exists>r. last (net_carried (sv_net sv') h) = FrameMsg r \<and>
           (let d = decision now mth args sv se; who = replied_call d (pc_pending c) call_id
            in pc_pending (client_frame (PyFrame r) (call call_id mth args c)) = remove1 who (pc_pending c @ [call_id]) \<and>
               pc_outcomes (client_frame (PyFrame r) (call call_id mth args c)) =
                 pc_outcomes c @ [(who, outcome_of d (replied_version d (sv_state sv)))] \<and>
               (\<forall>k. store_get (sv_state sv') k = plan_effect d (sv_state sv) k))"
proof -
  let ?d = "decision now mth args sv se" and ?se = "snd (take_write_token now se)"
  have sv': "sv' = fst (execute x h 0 call_id ?d (sv, ?se))"
    using assms(2) call_sent_handled [OF assms(1)] by simp
  have "last (net_carried (sv_net sv') h) = FrameMsg (plan_reply x h call_id ?d sv ?se)"
    using execute_last assms(3) unfolding sv' by blast
  moreover have "store_get (sv_state sv') k = plan_effect ?d (sv_state sv) k" for k
    unfolding sv' by (rule execute_effect)
  ultimately show ?thesis
    unfolding Let_def
    by (intro exI [of _ "plan_reply x h call_id ?d sv ?se"] conjI allI) (simp_all add: plan_reply_outcome)
qed

text \<open>
  C23. The client's methods do what they are named for. When the rate limiter, the access-control list and the schema admit
  it, the frame a ready client sends for \<^verbatim>\<open>set\<close> stores the value, for \<^verbatim>\<open>patch\<close> the deep merge of the stored and
  the given object, for \<^verbatim>\<open>set_in\<close> and \<^verbatim>\<open>presence\<close> the stored value with the field at the path replaced, and
  for \<^verbatim>\<open>delete\<close> nothing.
\<close>

theorem client_api_effects:
  assumes "pc_authenticated c" and "fst (take_write_token now se)" and "may_write sv se key"
  shows "(check_schema sv key v = Inr () \<longrightarrow> value_after x now h (sv, se) key (client_set cid key v c) = Some v) \<and>
         (check_schema sv key (json_merge (value_or (Object []) key sv) (Object p)) = Inr () \<longrightarrow>
            value_after x now h (sv, se) key (client_patch cid key (Object p) c) = Some (json_merge (value_or (Object []) key sv) (Object p))) \<and>
         (json_set_in (value_or Null key sv) path v = Inr u \<and> check_schema sv key u = Inr () \<longrightarrow>
            value_after x now h (sv, se) key (ref_set_in cid key path v c) = Some u \<and> value_after x now h (sv, se) key (client_presence cid key path v c) = Some u) \<and>
         value_after x now h (sv, se) key (ref_delete cid key c) = None"
proof -
  note planned = call_sent_value [OF assms(1-3), of _ x h]
  note args = obj_simps plan_of_def plan_effect_def extract_state_and_value_def nested_update_def Let_def
  have "check_schema sv key v = Inr () \<Longrightarrow> value_after x now h (sv, se) key (client_set cid key v c) = Some v"
    by (simp add: value_after_def client_set_def call_sent_def [symmetric] planned args)
  moreover have "value_after x now h (sv, se) key (client_patch cid key (Object p) c) = Some (json_merge (value_or (Object []) key sv) (Object p))"
    if "check_schema sv key (json_merge (value_or (Object []) key sv) (Object p)) = Inr ()"
    using that by (simp add: value_or_def value_after_def client_patch_def call_sent_def [symmetric] planned args del: json_merge.simps)
  moreover have "value_after x now h (sv, se) key (ref_set_in cid key path v c) = Some u" "value_after x now h (sv, se) key (client_presence cid key path v c) = Some u"
    if "json_set_in (value_or Null key sv) path v = Inr u" "check_schema sv key u = Inr ()"
    using that 
    by (simp_all add: value_or_def value_after_def ref_set_in_def client_presence_def call_sent_def [symmetric] planned args)
  moreover have "value_after x now h (sv, se) key (ref_delete cid key c) = None"
    by (simp add: value_after_def ref_delete_def call_sent_def [symmetric] planned args)
  ultimately show ?thesis
    by blast
qed

subsection \<open>Witnesses\<close>

definition ready_client :: py_client where
  "ready_client = on_ready (connection_up (client_new None))"

lemma ready_client_simps: "pc_authenticated ready_client" "pc_pending ready_client = []" "pc_outcomes ready_client = []"
  by code_simp+

theorem call_roundtrip_witness:
  "\<exists>r. last (net_carried (sv_net (fst (handle_frame demo_ext 0 0
       (call_sent ''c'' ''state.set'' (json_obj [(''state'', String ''k''), (''value'', Bool True)]) ready_client)
       (demo_server None None, demo_session ''a'')))) 0) = FrameMsg r \<and>
     pc_outcomes (client_frame (PyFrame r) (client_set ''c'' ''k'' (Bool True) ready_client)) =
       [(''c'', Resolved (json_obj [(''version'', json_u64 1)]))] \<and>
     pc_pending (client_frame (PyFrame r) (client_set ''c'' ''k'' (Bool True) ready_client)) = []"
proof -
  let ?args = "json_obj [(''state'', String ''k''), (''value'', Bool True)]"
  let ?c = "(demo_server None None, demo_session ''a'')"
  let ?r = "handle_frame demo_ext 0 0 (call_sent ''c'' ''state.set'' ?args ready_client) ?c"
  have "\<not> net_dead (sv_net (fst ?r)) 0"
    by code_simp
  moreover have "decision 0 ''state.set'' ?args (demo_server None None) (demo_session ''a'') = Store ''k'' (Bool True) None"
    by code_simp
  moreover have "st_version (sv_state (demo_server None None)) = 0"
    by (simp add: demo_server_def store_new_def)
  ultimately show ?thesis
    using call_roundtrip [OF ready_client_simps(1) surjective_pairing [of ?r]]
    by (auto simp: client_set_def outcome_of_def ready_client_simps replied_call_def replied_version_def Let_def)
qed

theorem client_api_effects_witness:
  "value_after demo_ext 0 0 (demo_server None None, demo_session ''a'') ''k'' (client_set ''c'' ''k'' (Bool True) ready_client) =
     Some (Bool True)"
proof -
  have "fst (take_write_token 0 (demo_session ''a''))" "may_write (demo_server None None) (demo_session ''a'') ''k''"
    "check_schema (demo_server None None) ''k'' (Bool True) = Inr ()"
    by code_simp+
  from client_api_effects [OF ready_client_simps(1) this(1,2), where v = "Bool True" and x = demo_ext and h = 0 and cid = "''c''"] this(3)
  show ?thesis
    by blast
qed

end
