(* ===== verification/Middleware.thy ===== *)
theory Middleware
  imports Access_Control Session_State "HOL-Library.Sublist"
begin

section \<open>The middleware crate\<close>

text \<open>
  The model of \<^verbatim>\<open>src/sodp-middleware/src/acl.rs\<close> and \<^verbatim>\<open>rate.rs\<close>, a second access-control engine and a
  second rate limiter. They implement the interfaces of the server's own ones, \<^verbatim>\<open>first_match\<close> and
  \<^verbatim>\<open>window_limiter\<close>. Strings are their UTF-8 bytes; slicing one inside a character panics, which is the value
  \<^const>\<open>None\<close> here. The counter of the limiter wraps around, as in a release build.
\<close>

subsection \<open>Permissions and rules\<close>

datatype mw_permission = Anyone | MatchSub | Specific string

definition permission_from_str :: "string \<Rightarrow> mw_permission" where
  "permission_from_str s = (if s = ''*'' then Anyone else if s = ''{sub}'' then MatchSub else Specific s)"

definition permission_allows :: "mw_permission \<Rightarrow> string option \<Rightarrow> string option \<Rightarrow> bool" where
  "permission_allows p caller_sub key_sub =
     (case caller_sub of
        None \<Rightarrow> False
      | Some caller \<Rightarrow>
          (case p of
             Anyone \<Rightarrow> True
           | MatchSub \<Rightarrow> Some caller = key_sub
           | Specific s \<Rightarrow> caller = s))"

record raw_rule =
  raw_key :: string
  raw_read :: string
  raw_write :: string

record mw_rule =
  key_pattern :: string
  mw_read :: mw_permission
  mw_write :: mw_permission

text \<open>\<^verbatim>\<open>from_file\<close> after the file was read and parsed.\<close>

definition mw_from_file :: "raw_rule list \<Rightarrow> mw_rule list" where
  "mw_from_file = map (\<lambda>r. \<lparr>key_pattern = raw_key r, mw_read = permission_from_str (raw_read r),
                           mw_write = permission_from_str (raw_write r)\<rparr>)"

subsection \<open>Pattern matching\<close>

text \<open>\<^verbatim>\<open>pattern.replace("{sub}", sub)\<close>.\<close>

function expand_sub :: "string \<Rightarrow> string \<Rightarrow> string" where
  "expand_sub sub [] = []"
| "expand_sub sub (c # cs) =
     (case strip_prefix ''{sub}'' (c # cs) of
        Some rest \<Rightarrow> sub @ expand_sub sub rest
      | None \<Rightarrow> c # expand_sub sub cs)"
  by pat_completeness auto
termination
  by (relation "measure (length \<circ> snd)") (auto simp: strip_prefix_eq split: if_splits)

definition inside_char :: "string \<Rightarrow> bool" where
  "inside_char s = (case s of [] \<Rightarrow> False | c # _ \<Rightarrow> 0x80 \<le> (of_char c :: nat) \<and> (of_char c :: nat) < 0xC0)"

function (sequential) glob_match :: "string \<Rightarrow> string \<Rightarrow> bool option"
  and glob_tails :: "string \<Rightarrow> string \<Rightarrow> bool option" where
  "glob_match s [] = Some (s = [])"
| "glob_match s (pc # ps) =
     (if pc = CHR ''*'' then if ps = [] then Some True else glob_tails s ps
      else (case s of
              [] \<Rightarrow> Some False
            | sc # s' \<Rightarrow> if sc = pc then glob_match s' ps else Some False))"
| "glob_tails s ps =
     (if inside_char s then None
      else (case glob_match s ps of
              None \<Rightarrow> None
            | Some True \<Rightarrow> Some True
            | Some False \<Rightarrow> (case s of [] \<Rightarrow> Some False | _ # s' \<Rightarrow> glob_tails s' ps)))"
  by pat_completeness auto
termination
  by (relation "measures [case_sum (\<lambda>(s, p). length p) (\<lambda>(s, p). length p),
        case_sum (\<lambda>_. 0) (\<lambda>(s, p). Suc (length s))]") auto

declare glob_tails.simps [simp del]

lemmas glob_tails_simps [simp] = glob_tails.simps [of "[]"] glob_tails.simps [of "c # s" for c s]

definition pattern_match :: "string \<Rightarrow> string \<Rightarrow> string option \<Rightarrow> string option option option" where
  "pattern_match key pattern sub =
     (let has_sub = sublist ''{sub}'' pattern;
          expanded = (if has_sub then expand_sub (case sub of Some s \<Rightarrow> s | None \<Rightarrow> []) pattern else pattern);
          captured = (if has_sub then sub else None)
      in map_option (\<lambda>m. if m then Some captured else None) (glob_match key expanded))"

subsection \<open>The registry\<close>

fun mw_check :: "mw_rule list \<Rightarrow> string \<Rightarrow> string option \<Rightarrow> (mw_rule \<Rightarrow> mw_permission) \<Rightarrow> bool option" where
  "mw_check [] key sub perm = Some False"
| "mw_check (rule # rs) key sub perm =
     (case pattern_match key (key_pattern rule) sub of
        None \<Rightarrow> None
      | Some (Some key_sub) \<Rightarrow> Some (permission_allows (perm rule) sub key_sub)
      | Some None \<Rightarrow> mw_check rs key sub perm)"

definition mw_can_read :: "mw_rule list \<Rightarrow> string \<Rightarrow> string option \<Rightarrow> bool option" where
  "mw_can_read rs key sub = mw_check rs key sub mw_read"

definition mw_can_write :: "mw_rule list \<Rightarrow> string \<Rightarrow> string option \<Rightarrow> bool option" where
  "mw_can_write rs key sub = mw_check rs key sub mw_write"

subsection \<open>The rate limiter\<close>

record mw_limiter =
  mw_max_per_sec :: u32
  mw_count :: u32
  mw_window :: nat

definition mw_limiter_new :: "nat \<Rightarrow> u32 \<Rightarrow> mw_limiter" where
  "mw_limiter_new now max_ps = \<lparr>mw_max_per_sec = max_ps, mw_count = 0, mw_window = now\<rparr>"

definition mw_allow :: "nat \<Rightarrow> mw_limiter \<Rightarrow> bool \<times> mw_limiter" where
  "mw_allow now l =
     (let l1 = (if as_secs (now - mw_window l) \<ge> 1 then l\<lparr>mw_window := now, mw_count := 0\<rparr> else l);
          l2 = l1\<lparr>mw_count := mw_count l1 + 1\<rparr>
      in (mw_count l2 \<le> mw_max_per_sec l2, l2))"

subsection \<open>The interfaces\<close>

text \<open>A panic in the matcher ends the check, so in the contract of rule lists it counts as a match that grants nothing.\<close>

interpretation mw_rules: first_match
  "\<lambda>rs (key, sub, perm). mw_check rs key sub perm = Some True"
  "\<lambda>r (key, sub, perm). case pattern_match key (key_pattern r) sub of
     None \<Rightarrow> Some None | Some None \<Rightarrow> None | Some (Some key_sub) \<Rightarrow> Some (Some key_sub)"
  "\<lambda>r (key, sub, perm) c. case c of None \<Rightarrow> False | Some key_sub \<Rightarrow> permission_allows (perm r) sub key_sub"
  by unfold_locales (auto split: option.splits)

lemma mw_allow_simps:
  "t - mw_window l < nanos_per_sec \<Longrightarrow>
     mw_allow t l = (mw_count l + 1 \<le> mw_max_per_sec l, l\<lparr>mw_count := mw_count l + 1\<rparr>)"
  "nanos_per_sec \<le> t - mw_window l \<Longrightarrow> mw_allow t l = (1 \<le> mw_max_per_sec l, l\<lparr>mw_window := t, mw_count := 1\<rparr>)"
  using as_secs_ge [of "t - mw_window l"] by (simp_all add: mw_allow_def Let_def)

interpretation mw_limiters: window_limiter mw_allow
  "\<lambda>l. min (unat (mw_count l)) (unat (mw_max_per_sec l))" "\<lambda>l. unat (mw_max_per_sec l)" mw_window
  "\<lambda>l n. unat (mw_count l) + n < 2 ^ 32"
proof unfold_locales
  fix l :: mw_limiter and t n :: nat
  assume room: "unat (mw_count l) + Suc n < 2 ^ 32"
  then have inc: "unat (mw_count l + 1) = Suc (unat (mw_count l))"
    using unat_Suc_u32 [of "mw_count l"] by simp
  then show "fst (mw_allow t l) = (min (unat (mw_count l)) (unat (mw_max_per_sec l)) < unat (mw_max_per_sec l)) \<and>
      min (unat (mw_count (snd (mw_allow t l)))) (unat (mw_max_per_sec (snd (mw_allow t l)))) =
      (if min (unat (mw_count l)) (unat (mw_max_per_sec l)) < unat (mw_max_per_sec l)
       then Suc (min (unat (mw_count l)) (unat (mw_max_per_sec l))) else min (unat (mw_count l)) (unat (mw_max_per_sec l))) \<and>
      mw_window (snd (mw_allow t l)) = mw_window l"
    if "t - mw_window l < nanos_per_sec"
    using that by (auto simp: mw_allow_simps word_le_nat_alt)
  show "fst (mw_allow t l) = (0 < unat (mw_max_per_sec l)) \<and>
      min (unat (mw_count (snd (mw_allow t l)))) (unat (mw_max_per_sec (snd (mw_allow t l)))) = min 1 (unat (mw_max_per_sec l)) \<and>
      mw_window (snd (mw_allow t l)) = t"
    if "nanos_per_sec \<le> t - mw_window l"
    using that by (auto simp: mw_allow_simps word_le_nat_alt Suc_le_eq)
  show "unat (mw_count (snd (mw_allow t l))) + n < 2 ^ 32"
    using room inc by (cases "t - mw_window l < nanos_per_sec") (simp_all add: mw_allow_simps not_less)
qed (simp_all add: mw_allow_def Let_def)

subsection \<open>What a pattern matches\<close>

text \<open>The documented reading: a star stands for any characters, anything else for itself.\<close>

primrec glob_spec :: "string \<Rightarrow> string \<Rightarrow> bool" where
  "glob_spec [] s \<longleftrightarrow> s = []"
| "glob_spec (p # ps) s \<longleftrightarrow>
     (if p = CHR ''*'' then \<exists>pre rest. s = pre @ rest \<and> glob_spec ps rest else \<exists>s'. s = p # s' \<and> glob_spec ps s')"

definition ascii :: "string \<Rightarrow> bool" where
  "ascii s \<longleftrightarrow> (\<forall>c \<in> set s. of_char c < (0x80 :: nat))"

lemma ascii_simps [simp]: "ascii []" "ascii (c # s) \<longleftrightarrow> of_char c < (0x80 :: nat) \<and> ascii s" "ascii (s @ t) \<longleftrightarrow> ascii s \<and> ascii t"
  by (auto simp: ascii_def)

lemma ascii_not_inside: "ascii s \<Longrightarrow> \<not> inside_char s"
  by (cases s) (auto simp: inside_char_def)

lemma glob_tails_split:
  "(\<exists>pre rest. c # s = pre @ rest \<and> P rest) \<longleftrightarrow> P (c # s) \<or> (\<exists>pre rest. s = pre @ rest \<and> P rest)"
  by (metis append_Cons append_Nil append_eq_Cons_conv)

lemma glob_sound:
  "glob_match s p = Some b \<Longrightarrow> b = glob_spec p s"
  "glob_tails s p = Some b \<Longrightarrow> b = (\<exists>pre rest. s = pre @ rest \<and> glob_spec p rest)"
proof (induction s p and s p arbitrary: b and b rule: glob_match_glob_tails.induct)
  case (2 s pc ps)
  show ?case
  proof (cases "pc = CHR ''*''")
    case True
    with 2 show ?thesis
      by (cases "ps = []") auto
  next
    case False
    with 2 show ?thesis
      by (cases s) (auto split: if_splits)
  qed
next
  case (3 s ps)
  show ?case
  proof (cases "glob_match s ps = Some True")
    case True
    then have "glob_spec ps s"
      using 3 by (simp add: glob_tails.simps split: if_splits)
    moreover have "b"
      using True "3.prems" by (simp add: glob_tails.simps split: if_splits)
    ultimately show ?thesis
      by (metis append_Nil)
  next
    case False
    with "3.prems" have f: "glob_match s ps = Some False" "\<not> inside_char s"
      by (auto simp: glob_tails.simps [of s ps] split: if_splits option.splits bool.splits)
    then have "\<not> glob_spec ps s"
      using "3.IH"(1) by blast
    with 3 f show ?thesis
      by (cases s) (auto simp: glob_tails_split)
  qed
qed simp

lemma glob_total:
  "ascii s \<Longrightarrow> glob_match s p \<noteq> None"
  "ascii s \<Longrightarrow> glob_tails s p \<noteq> None"
proof (induction s p and s p rule: glob_match_glob_tails.induct)
  case (2 s pc ps)
  then show ?case
    by (cases s) auto
next
  case (3 s ps)
  then have "\<not> inside_char s"
    by (simp add: ascii_not_inside)
  with 3 show ?case
    by (cases s; cases "glob_match s ps") (auto split: bool.split)
qed simp

lemma glob_ascii: "ascii s \<Longrightarrow> glob_match s p = Some (glob_spec p s)"
  using glob_sound(1) [of s p] glob_total(1) [of s p] by auto

lemma glob_spec_literal: "CHR ''*'' \<notin> set lit \<Longrightarrow> glob_spec (lit @ ps) s \<longleftrightarrow> (\<exists>rest. s = lit @ rest \<and> glob_spec ps rest)"
  by (induction lit arbitrary: s) auto

lemma glob_spec_prefix: "CHR ''*'' \<notin> set lit \<Longrightarrow> glob_spec (lit @ ''*'') s \<longleftrightarrow> prefix lit s"
  by (auto simp: glob_spec_literal prefix_def)

text \<open>Expanding a pattern with one placeholder.\<close>

lemma expand_sub_literal: "CHR ''{'' \<notin> set lit \<Longrightarrow> expand_sub sub (lit @ rest) = lit @ expand_sub sub rest"
  by (induction lit) auto

lemma expand_sub_one:
  "CHR ''{'' \<notin> set pre \<Longrightarrow> CHR ''{'' \<notin> set post \<Longrightarrow> expand_sub sub (pre @ ''{sub}'' @ post) = pre @ sub @ post"
  using expand_sub_literal [of post sub "[]"] by (simp add: expand_sub_literal)

lemma sublist_placeholder: "sublist ''{sub}'' (pre @ ''{sub}'' @ post)"
  by (simp only: sublist_appendI)

text \<open>A rule with one placeholder, a literal around it and a star at the end.\<close>

definition owner_pattern :: "string \<Rightarrow> string \<Rightarrow> string" where
  "owner_pattern pre post = pre @ ''{sub}'' @ post @ ''*''"

lemma pattern_match_owner:
  assumes "CHR ''{'' \<notin> set pre" and "CHR ''{'' \<notin> set post" and "ascii key"
  shows "pattern_match key (owner_pattern pre post) sub =
    Some (if glob_spec ((pre @ (case sub of Some s \<Rightarrow> s | None \<Rightarrow> []) @ post) @ ''*'') key then Some sub else None)"
  using expand_sub_one [of pre "post @ ''*''"] assms sublist_placeholder [of pre "post @ ''*''"]
  by (simp add: pattern_match_def owner_pattern_def Let_def glob_ascii del: append.simps)

text \<open>Rules that do not match are passed over, and without a match nothing is granted.\<close>

lemma mw_default_deny:
  assumes "\<forall>r \<in> set rs. pattern_match key (key_pattern r) sub = Some None"
  shows "mw_check rs key sub perm \<noteq> Some True"
  using mw_rules.default_deny [of rs "(key, sub, perm)"] assms by simp

subsection \<open>Properties\<close>

text \<open>
  C32. The glob matcher is right. Whenever \<^verbatim>\<open>glob_match\<close> returns, it returns whether the pattern, read as
  documented, matches; on ASCII keys it always returns.
\<close>

theorem glob_match_correct:
  "(glob_match s p = Some b \<longrightarrow> b = glob_spec p s) \<and> (ascii s \<longrightarrow> glob_match s p = Some (glob_spec p s))"
  using glob_sound(1) glob_ascii by blast

theorem glob_match_correct_witness:
  "glob_spec ''a*c'' ''abbc'' \<and> \<not> glob_spec ''a*c'' ''abb'' \<and> ascii ''abbc''"
proof -
  have m: "glob_match ''abbc'' ''a*c'' = Some True" "glob_match ''abb'' ''a*c'' = Some False"
    by (simp_all add: inside_char_def)
  then show ?thesis
    using glob_match_correct [of "''abbc''" "''a*c''" True] glob_match_correct [of "''abb''" "''a*c''" False] by simp
qed

text \<open>
  C33. Subject isolation. The first rule is for the keys \<open>pre{sub}post*\<close>, with no brace or star in \<open>pre\<close> and \<open>post\<close>, and
  has the permission \<^verbatim>\<open>{sub}\<close>. To a caller whose subject has no star it grants the ASCII keys that begin with \<open>pre\<close>,
  the subject and \<open>post\<close>, and for every other ASCII key the remaining rules decide as if it were not there. A caller without a
  subject it refuses the keys that begin with \<open>pre\<close> and \<open>post\<close> together, and never grants anything.
\<close>

theorem mw_subject_isolation:
  assumes "CHR ''{'' \<notin> set pre \<union> set post" and "CHR ''*'' \<notin> set pre \<union> set post \<union> set sub" and "ascii key"
    and "key_pattern rule = owner_pattern pre post" and "perm rule = MatchSub"
  shows "mw_check (rule # rs) key (Some sub) perm =
           (if prefix (pre @ sub @ post) key then Some True else mw_check rs key (Some sub) perm) \<and>
         mw_check (rule # rs) key None perm = (if prefix (pre @ post) key then Some False else mw_check rs key None perm)"
  using assms glob_spec_prefix [of "pre @ sub @ post" key] glob_spec_prefix [of "pre @ post" key]
  by (simp add: pattern_match_owner permission_allows_def del: append_assoc)

theorem mw_subject_isolation_witness:
  "mw_check [\<lparr>key_pattern = owner_pattern ''user.'' ''.'', mw_read = MatchSub, mw_write = MatchSub\<rparr>] ''user.alice.x'' (Some ''bob'') mw_write
     = Some False"
  using mw_subject_isolation [of "''user.''" "''.''" "''bob''" "''user.alice.x''"
      "\<lparr>key_pattern = owner_pattern ''user.'' ''.'', mw_read = MatchSub, mw_write = MatchSub\<rparr>" mw_write "[]"]
  by simp

text \<open>
  A star as subject is a wildcard. The subject is put into the pattern before stars are interpreted, so the same rule
  grants a caller whose subject is a star every key of every other subject.
\<close>

theorem mw_subject_injection:
  assumes "CHR ''{'' \<notin> set pre \<union> set post" and "CHR ''*'' \<notin> set pre \<union> set post" and "ascii (pre @ owner @ post @ rest)"
    and "key_pattern rule = owner_pattern pre post" and "perm rule = MatchSub"
  shows "mw_check (rule # rs) (pre @ owner @ post @ rest) (Some ''*'') perm = Some True"
proof -
  have "glob_spec ((pre @ ''*'' @ post) @ ''*'') (pre @ owner @ post @ rest)"
    using assms(2) glob_spec_prefix [of post "post @ rest"] by (auto simp: glob_spec_literal)
  with assms show ?thesis
    by (simp add: pattern_match_owner permission_allows_def)
qed

theorem mw_subject_injection_witness:
  "mw_can_write (mw_from_file [\<lparr>raw_key = ''user.{sub}.*'', raw_read = ''{sub}'', raw_write = ''{sub}''\<rparr>]) ''user.alice.x'' (Some ''*'') = Some True"
  using mw_subject_injection [of "''user.''" "''.''" "''alice''" "''x''"
      "\<lparr>key_pattern = ''user.{sub}.*'', mw_read = MatchSub, mw_write = MatchSub\<rparr>" mw_write "[]"]
  by (simp add: mw_can_write_def mw_from_file_def permission_from_str_def owner_pattern_def)

text \<open>
  The matcher panics on a key with a multi-byte character when a star in the middle of the pattern has to be tried past
  that character's first byte.
\<close>

theorem glob_match_panics:
  assumes "ps \<noteq> []" and "\<not> inside_char (c # d # s)" and "inside_char (d # s)" and "glob_match (c # d # s) ps = Some False"
  shows "glob_match (c # d # s) (CHR ''*'' # ps) = None"
  using assms by simp

theorem glob_match_panics_witness: "glob_match [CHR 0xC3, CHR 0xA9] ''*x'' = None"
  using glob_match_panics [of "''x''" "CHR 0xC3" "CHR 0xA9" "[]"] by (simp add: inside_char_def)

text \<open>The limiter of the crate obeys the same bounds, as long as its counter does not overflow.\<close>

theorem mw_rate_limit_bounds:
  assumes "sorted ts" and "\<forall>t \<in> set ts. a \<le> t \<and> t < a + nanos_per_sec" and "unat (mw_count l) + length ts < 2 ^ 32"
  shows "grants (run_limiter mw_allow l ts) \<le> 2 * unat (mw_max_per_sec l)
    \<and> grants (run_limiter mw_allow (mw_limiter_new a m) ts) = min (length ts) (unat m)"
proof
  have "grants (run_limiter mw_allow l ts) \<le> 2 * unat (mw_max_per_sec l) - min (unat (mw_count l)) (unat (mw_max_per_sec l))"
    using assms by (intro mw_limiters.grants_any_second) auto
  then show "grants (run_limiter mw_allow l ts) \<le> 2 * unat (mw_max_per_sec l)"
    by linarith
  have "\<forall>t \<in> set ts. t - mw_window (mw_limiter_new a m) < nanos_per_sec"
    using assms(2) by (auto simp: mw_limiter_new_def nanos_per_sec_def)
  then show "grants (run_limiter mw_allow (mw_limiter_new a m) ts) = min (length ts) (unat m)"
    using mw_limiters.grants_in_window [of "mw_limiter_new a m" ts] assms(3) by (simp add: mw_limiter_new_def)
qed

end
