(* ===== verification/Server_Races.thy ===== *)
theory Server_Races
  imports Replica_Sync
begin

section \<open>Handlers of two connections at once\<close>

text \<open>
  \<open>Server_System\<close> handles a frame in one step. In \<^verbatim>\<open>src/src/server.rs\<close> each connection has its own task,
  and two handlers can meet between their accesses to shared state. This theory opens two such places:
  \<^verbatim>\<open>subscribe_key\<close>, which registers the subscriber, reads the store and then sends STATE_INIT, against a
  handler that applies a value and then broadcasts the delta; and the calls that read a value, edit it
  and apply the result, against each other.
\<close>

subsection \<open>A subscription against a writer\<close>

datatype watch_phase = Subscribing | Reading | Sending u64 json bool | Watching

fun sending :: "watch_phase \<Rightarrow> bool" where
  "sending (Sending _ _ _) = True"
| "sending _ = False"

record watch_race =
  wr_store :: state_store
  wr_phase :: watch_phase
  wr_writes :: "json list"
  wr_pending :: "(u64 \<times> delta_op list) option"
  wr_wire :: "py_in list"

text \<open>The subscription reads the store and sends what it read.\<close>

definition read_init :: "string \<Rightarrow> watch_race \<Rightarrow> watch_race" where
  "read_init key c =
     c\<lparr>wr_phase := (case store_get (wr_store c) key of
                      Some e \<Rightarrow> Sending (e_version e) (e_value e) True
                    | None \<Rightarrow> Sending 0 Null False)\<rparr>"

definition send_init :: "string \<Rightarrow> u32 \<Rightarrow> u64 \<Rightarrow> watch_race \<Rightarrow> watch_race" where
  "send_init key sid sq c =
     (case wr_phase c of
        Sending version v initialized \<Rightarrow>
          c\<lparr>wr_phase := Watching,
            wr_wire := wr_wire c @ [PyFrame (state_init sid sq key version v initialized None)]\<rparr>
      | _ \<Rightarrow> c)"

text \<open>The writer applies its next value; a change is broadcast, to the watcher too once it is registered.\<close>

definition apply_next :: "encoder \<Rightarrow> string \<Rightarrow> watch_race \<Rightarrow> watch_race" where
  "apply_next enc key c =
     (case wr_writes c of
        [] \<Rightarrow> c
      | v # vs \<Rightarrow>
          (let ((version, ops), s') = store_apply enc (wr_store c) key v
           in c\<lparr>wr_store := s', wr_writes := vs, wr_pending := (if ops = [] then None else Some (version, ops))\<rparr>))"

definition broadcast_change :: "u32 \<Rightarrow> watch_race \<Rightarrow> watch_race" where
  "broadcast_change sid c =
     (case wr_pending c of
        None \<Rightarrow> c
      | Some (version, ops) \<Rightarrow>
          c\<lparr>wr_pending := None,
            wr_wire := wr_wire c @ (if wr_phase c = Subscribing then [] else [PyDelta (unat sid) version ops])\<rparr>)"

text \<open>
  The steps of the two handlers on one key, in any order. With \<open>held\<close> no broadcast comes between the read and the send of
  the subscription; without it, as in the code, nothing keeps them together.
\<close>

inductive watch_step :: "bool \<Rightarrow> encoder \<Rightarrow> string \<Rightarrow> u32 \<Rightarrow> u64 \<Rightarrow> watch_race \<Rightarrow> watch_race \<Rightarrow> bool"
  for held enc key sid sq where
  do_subscribe: "wr_phase c = Subscribing \<Longrightarrow> watch_step held enc key sid sq c (c\<lparr>wr_phase := Reading\<rparr>)"
| do_read: "wr_phase c = Reading \<Longrightarrow> watch_step held enc key sid sq c (read_init key c)"
| do_send: "sending (wr_phase c) \<Longrightarrow> watch_step held enc key sid sq c (send_init key sid sq c)"
| do_write: "wr_pending c = None \<Longrightarrow> wr_writes c \<noteq> [] \<Longrightarrow> watch_step held enc key sid sq c (apply_next enc key c)"
| do_broadcast: "wr_pending c \<noteq> None \<Longrightarrow> held \<longrightarrow> \<not> sending (wr_phase c) \<Longrightarrow>
    watch_step held enc key sid sq c (broadcast_change sid c)"

lemma apply_next_eq:
  "wr_writes c = v # vs \<Longrightarrow> store_apply enc (wr_store c) key v = ((version, ops), s') \<Longrightarrow>
     apply_next enc key c = c\<lparr>wr_store := s', wr_writes := vs, wr_pending := (if ops = [] then None else Some (version, ops))\<rparr>"
  by (simp add: apply_next_def)

definition watch_start :: "state_store \<Rightarrow> json list \<Rightarrow> watch_race" where
  "watch_start s vs = \<lparr>wr_store = s, wr_phase = Subscribing, wr_writes = vs, wr_pending = None, wr_wire = []\<rparr>"

text \<open>The values a replica may hold when the delta of the current value is still to come.\<close>

definition near :: "string \<Rightarrow> watch_race \<Rightarrow> json \<Rightarrow> bool" where
  "near key c v \<longleftrightarrow>
     (case wr_pending c of
        None \<Rightarrow> v = value_of (wr_store c) key
      | Some (_, ops) \<Rightarrow> apply_ops v ops = value_of (wr_store c) key)"

definition watch_inv :: "string \<Rightarrow> u32 \<Rightarrow> watch_race \<Rightarrow> bool" where
  "watch_inv key sid c \<longleftrightarrow>
     values_ok (wr_store c) \<and> list_all replicable (wr_writes c) \<and> complete_inits (wr_wire c) \<and>
     (\<forall>version ops. wr_pending c = Some (version, ops) \<longrightarrow>
        apply_ops (value_of (wr_store c) key) ops = value_of (wr_store c) key) \<and>
     (case wr_phase c of
        Sending _ v _ \<Rightarrow> opened (wr_wire c) = {} \<and> near key c v
      | Watching \<Rightarrow> opened (wr_wire c) = {(unat sid, key)} \<and> near key c (snd (key_view key (wr_wire c)))
      | _ \<Rightarrow> opened (wr_wire c) = {})"

lemma watch_inv_start: "values_ok s \<Longrightarrow> list_all replicable vs \<Longrightarrow> watch_inv key sid (watch_start s vs)"
  by (simp add: watch_inv_def watch_start_def complete_inits_def)

lemma near_write:
  assumes "values_ok (wr_store c)" and "replicable v" and "wr_pending c = None" and "near key c x"
    and "store_apply enc (wr_store c) key v = ((version, ops), s')"
    and "c' = c\<lparr>wr_store := s', wr_writes := vs, wr_pending := (if ops = [] then None else Some (version, ops))\<rparr>"
  shows "near key c' x" and "values_ok s'" and "value_of s' key = v" and "apply_ops v ops = v"
proof -
  have eq: "ops = apply_delta (wr_store c) key v" "s' = snd (store_apply enc (wr_store c) key v)"
    using assms(5) store_apply_result [of enc "wr_store c" key v] by simp_all
  note leads = apply_leads [OF assms(1,2), of key, folded eq(1), unfolded delta_leads_def]
  show val: "value_of s' key = v"
    by (simp add: eq(2) value_of_apply)
  show "values_ok s'"
    unfolding eq(2) by (rule values_ok_apply [OF assms(1,2)])
  show "apply_ops v ops = v"
    using leads by simp
  show "near key c' x"
    using leads assms(3,4) val by (auto simp: near_def assms(6) apply_ops_def)
qed

lemma near_simps [simp]:
  "near key (c\<lparr>wr_phase := p\<rparr>) v = near key c v" "near key (c\<lparr>wr_wire := w\<rparr>) v = near key c v"
  by (auto simp: near_def split: option.splits)

lemma delta_on_wire:
  assumes "opened ms = S"
  shows "opened (ms @ [PyDelta n version ops]) = S"
    and "S = {(n, key)} \<Longrightarrow> snd (key_view key (ms @ [PyDelta n version ops])) = apply_ops (snd (key_view key ms)) ops"
  using assms key_view_streams [of key ms]
  by (simp_all add: opens_def key_view_append key_step_def split_def)

lemma init_on_wire:
  assumes "opened ms = {}"
  shows "opened (ms @ [PyFrame (state_init sid sq key version v i ps)]) = {(unat sid, key)}"
    and "snd (key_view key (ms @ [PyFrame (state_init sid sq key version v i ps)])) = v"
  using assms open_view(1,3) [where ds = "[]" and ms = ms and f = "state_init sid sq key version v i ps"]
    init_of_state_init [of sid sq key version v i ps] by simp_all

lemma complete_wire [simp]:
  "complete_inits [PyDelta n version ops]" "complete_inits [PyFrame (state_init sid sq key version v i ps)]"
  by (simp_all add: complete_inits_def init_of_state_init)

lemma watch_inv_write:
  assumes "watch_inv key sid c" and "wr_pending c = None" and "wr_writes c = v # vs"
    and "store_apply enc (wr_store c) key v = ((version, ops), s')"
  shows "watch_inv key sid (c\<lparr>wr_store := s', wr_writes := vs, wr_pending := (if ops = [] then None else Some (version, ops))\<rparr>)"
proof -
  have c: "values_ok (wr_store c)" "replicable v" "list_all replicable vs"
    using assms(1,3) by (simp_all add: watch_inv_def)
  note put = near_write(1) [OF c(1,2) assms(2) _ assms(4) refl]
  have "near key c (value_of (wr_store c) key)"
    using assms(2) by (simp add: near_def)
  note ok = near_write(2-4) [OF c(1,2) assms(2) this assms(4) refl]
  show ?thesis
    using assms(1) put c(3) ok by (auto simp: watch_inv_def split: watch_phase.splits)
qed

lemma watch_inv_step:
  assumes "watch_step True enc key sid sq c c'" and "watch_inv key sid c"
  shows "watch_inv key sid c'"
  using assms(1)
proof cases
  case do_subscribe
  with assms(2) show ?thesis
    by (simp add: watch_inv_def near_def)
next
  case do_read
  have inv: "values_ok (wr_store c)" "list_all replicable (wr_writes c)" "opened (wr_wire c) = {}"
    "complete_inits (wr_wire c)"
    and pending: "\<And>version ops. wr_pending c = Some (version, ops) \<Longrightarrow>
      apply_ops (value_of (wr_store c) key) ops = value_of (wr_store c) key"
    using assms(2) do_read(2) by (simp_all add: watch_inv_def)
  have "near key (c\<lparr>wr_phase := ph\<rparr>) (value_of (wr_store c) key)" for ph
    using pending by (cases "wr_pending c") (auto simp: near_def)
  then show ?thesis
    unfolding do_read(1) read_init_def watch_inv_def using inv pending
    by (cases "store_get (wr_store c) key") (simp_all add: value_of_def)
next
  case do_send
  then show ?thesis
    using assms(2) by (cases "wr_phase c") (simp_all add: watch_inv_def send_init_def init_on_wire del: opened_simps)
next
  case do_write
  obtain v vs version ops s' where "wr_writes c = v # vs" "store_apply enc (wr_store c) key v = ((version, ops), s')"
    using do_write(3) by (metis list.exhaust prod.exhaust)
  with do_write watch_inv_write [OF assms(2)] show ?thesis
    by (simp add: apply_next_eq)
next
  case do_broadcast
  then show ?thesis
    using assms(2) delta_on_wire(1) [OF refl] delta_on_wire(2) [OF refl, of "wr_wire c" "unat sid" key]
    by (cases "wr_phase c") (auto simp: watch_inv_def near_def broadcast_change_def simp del: opened_simps)
qed

lemma watch_inv_run:
  assumes "(watch_step True enc key sid sq)\<^sup>*\<^sup>* (watch_start s vs) c" and "values_ok s" and "list_all replicable vs"
  shows "watch_inv key sid c"
  using assms(1)
proof induction
  case base
  then show ?case
    by (rule watch_inv_start [OF assms(2,3)])
qed (rule watch_inv_step)


lemma watching_client:
  assumes "complete_inits ms" and "opened ms = {(n, key)}" and "key \<noteq> []" and "is_watching key cl" and "pc_streams cl = []"
  shows "client_get key (client_frames ms cl) = snd (key_view key ms)"
proof -
  have "follows key ms (client_frames ms cl)"
    using assms by (intro client_follows) (simp_all add: single_valued_def)
  then show ?thesis
    using assms(2) by (simp add: follows_def key_view_streams)
qed

text \<open>The schedule in which the send comes last.\<close>

lemma late_init:
  assumes "store_apply enc s key v = ((version, ops), s')" and "ops \<noteq> []"
    and "store_get s key = Some e"
  shows "(watch_step False enc key sid sq)\<^sup>*\<^sup>* (watch_start s [v])
     \<lparr>wr_store = s', wr_phase = Watching, wr_writes = [], wr_pending = None,
      wr_wire = [PyDelta (unat sid) version ops, PyFrame (state_init sid sq key (e_version e) (e_value e) True None)]\<rparr>"
proof -
  let ?step = "watch_step False enc key sid sq"
  let ?c = "\<lambda>st p vs pend w. \<lparr>wr_store = st, wr_phase = p, wr_writes = vs, wr_pending = pend, wr_wire = w\<rparr>"
  let ?send = "Sending (e_version e) (e_value e) True"
  have "?step (watch_start s [v]) (?c s Reading [v] None [])"
    using do_subscribe [of "watch_start s [v]"] by (simp add: watch_start_def)
  moreover have "?step (?c s Reading [v] None []) (?c s ?send [v] None [])"
    using do_read [of "?c s Reading [v] None []" False enc key] assms(3) by (simp add: read_init_def)
  moreover have "?step (?c s ?send [v] None []) (?c s' ?send [] (Some (version, ops)) [])"
    using do_write [of "?c s ?send [v] None []" False enc key] assms(1,2) by (simp add: apply_next_def)
  moreover have "?step (?c s' ?send [] (Some (version, ops)) []) (?c s' ?send [] None [PyDelta (unat sid) version ops])"
    using do_broadcast [of "?c s' ?send [] (Some (version, ops)) []" False] by (simp add: broadcast_change_def)
  moreover have "?step (?c s' ?send [] None [PyDelta (unat sid) version ops])
     (?c s' Watching [] None [PyDelta (unat sid) version ops, PyFrame (state_init sid sq key (e_version e) (e_value e) True None)])"
    using do_send [of "?c s' ?send [] None [PyDelta (unat sid) version ops]" False enc key sid sq] by (simp add: send_init_def)
  ultimately show ?thesis
    by (meson converse_rtranclp_into_rtranclp rtranclp.rtrancl_refl)
qed

subsection \<open>Edits of one key\<close>

text \<open>
  \<^verbatim>\<open>handle_call\<close> in two steps. A call is first planned against the server it finds: rate limit, access-control list and
  arguments are checked, and a call that edits a value reads it from the store, computes the new one and validates it. The
  plan is executed later, when the store may have changed. A pool of calls is interleaved freely.
\<close>

record edit_call =
  ec_now :: nat
  ec_handle :: nat
  ec_session :: session
  ec_frame :: frame

datatype edit_phase = Waiting | Planned plan | Answered

type_synonym edit_pool = "server \<times> edit_phase list"

definition plan_call :: "server \<Rightarrow> edit_call \<Rightarrow> plan" where
  "plan_call sv ec =
     (let args = opt_json (json_get (body (ec_frame ec)) ''args'')
      in case get_str (body (ec_frame ec)) ''method'' of
           None \<Rightarrow> Refuse 400 (''CALL: missing 'method'' @ [CHR 0x27])
         | Some mth \<Rightarrow>
             if \<not> fst (take_write_token (ec_now ec) (ec_session ec)) then Refuse 429 ''rate limit exceeded''
             else if (case get_str args ''state'' of None \<Rightarrow> False | Some key \<Rightarrow> \<not> may_write sv (ec_session ec) key)
             then Refuse 403 ''forbidden''
             else plan_of mth args sv)"

definition execute_call :: "externals \<Rightarrow> edit_call \<Rightarrow> plan \<Rightarrow> server \<Rightarrow> server" where
  "execute_call x ec p sv =
     fst (execute x (ec_handle ec) (stream_id (ec_frame ec))
            (case get_str (body (ec_frame ec)) ''call_id'' of Some s \<Rightarrow> s | None \<Rightarrow> ''unknown'') p
            (sv, if get_str (body (ec_frame ec)) ''method'' = None then ec_session ec
                 else snd (take_write_token (ec_now ec) (ec_session ec))))"

inductive edit_step :: "externals \<Rightarrow> edit_call list \<Rightarrow> edit_pool \<Rightarrow> edit_pool \<Rightarrow> bool" for x ecs where
  do_plan: "i < length ps \<Longrightarrow> ps ! i = Waiting \<Longrightarrow> edit_step x ecs (sv, ps) (sv, ps[i := Planned (plan_call sv (ecs ! i))])"
| do_execute: "i < length ps \<Longrightarrow> ps ! i = Planned p \<Longrightarrow>
    edit_step x ecs (sv, ps) (execute_call x (ecs ! i) p sv, ps[i := Answered])"

text \<open>Both steps of a call with nothing in between are the handler.\<close>

lemma call_alone:
  "execute_call x ec (plan_call sv ec) sv = fst (handle_call x (ec_now ec) (ec_handle ec) (ec_frame ec) (sv, ec_session ec))"
  by (simp add: execute_call_def plan_call_def handle_call_plan Let_def split: option.split)

lemma execute_call_value:
  "value_of (sv_state (execute_call x ec (Store key v p) sv)) k = (if k = key then v else value_of (sv_state sv) k)"
  by (simp add: execute_call_def value_of_def execute_state)

lemma execute_call_config [simp]:
  "sv_acl (execute_call x ec p sv) = sv_acl sv" "sv_schema (execute_call x ec p sv) = sv_schema sv"
  by (simp_all add: execute_call_def)

text \<open>An admitted \<^verbatim>\<open>state.set_in\<close> call on a key with a path below the root, where the schema accepts every value.\<close>

definition set_in_admitted :: "server \<Rightarrow> string \<Rightarrow> edit_call \<Rightarrow> string \<Rightarrow> json \<Rightarrow> bool" where
  "set_in_admitted sv key ec path v \<longleftrightarrow>
     (let args = opt_json (json_get (body (ec_frame ec)) ''args'')
      in get_str (body (ec_frame ec)) ''method'' = Some ''state.set_in'' \<and>
         get_str args ''state'' = Some key \<and> get_str args ''path'' = Some path \<and> json_get args ''value'' = Some v) \<and>
     starts_with_slash path \<and> path \<noteq> ''/'' \<and>
     fst (take_write_token (ec_now ec) (ec_session ec)) \<and> may_write sv (ec_session ec) key \<and>
     (\<forall>u. check_schema sv key u = Inr ())"

definition edited :: "string \<Rightarrow> json \<Rightarrow> json \<Rightarrow> json" where
  "edited path v j = set_in_recursive j (path_parts path) v"

lemma plan_set_in:
  assumes "set_in_admitted sv key ec path v" and "sv_acl sv' = sv_acl sv" and "sv_schema sv' = sv_schema sv"
  shows "plan_call sv' ec = Store key (edited path v (value_of (sv_state sv') key)) None"
proof -
  have "may_write sv' (ec_session ec) key" "check_schema sv' key u = Inr ()" for u
    using assms by (simp_all add: set_in_admitted_def may_write_def check_schema_def)
  then show ?thesis
    using assms(1) by (simp add: plan_call_def plan_of_def nested_update_def set_in_admitted_def edited_def json_set_in_def
        value_of_def opt_json_def Let_def split: option.split)
qed

text \<open>What two such calls can have made of the value, by how far they are.\<close>

fun edit_values :: "string \<Rightarrow> (json \<Rightarrow> json) \<Rightarrow> (json \<Rightarrow> json) \<Rightarrow> json \<Rightarrow> json \<Rightarrow> edit_phase list \<Rightarrow> bool" where
  "edit_values key f g j u [Waiting, Waiting] = (u = j)"
| "edit_values key f g j u [Planned p, Waiting] = (u = j \<and> p = Store key (f j) None)"
| "edit_values key f g j u [Waiting, Planned q] = (u = j \<and> q = Store key (g j) None)"
| "edit_values key f g j u [Planned p, Planned q] = (u = j \<and> p = Store key (f j) None \<and> q = Store key (g j) None)"
| "edit_values key f g j u [Answered, Waiting] = (u = f j)"
| "edit_values key f g j u [Waiting, Answered] = (u = g j)"
| "edit_values key f g j u [Answered, Planned q] = (u = f j \<and> (q = Store key (g j) None \<or> q = Store key (g (f j)) None))"
| "edit_values key f g j u [Planned p, Answered] = (u = g j \<and> (p = Store key (f j) None \<or> p = Store key (f (g j)) None))"
| "edit_values key f g j u [Answered, Answered] = (u \<in> {f j, g j, g (f j), f (g j)})"
| "edit_values key f g j u _ = False"

lemma less_two_cases: "i < length [p, q] \<Longrightarrow> i = 0 \<or> i = Suc 0"
  by auto

lemma edit_values_step:
  assumes "edit_step x [a, b] c c'" and "set_in_admitted sv key a path v" and "set_in_admitted sv key b path' w"
    and "sv_acl (fst c) = sv_acl sv" and "sv_schema (fst c) = sv_schema sv" and "length (snd c) = 2"
    and "edit_values key (edited path v) (edited path' w) j (value_of (sv_state (fst c)) key) (snd c)"
  shows "edit_values key (edited path v) (edited path' w) j (value_of (sv_state (fst c')) key) (snd c') \<and>
    sv_acl (fst c') = sv_acl sv \<and> sv_schema (fst c') = sv_schema sv \<and> length (snd c') = 2"
proof -
  obtain p q where pq: "snd c = [p, q]"
    using assms(6) by (auto simp: length_Suc_conv numeral_2_eq_2)
  note plans = plan_set_in [OF assms(2,4,5)] plan_set_in [OF assms(3-5)]
  from assms(1) show ?thesis
  proof cases
    case (do_plan i ps sv1)
    with pq have "i = 0 \<or> i = Suc 0"
      using less_two_cases by simp
    with do_plan pq assms(4,5,7) plans show ?thesis
      by (cases p; cases q) auto
  next
    case (do_execute i ps r sv1)
    with pq have "i = 0 \<or> i = Suc 0"
      using less_two_cases by simp
    with do_execute pq assms(4,5,7) show ?thesis
      by (cases p; cases q) (auto simp: execute_call_value)
  qed
qed

lemma edit_values_run:
  assumes "(edit_step x [a, b])\<^sup>*\<^sup>* (sv, [Waiting, Waiting]) c"
    and "set_in_admitted sv key a path v" and "set_in_admitted sv key b path' w"
  shows "edit_values key (edited path v) (edited path' w) (value_of (sv_state sv) key) (value_of (sv_state (fst c)) key) (snd c) \<and>
    sv_acl (fst c) = sv_acl sv \<and> sv_schema (fst c) = sv_schema sv \<and> length (snd c) = 2"
  using assms(1)
proof induction
  case (step c1 c2)
  with edit_values_step [OF step(2) assms(2,3)] show ?case
    by blast
qed simp

text \<open>The two schedules of interest: one call after the other, and both planned first.\<close>

lemma edits_in_turn:
  assumes "set_in_admitted sv key a path v" and "set_in_admitted sv key b path' w"
  shows "\<exists>sv'. (edit_step x [a, b])\<^sup>*\<^sup>* (sv, [Waiting, Waiting]) (sv', [Answered, Answered]) \<and>
     value_of (sv_state sv') key = edited path' w (edited path v (value_of (sv_state sv) key))"
proof -
  let ?st = "edit_step x [a, b]"
  let ?p = "plan_call sv a"
  let ?sv1 = "execute_call x a ?p sv"
  let ?q = "plan_call ?sv1 b"
  have "?st (sv, [Waiting, Waiting]) (sv, [Planned ?p, Waiting])" "?st (sv, [Planned ?p, Waiting]) (?sv1, [Answered, Waiting])"
    "?st (?sv1, [Answered, Waiting]) (?sv1, [Answered, Planned ?q])"
    "?st (?sv1, [Answered, Planned ?q]) (execute_call x b ?q ?sv1, [Answered, Answered])"
    using do_plan [of 0 "[Waiting, Waiting]" x "[a, b]" sv] do_execute [of 0 "[Planned ?p, Waiting]" ?p x "[a, b]" sv]
      do_plan [of 1 "[Answered, Waiting]" x "[a, b]" ?sv1] do_execute [of 1 "[Answered, Planned ?q]" ?q x "[a, b]" ?sv1] by simp_all
  then have "?st\<^sup>*\<^sup>* (sv, [Waiting, Waiting]) (execute_call x b ?q ?sv1, [Answered, Answered])"
    by (meson converse_rtranclp_into_rtranclp rtranclp.rtrancl_refl)
  moreover have "value_of (sv_state (execute_call x b ?q ?sv1)) key = edited path' w (edited path v (value_of (sv_state sv) key))"
    using plan_set_in [OF assms(1)] plan_set_in [OF assms(2), of ?sv1] by (simp add: execute_call_value)
  ultimately show ?thesis
    by blast
qed

lemma edits_race:
  assumes "set_in_admitted sv key a path v" and "set_in_admitted sv key b path' w"
  shows "\<exists>sv'. (edit_step x [a, b])\<^sup>*\<^sup>* (sv, [Waiting, Waiting]) (sv', [Answered, Answered]) \<and>
     value_of (sv_state sv') key = edited path' w (value_of (sv_state sv) key)"
proof -
  let ?st = "edit_step x [a, b]"
  let ?p = "plan_call sv a" and ?q = "plan_call sv b"
  let ?sv1 = "execute_call x a ?p sv"
  have "?st (sv, [Waiting, Waiting]) (sv, [Planned ?p, Waiting])" "?st (sv, [Planned ?p, Waiting]) (sv, [Planned ?p, Planned ?q])"
    "?st (sv, [Planned ?p, Planned ?q]) (?sv1, [Answered, Planned ?q])"
    "?st (?sv1, [Answered, Planned ?q]) (execute_call x b ?q ?sv1, [Answered, Answered])"
    using do_plan [of 0 "[Waiting, Waiting]" x "[a, b]" sv] do_plan [of 1 "[Planned ?p, Waiting]" x "[a, b]" sv]
      do_execute [of 0 "[Planned ?p, Planned ?q]" ?p x "[a, b]" sv] do_execute [of 1 "[Answered, Planned ?q]" ?q x "[a, b]" ?sv1]
    by simp_all
  then have "?st\<^sup>*\<^sup>* (sv, [Waiting, Waiting]) (execute_call x b ?q ?sv1, [Answered, Answered])"
    by (meson converse_rtranclp_into_rtranclp rtranclp.rtrancl_refl)
  moreover have "value_of (sv_state (execute_call x b ?q ?sv1)) key = edited path' w (value_of (sv_state sv) key)"
    using plan_set_in [OF assms(2) refl refl] by (simp add: execute_call_value)
  ultimately show ?thesis
    by blast
qed

lemma forks_sym: "forks ks ls = forks ls ks"
  by (induction ks ls rule: forks.induct) auto

lemma edited_at:
  "lookup_in (edited path v j) (path_parts path) = Some v"
  "forks (path_parts path) ls \<Longrightarrow> lookup_in (edited path v j) ls = lookup_in j ls"
  by (simp_all add: edited_def lookup_set_in lookup_set_in_forks)

subsection \<open>Properties\<close>

text \<open>
  C18. A subscription made while the key is being written catches up. The handler that subscribes
  registers, reads the store and sends STATE_INIT; another handler applies values to the key and
  broadcasts each change. All values are well-formed, without slashes in object keys and without an empty key at the root.
  The steps interleave in any way in which no broadcast falls between that read and that send. Once the subscription is made and no broadcast is outstanding, a client that watches
  the key and has processed what it was sent holds the value in the store, even where a delta reached
  it before the STATE_INIT or repeats a change the STATE_INIT contained.
\<close>

theorem watch_catches_up:
  assumes "(watch_step True enc key sid sq)\<^sup>*\<^sup>* (watch_start s vs) c" and "values_ok s" and "list_all replicable vs"
    and "wr_phase c = Watching" and "wr_pending c = None"
    and "key \<noteq> []" and "is_watching key cl" and "pc_streams cl = []"
  shows "client_get key (client_frames (wr_wire c) cl) = value_of (wr_store c) key"
  using watch_inv_run [OF assms(1-3)] watching_client [of "wr_wire c" "unat sid" key cl] assms(4-8)
  by (simp add: watch_inv_def near_def)

text \<open>
  C37. A STATE_INIT can overtake the store. Nothing keeps the read and the send of a subscription
  together: there is a schedule in which another handler applies and broadcasts a value between them. The
  client drops the delta, whose stream it does not know yet, and then takes the old value from the
  STATE_INIT. The subscription is made, nothing is outstanding, and the client holds the old value.
\<close>

theorem late_init_leaves_stale_replica:
  assumes "store_get s key = Some e" and "apply_delta s key v \<noteq> []"
    and "key \<noteq> []" and "is_watching key cl" and "pc_streams cl = []"
  shows "\<exists>c. (watch_step False enc key sid sq)\<^sup>*\<^sup>* (watch_start s [v]) c \<and>
           wr_phase c = Watching \<and> wr_writes c = [] \<and> wr_pending c = None \<and>
           value_of (wr_store c) key = v \<and> client_get key (client_frames (wr_wire c) cl) = e_value e"
proof -
  obtain version ops s' where ap: "store_apply enc s key v = ((version, ops), s')"
    by (metis prod.exhaust)
  then have ops: "ops \<noteq> []" and val: "value_of s' key = v"
    using store_apply_result [of enc s key v] assms(2) value_of_apply [of enc s key v key] by simp_all
  let ?f = "PyFrame (state_init sid sq key (e_version e) (e_value e) True None)"
  have "opened [PyDelta (unat sid) version ops] = {}"
    by (simp add: opens_def)
  then have wire: "opened ([PyDelta (unat sid) version ops] @ [?f]) = {(unat sid, key)}"
    "snd (key_view key ([PyDelta (unat sid) version ops] @ [?f])) = e_value e"
    by (rule init_on_wire)+
  have "complete_inits ([PyDelta (unat sid) version ops] @ [?f])"
    by (simp only: complete_inits_append complete_wire)
  from watching_client [OF this wire(1) assms(3-5)] have
    "client_get key (client_frames [PyDelta (unat sid) version ops, ?f] cl) = e_value e"
    using wire(2) by simp
  with late_init [OF ap ops assms(1), of sid sq] val show ?thesis
    by (intro exI conjI) (assumption | simp)+
qed


definition set_in_call :: "nat \<Rightarrow> string \<Rightarrow> edit_call" where
  "set_in_call h path =
     \<lparr>ec_now = 0, ec_handle = h, ec_session = demo_session ''s'',
      ec_frame = call_frame ''state.set_in'' [(''path'', String path), (''state'', String ''k''), (''value'', Bool True)]\<rparr>"


definition watching_k :: py_client where
  "watching_k = watch ''k'' 0 None (client_new None)"

lemma watching_k_fresh: "is_watching ''k'' watching_k" "pc_streams watching_k = []"
  by (simp_all add: watching_k_def watch_def enter_callback_def client_new_def new_watch_def is_watching_def Let_def)

text \<open>The value is read after it was applied and before its delta goes out, so the delta repeats it.\<close>

theorem watch_catches_up_witness:
  "\<exists>c. (watch_step True (\<lambda>_. None) ''k'' 1 0)\<^sup>*\<^sup>* (watch_start store_new [Bool True]) c \<and> length (wr_wire c) = 2 \<and>
     client_get ''k'' (client_frames (wr_wire c) watching_k) = Bool True"
proof -
  let ?step = "watch_step True (\<lambda>_. None) ''k'' 1 0"
  let ?c = "\<lambda>st p vs pend w. \<lparr>wr_store = st, wr_phase = p, wr_writes = vs, wr_pending = pend, wr_wire = w\<rparr>"
  define s' where "s' = snd (store_apply (\<lambda>_. None) store_new ''k'' (Bool True))"
  let ?ops = "[op_add ''/'' (Bool True)]" and ?f = "PyFrame (state_init 1 0 ''k'' 1 (Bool True) True None)"
  have ap: "store_apply (\<lambda>_. None) store_new ''k'' (Bool True) = ((1, ?ops), s')"
    and get: "store_get s' ''k'' = Some \<lparr>e_version = 1, e_value = Bool True\<rparr>"
    by (simp_all add: s'_def store_apply_def store_new_def store_get_def Let_def)
  let ?final = "?c s' Watching [] None [?f, PyDelta 1 1 ?ops]"
  have "?step (watch_start store_new [Bool True]) (?c store_new Reading [Bool True] None [])"
    using do_subscribe [of "watch_start store_new [Bool True]"] by (simp add: watch_start_def)
  moreover have "?step (?c store_new Reading [Bool True] None []) (?c s' Reading [] (Some (1, ?ops)) [])"
    using do_write [of "?c store_new Reading [Bool True] None []" True "\<lambda>_. None" "''k''"] ap by (simp add: apply_next_def)
  moreover have "?step (?c s' Reading [] (Some (1, ?ops)) []) (?c s' (Sending 1 (Bool True) True) [] (Some (1, ?ops)) [])"
    using do_read [of "?c s' Reading [] (Some (1, ?ops)) []" True "\<lambda>_. None" "''k''"] get by (simp add: read_init_def)
  moreover have "?step (?c s' (Sending 1 (Bool True) True) [] (Some (1, ?ops)) []) (?c s' Watching [] (Some (1, ?ops)) [?f])"
    using do_send [of "?c s' (Sending 1 (Bool True) True) [] (Some (1, ?ops)) []" True "\<lambda>_. None" "''k''" 1 0] by (simp add: send_init_def)
  moreover have "?step (?c s' Watching [] (Some (1, ?ops)) [?f]) ?final"
    using do_broadcast [of "?c s' Watching [] (Some (1, ?ops)) [?f]" True "\<lambda>_. None" "''k''" 1 0] by (simp add: broadcast_change_def)
  ultimately have run: "?step\<^sup>*\<^sup>* (watch_start store_new [Bool True]) ?final"
    by (meson converse_rtranclp_into_rtranclp rtranclp.rtrancl_refl)
  have "values_ok store_new" "list_all replicable [Bool True]"
    by (simp_all add: values_ok_def store_new_def store_get_def replicable_def)
  from watch_catches_up [OF run this _ _ _ watching_k_fresh] run get show ?thesis
    by (intro exI [of _ ?final]) (simp add: value_of_def)
qed

theorem late_init_leaves_stale_replica_witness:
  "\<exists>c. (watch_step False (\<lambda>_. None) ''k'' 1 0)\<^sup>*\<^sup>*
       (watch_start (snd (store_apply (\<lambda>_. None) store_new ''k'' Null)) [Bool True]) c \<and>
     value_of (wr_store c) ''k'' = Bool True \<and> client_get ''k'' (client_frames (wr_wire c) watching_k) = Null"
proof -
  let ?s = "snd (store_apply (\<lambda>_. None) store_new ''k'' Null)"
  have get: "store_get ?s ''k'' = Some \<lparr>e_version = 1, e_value = Null\<rparr>"
    by (simp add: store_get_apply store_new_def)
  have "diff Null (Bool True) \<noteq> []"
    by code_simp
  with get have "apply_delta ?s ''k'' (Bool True) \<noteq> []"
    by (simp add: apply_delta_def)
  from late_init_leaves_stale_replica [OF get this _ watching_k_fresh, of "\<lambda>_. None" 1 0] show ?thesis
    by auto
qed


end
