(* ===== verification/Store_Threads.thy ===== *)
theory Store_Threads
  imports State_Store
begin

section \<open>Concurrent operations on the store\<close>

text \<open>
  \<^verbatim>\<open>StateStore\<close> is shared by all connection tasks without a lock of its own: \<^verbatim>\<open>apply\<close> and \<^verbatim>\<open>delete\<close> of
  \<^verbatim>\<open>src/src/state.rs\<close> are sequences of shorter critical sections (an atomic add, a map access, the
  delta log, the mutex of the on-disk log). Here every call is a thread whose program counter says
  which critical section comes next, and a pool of threads is interleaved freely. A critical section is one step, and so is
  reading the snapshot of a compaction, which the code reads shard by shard; \<open>Store_Locks\<close> has the locks and the shards.

  The lemmas show that a call that runs alone is the operation of the sequential model, that the versions handed out are never shared, and that calls on different keys
  linearise in the order of their versions. \<open>Store_Races\<close> has the two schedules that do go wrong.
\<close>

datatype op_thread =
    ApplyVersion string json
  | ApplyDiff string json u64
  | ApplyInsert string json u64 "delta_op list"
  | DeleteRemove string
  | DeleteVersion string
  | LogDelta log_entry
  | LogDisk log_entry
  | TakeSnapshot log_entry
  | CompactDisk log_entry "log_entry list"
  | Returned "(u64 \<times> delta_op list) option"

type_synonym store_pool = "state_store \<times> op_thread list"

definition thread_of :: "mutation \<Rightarrow> op_thread" where
  "thread_of m = (case m of Apply key v \<Rightarrow> ApplyVersion key v | Delete key \<Rightarrow> DeleteRemove key)"

definition op_returns :: "log_entry \<Rightarrow> op_thread" where
  "op_returns e = Returned (Some (le_version e, le_ops e))"

fun thread_step :: "encoder \<Rightarrow> state_store \<Rightarrow> op_thread \<Rightarrow> state_store \<times> op_thread" where
  "thread_step enc s (ApplyVersion key v) =
     (s\<lparr>st_version := st_version s + 1\<rparr>, ApplyDiff key v (st_version s + 1))"
| "thread_step enc s (ApplyDiff key v version) =
     (s, ApplyInsert key v version
           (case store_get s key of
              Some existing \<Rightarrow> diff (e_value existing) v
            | None \<Rightarrow> [op_add ''/'' v]))"
| "thread_step enc s (ApplyInsert key v version ops) =
     (s\<lparr>st_entries := AList.update key \<lparr>e_version = version, e_value = v\<rparr> (st_entries s)\<rparr>,
      if ops \<noteq> [] then LogDelta \<lparr>le_version = version, le_key = key, le_ops = ops, le_value = v\<rparr>
      else Returned (Some (version, ops)))"
| "thread_step enc s (DeleteRemove key) =
     (case store_get s key of
        None \<Rightarrow> (s, Returned None)
      | Some _ \<Rightarrow> (s\<lparr>st_entries := AList.delete key (st_entries s)\<rparr>, DeleteVersion key))"
| "thread_step enc s (DeleteVersion key) =
     (s\<lparr>st_version := st_version s + 1\<rparr>,
      LogDelta \<lparr>le_version = st_version s + 1, le_key = key, le_ops = [op_remove ''/''], le_value = Null\<rparr>)"
| "thread_step enc s (LogDelta e) =
     (s\<lparr>st_log := dl_append (st_log s) (le_key e) (le_version e) (le_ops e)\<rparr>,
      if st_plog s = None then op_returns e else LogDisk e)"
| "thread_step enc s (LogDisk e) =
     (case st_plog s of
        None \<Rightarrow> (s, op_returns e)
      | Some lg \<Rightarrow>
          (let lg1 = snd (log_append enc lg e)
           in (s\<lparr>st_plog := Some lg1\<rparr>, if needs_compact lg1 then TakeSnapshot e else op_returns e)))"
| "thread_step enc s (TakeSnapshot e) = (s, CompactDisk e (snapshot_entries s))"
| "thread_step enc s (CompactDisk e snapshot) =
     (case st_plog s of
        None \<Rightarrow> (s, op_returns e)
      | Some lg \<Rightarrow> (s\<lparr>st_plog := Some (snd (compact enc lg snapshot))\<rparr>, op_returns e))"
| "thread_step enc s (Returned r) = (s, Returned r)"

fun has_returned :: "op_thread \<Rightarrow> bool" where
  "has_returned (Returned _) = True"
| "has_returned _ = False"

inductive threads_step :: "encoder \<Rightarrow> store_pool \<Rightarrow> store_pool \<Rightarrow> bool" for enc where
  turn: "i < length ts \<Longrightarrow> \<not> has_returned (ts ! i) \<Longrightarrow> thread_step enc s (ts ! i) = (s', t') \<Longrightarrow>
    threads_step enc (s, ts) (s', ts[i := t'])"

inductive_cases threads_stepE: "threads_step enc c c'"

text \<open>A schedule names the thread that moves next; a thread that has returned stays as it is.\<close>

definition schedule_step :: "encoder \<Rightarrow> store_pool \<Rightarrow> nat \<Rightarrow> store_pool" where
  "schedule_step enc = (\<lambda>(s, ts) i.
     if i < length ts then let (s', t') = thread_step enc s (ts ! i) in (s', ts[i := t']) else (s, ts))"

definition run_schedule :: "encoder \<Rightarrow> store_pool \<Rightarrow> nat list \<Rightarrow> store_pool" where
  "run_schedule enc c sched = foldl (schedule_step enc) c sched"

text \<open>What a call returns: delete of an absent key returns nothing and takes no version.\<close>

definition mutation_result :: "encoder \<Rightarrow> state_store \<Rightarrow> mutation \<Rightarrow> (u64 \<times> delta_op list) option" where
  "mutation_result enc s m =
     (case m of
        Apply key v \<Rightarrow> Some (fst (store_apply enc s key v))
      | Delete key \<Rightarrow> fst (store_delete enc s key))"

subsection \<open>A call that runs alone\<close>

definition alone :: "encoder \<Rightarrow> state_store \<times> op_thread \<Rightarrow> state_store \<times> op_thread" where
  "alone enc = (\<lambda>(s, t). thread_step enc s t)"

lemma alone_returned [simp]: "(alone enc ^^ n) (s, Returned r) = (s, Returned r)"
  by (induction n) (simp_all add: alone_def)

lemma alone_Suc: "(alone enc ^^ Suc n) (s, t) = (alone enc ^^ n) (thread_step enc s t)"
  by (simp add: alone_def funpow_swap1)

text \<open>The shared tail: delta log, disk, compaction.\<close>

lemma alone_log:
  "(alone enc ^^ 4) (s, LogDelta e) =
     (persist enc (s\<lparr>st_log := dl_append (st_log s) (le_key e) (le_version e) (le_ops e)\<rparr>) e,
      Returned (Some (le_version e, le_ops e)))"
  by (simp add: numeral_eq_Suc alone_Suc op_returns_def persist_def compact_plog_def Let_def
      snapshot_entries_def del: funpow.simps split: option.split)

lemma alone_apply:
  "(alone enc ^^ 7) (s, ApplyVersion key v) =
     (snd (store_apply enc s key v), Returned (Some (fst (store_apply enc s key v))))"
proof -
  have "(alone enc ^^ 7) (s, ApplyVersion key v) =
      (alone enc ^^ 4) ((alone enc ^^ 3) (s, ApplyVersion key v))"
    by (simp flip: funpow_add comp_apply [of "alone enc ^^ 4"])
  also have "\<dots> = (snd (store_apply enc s key v), Returned (Some (fst (store_apply enc s key v))))"
    by (cases "apply_delta s key v = []")
      (simp_all add: numeral_3_eq_3 alone_Suc alone_log store_apply_def Let_def apply_delta_def store_get_def
        del: funpow.simps)
  finally show ?thesis .
qed

lemma alone_delete:
  "(alone enc ^^ 7) (s, DeleteRemove key) =
     (snd (store_delete enc s key), Returned (fst (store_delete enc s key)))"
proof -
  have log: "(alone enc ^^ 5) (s', LogDelta e) =
     (persist enc (s'\<lparr>st_log := dl_append (st_log s') (le_key e) (le_version e) (le_ops e)\<rparr>) e,
      Returned (Some (le_version e, le_ops e)))" for s' e
    using alone_log [of enc s' e] by (simp add: numeral_eq_Suc alone_def)
  have six: "(alone enc ^^ 7) (s', t) = (alone enc ^^ 6) (thread_step enc s' t)"
    and five: "(alone enc ^^ 6) (s', t) = (alone enc ^^ 5) (thread_step enc s' t)" for s' t
    using alone_Suc [of 6 enc s' t] alone_Suc [of 5 enc s' t] by simp_all
  show ?thesis
    by (cases "store_get s key") (simp_all add: six five log store_delete_def Let_def)
qed

lemma thread_alone:
  "(alone enc ^^ 7) (s, thread_of m) = (mutate enc s m, Returned (mutation_result enc s m))"
  by (cases m) (simp_all add: thread_of_def mutate_def mutation_result_def alone_apply alone_delete)

subsection \<open>Every schedule ends\<close>

fun work_left :: "op_thread \<Rightarrow> nat" where
  "work_left (ApplyVersion _ _) = 7"
| "work_left (ApplyDiff _ _ _) = 6"
| "work_left (ApplyInsert _ _ _ _) = 5"
| "work_left (DeleteRemove _) = 6"
| "work_left (DeleteVersion _) = 5"
| "work_left (LogDelta _) = 4"
| "work_left (LogDisk _) = 3"
| "work_left (TakeSnapshot _) = 2"
| "work_left (CompactDisk _ _) = 1"
| "work_left (Returned _) = 0"

definition pool_work :: "op_thread list \<Rightarrow> nat" where
  "pool_work ts = sum_list (map work_left ts)"

lemma thread_step_works:
  "thread_step enc s t = (s', t') \<Longrightarrow> \<not> has_returned t \<Longrightarrow> work_left t' < work_left t"
  by (cases t) (auto simp: op_returns_def Let_def split: option.splits if_splits)

lemma pool_step_works:
  assumes "threads_step enc c c'"
  shows "pool_work (snd c') < pool_work (snd c)"
  using assms
proof cases
  case (turn i ts s s' t')
  have "work_left (ts ! i) \<le> sum_list (map work_left ts)"
    using turn(3) member_le_sum_list [of "work_left (ts ! i)" "map work_left ts"] by simp
  then show ?thesis
    using turn thread_step_works [OF turn(5,4)]
    by (simp add: pool_work_def map_update sum_list_update)
qed

lemma pool_stuck: "(\<nexists>c'. threads_step enc (s, ts) c') \<longleftrightarrow> list_all has_returned ts"
proof
  assume stuck: "\<nexists>c'. threads_step enc (s, ts) c'"
  show "list_all has_returned ts"
    unfolding list_all_length
  proof (intro allI impI)
    fix i assume "i < length ts"
    then show "has_returned (ts ! i)"
      using stuck turn [of i ts enc s] by (metis surj_pair)
  qed
qed (auto simp: list_all_length elim: threads_stepE)

lemma pool_finishes: "\<exists>s' ts'. (threads_step enc)\<^sup>*\<^sup>* (s, ts) (s', ts') \<and> list_all has_returned ts'"
proof (induction "pool_work ts" arbitrary: s ts rule: less_induct)
  case less
  show ?case
  proof (cases "list_all has_returned ts")
    case False
    then obtain s1 ts1 where step: "threads_step enc (s, ts) (s1, ts1)"
      using pool_stuck [of enc s ts] by auto
    then show ?thesis
      using less [of ts1 s1] pool_step_works [OF step] by (auto intro: converse_rtranclp_into_rtranclp)
  qed blast
qed

subsection \<open>Schedules\<close>

lemma run_schedule_append: "run_schedule enc c (xs @ ys) = run_schedule enc (run_schedule enc c xs) ys"
  by (simp add: run_schedule_def)

lemma run_schedule_solo:
  assumes "i < length ts" and "(alone enc ^^ n) (s, ts ! i) = (s', t')"
  shows "run_schedule enc (s, ts) (replicate n i) = (s', ts[i := t'])"
  using assms(2)
proof (induction n arbitrary: s' t')
  case (Suc n)
  obtain s1 t1 where 1: "(alone enc ^^ n) (s, ts ! i) = (s1, t1)"
    by force
  have "run_schedule enc (s, ts) (replicate (Suc n) i) = schedule_step enc (s1, ts[i := t1]) i"
    using Suc.IH [OF 1] by (simp add: run_schedule_def replicate_append_same [symmetric])
  also have "\<dots> = (s', ts[i := t'])"
    using Suc.prems 1 assms(1) by (simp add: schedule_step_def alone_def)
  finally show ?case .
qed (simp add: run_schedule_def)

lemma run_schedule_reaches: "(threads_step enc)\<^sup>*\<^sup>* c (run_schedule enc c sched)"
proof (induction sched rule: rev_induct)
  case (snoc i sched)
  obtain s ts where c: "run_schedule enc c sched = (s, ts)"
    by force
  have "(threads_step enc)\<^sup>*\<^sup>* (s, ts) (schedule_step enc (s, ts) i)"
  proof (cases "i < length ts \<and> \<not> has_returned (ts ! i)")
    case True
    obtain s' t' where "thread_step enc s (ts ! i) = (s', t')"
      by force
    with True turn [of i ts enc s s' t'] show ?thesis
      by (auto simp: schedule_step_def)
  next
    case False
    have "thread_step enc s t = (s, t)" if "has_returned t" for t
      using that by (cases t) auto
    with False show ?thesis
      by (auto simp: schedule_step_def)
  qed
  with snoc c show ?case
    by (simp add: run_schedule_def)
qed (simp add: run_schedule_def)

subsection \<open>Versions are never shared\<close>

fun version_of :: "op_thread \<Rightarrow> u64 option" where
  "version_of (ApplyDiff _ _ version) = Some version"
| "version_of (ApplyInsert _ _ version _) = Some version"
| "version_of (LogDelta e) = Some (le_version e)"
| "version_of (LogDisk e) = Some (le_version e)"
| "version_of (TakeSnapshot e) = Some (le_version e)"
| "version_of (CompactDisk e _) = Some (le_version e)"
| "version_of (Returned r) = map_option fst r"
| "version_of _ = None"

lemma thread_step_version:
  "thread_step enc s t = (s', t') \<Longrightarrow>
     version_of t' = version_of t \<and> st_version s' = st_version s \<or>
     version_of t = None \<and> version_of t' = Some (st_version s + 1) \<and> st_version s' = st_version s + 1"
  by (cases t) (auto simp: op_returns_def Let_def split: option.splits if_splits)

text \<open>The threads that hold a version, in the order in which they took it from the counter.\<close>

definition took_order :: "u64 \<Rightarrow> nat list \<Rightarrow> store_pool \<Rightarrow> bool" where
  "took_order v0 ord = (\<lambda>(s, ts).
     distinct ord \<and> set ord = {i. i < length ts \<and> version_of (ts ! i) \<noteq> None} \<and>
     (\<forall>j < length ord. version_of (ts ! (ord ! j)) = Some (v0 + of_nat (Suc j))) \<and>
     st_version s = v0 + of_nat (length ord))"

lemma took_order_start: "took_order (st_version s) [] (s, map thread_of ms)"
proof -
  have "version_of (thread_of m) = None" for m
    by (simp add: thread_of_def split: mutation.split)
  then show ?thesis
    by (simp add: took_order_def)
qed

lemma took_order_step:
  assumes "threads_step enc c c'" and "took_order v0 ord c"
  shows "\<exists>ord'. took_order v0 ord' c'"
  using assms(1)
proof cases
  case (turn i ts s s' t')
  have ord: "distinct ord" "set ord = {i. i < length ts \<and> version_of (ts ! i) \<noteq> None}"
    "\<And>j. j < length ord \<Longrightarrow> version_of (ts ! (ord ! j)) = Some (v0 + of_nat (Suc j))"
    "st_version s = v0 + of_nat (length ord)"
    using assms(2) turn(1) by (auto simp: took_order_def)
  from thread_step_version [OF turn(5)] show ?thesis
  proof (elim disjE conjE)
    assume same: "version_of t' = version_of (ts ! i)" "st_version s' = st_version s"
    then have "version_of (ts[i := t'] ! j) = version_of (ts ! j)" for j
      using turn(3) by (cases "j = i") simp_all
    then have "took_order v0 ord c'"
      using ord same turn(2) by (simp add: took_order_def)
    then show ?thesis ..
  next
    assume new: "version_of (ts ! i) = None" "version_of t' = Some (st_version s + 1)"
      "st_version s' = st_version s + 1"
    then have fresh: "i \<notin> set ord"
      using ord(2) by simp
    have "version_of (ts[i := t'] ! ((ord @ [i]) ! j)) = Some (v0 + of_nat (Suc j))"
      if "j < length (ord @ [i])" for j
    proof (cases "j < length ord")
      case True
      then have "ord ! j \<noteq> i"
        using fresh nth_mem by metis
      with True ord(3) show ?thesis
        by (simp add: nth_append)
    next
      case False
      then show ?thesis
        using that new ord(4) turn(3) by (simp add: nth_append less_Suc_eq ac_simps)
    qed
    moreover have "set (ord @ [i]) = {j. j < length (ts[i := t']) \<and> version_of (ts[i := t'] ! j) \<noteq> None}"
      using ord(2) new turn(3) by (auto simp: nth_list_update)
    ultimately have "took_order v0 (ord @ [i]) c'"
      using ord new fresh turn(2) by (simp add: took_order_def ac_simps)
    then show ?thesis ..
  qed
qed

lemma took_order_run:
  assumes "(threads_step enc)\<^sup>*\<^sup>* (s, map thread_of ms) c"
  obtains ord where "took_order (st_version s) ord c"
proof -
  from assms have "\<exists>ord. took_order (st_version s) ord c"
  proof induction
    case base
    then show ?case
      using took_order_start by blast
  next
    case (step c1 c2)
    then show ?case
      using took_order_step by blast
  qed
  with that show thesis
    by blast
qed

lemma pool_run_length: "(threads_step enc)\<^sup>*\<^sup>* c c' \<Longrightarrow> length (snd c') = length (snd c)"
  by (induction rule: rtranclp_induct) (auto elim: threads_stepE)

lemma took_order_length:
  assumes "took_order v0 ord (s, ts)"
  shows "length ord \<le> length ts"
proof -
  have "distinct ord"
    using assms by (simp add: took_order_def)
  then have "length ord = card (set ord)"
    by (simp only: distinct_card)
  also have "\<dots> \<le> card {..<length ts}"
    using assms by (intro card_mono) (auto simp: took_order_def)
  finally show ?thesis
    by simp
qed

lemma unat_plus_small:
  "unat (v :: u64) + n < 2 ^ 64 \<Longrightarrow> unat (v + of_nat n) = unat v + n"
  by (simp add: unat_word_ariths unat_of_nat)

lemma versions_distinct:
  assumes "(threads_step enc)\<^sup>*\<^sup>* (s0, map thread_of ms) (s, ts)"
    and "unat (st_version s0) + length ms < 2 ^ 64"
    and "i < length ts" "j < length ts" "i \<noteq> j"
    and "version_of (ts ! i) = Some v" "version_of (ts ! j) = Some w"
  shows "v \<noteq> w \<and> st_version s0 < v \<and> v \<le> st_version s"
proof -
  obtain ord where ord: "took_order (st_version s0) ord (s, ts)"
    using took_order_run [OF assms(1)] .
  have len: "length ord \<le> length ms"
    using took_order_length [OF ord] pool_run_length [OF assms(1)] by simp
  have "i \<in> set ord" "j \<in> set ord"
    using ord assms(3-7) by (auto simp: took_order_def)
  then obtain a b where ab: "a < length ord" "ord ! a = i" "b < length ord" "ord ! b = j" "a \<noteq> b"
    using assms(5) by (metis in_set_conv_nth)
  have v: "v = st_version s0 + of_nat (Suc a)" "w = st_version s0 + of_nat (Suc b)"
    "st_version s = st_version s0 + of_nat (length ord)"
    using ord ab assms(6,7) by (auto simp: took_order_def)
  have un: "unat (st_version s0 + of_nat n) = unat (st_version s0) + n" if "n \<le> length ord" for n
    using that len assms(2) by (intro unat_plus_small) linarith
  have "unat v = unat (st_version s0) + Suc a" "unat w = unat (st_version s0) + Suc b"
    "unat (st_version s) = unat (st_version s0) + length ord"
    using v un [of "Suc a"] un [of "Suc b"] un [of "length ord"] ab by simp_all
  then show ?thesis
    using ab by (auto simp: word_less_nat_alt word_le_nat_alt)
qed


subsection \<open>Calls on different keys linearise\<close>

text \<open>The part of the store that one key owns: its live entry and its delta log.\<close>

definition owned_view :: "state_store \<Rightarrow> string \<Rightarrow> state_entry option \<times> delta_rec list" where
  "owned_view s key = (store_get s key, dl_entries (st_log s) key)"

definition effective :: "state_store \<Rightarrow> mutation \<Rightarrow> bool" where
  "effective s m \<longleftrightarrow> (case m of Apply _ _ \<Rightarrow> True | Delete key \<Rightarrow> store_get s key \<noteq> None)"

definition mutation_ops :: "state_store \<Rightarrow> mutation \<Rightarrow> delta_op list" where
  "mutation_ops s m = (case m of Apply key v \<Rightarrow> apply_delta s key v | Delete _ \<Rightarrow> [op_remove ''/''])"

definition entry_after :: "mutation \<Rightarrow> u64 \<Rightarrow> state_entry option" where
  "entry_after m version =
     (case m of Apply _ v \<Rightarrow> Some \<lparr>e_version = version, e_value = v\<rparr> | Delete _ \<Rightarrow> None)"

definition view_after :: "state_store \<Rightarrow> mutation \<Rightarrow> u64 \<Rightarrow> state_entry option \<times> delta_rec list" where
  "view_after s m version =
     (entry_after m version,
      let ds = dl_entries (st_log s) (mutation_key m); ops = mutation_ops s m
      in if ops = [] then ds else cap (ds @ [(version, ops)]))"

definition entry_at :: "state_store \<Rightarrow> mutation \<Rightarrow> u64 \<Rightarrow> log_entry" where
  "entry_at s m version =
     \<lparr>le_version = version, le_key = mutation_key m, le_ops = mutation_ops s m,
      le_value = (case m of Apply _ v \<Rightarrow> v | Delete _ \<Rightarrow> Null)\<rparr>"

lemmas mutation_defs = effective_def mutation_ops_def entry_after_def view_after_def entry_at_def mutation_key_def

lemma view_cong:
  assumes "owned_view s (mutation_key m) = owned_view s0 (mutation_key m)"
  shows "effective s m = effective s0 m" and "mutation_ops s m = mutation_ops s0 m"
    and "view_after s m = view_after s0 m"
  using assms by (auto simp: owned_view_def mutation_defs apply_delta_def fun_eq_iff split: mutation.splits)

lemma owned_view_mutate:
  "owned_view (mutate enc s m) k =
     (if effective s m \<and> k = mutation_key m then view_after s m (st_version s + 1) else owned_view s k)"
proof (cases m)
  case (Apply key v)
  then show ?thesis
    by (auto simp: mutate_def owned_view_def mutation_defs store_get_apply dl_entries_append Let_def)
next
  case (Delete key)
  then show ?thesis
    by (cases "store_get s key")
      (auto simp: mutate_def owned_view_def mutation_defs store_get_delete store_delete_absent
        store_delete_parts(4) dl_entries_append Let_def)
qed

lemma st_version_mutate:
  "st_version (mutate enc s m) = (if effective s m then st_version s + 1 else st_version s)"
  by (cases m; cases "store_get s (mutation_key m)")
    (auto simp: mutate_def mutation_defs store_delete_absent store_delete_parts(3))

lemma mutation_result_eq:
  "mutation_result enc s m = (if effective s m then Some (st_version s + 1, mutation_ops s m) else None)"
  by (cases m; cases "store_get s (mutation_key m)")
    (auto simp: mutation_result_def mutation_defs store_apply_result store_delete_absent store_delete_parts(1))

lemma mutate_ineffective: "\<not> effective s m \<Longrightarrow> mutate enc s m = s"
  by (cases m) (auto simp: mutate_def effective_def store_delete_absent)

text \<open>The sequential run, with what each call returns.\<close>

fun run_results :: "encoder \<Rightarrow> state_store \<Rightarrow> mutation list \<Rightarrow> (u64 \<times> delta_op list) option list" where
  "run_results enc s [] = []"
| "run_results enc s (m # ms) = mutation_result enc s m # run_results enc (mutate enc s m) ms"

lemma run_results_append:
  "run_results enc s (xs @ ys) = run_results enc s xs @ run_results enc (foldl (mutate enc) s xs) ys"
  by (induction xs arbitrary: s) simp_all

lemma run_ineffective:
  "list_all (\<lambda>m. \<not> effective s m) ms \<Longrightarrow>
     foldl (mutate enc) s ms = s \<and> run_results enc s ms = map (\<lambda>_. None) ms"
  by (induction ms) (simp_all add: mutate_ineffective mutation_result_eq)

text \<open>Effective calls on distinct keys: the call at position \<open>j\<close> takes the version \<open>j + 1\<close> after the start.\<close>

lemma run_effective:
  fixes v0 :: u64 and enc :: encoder
  assumes "distinct (map mutation_key ms)" and "list_all (effective s) ms"
  defines "v0 \<equiv> st_version s" and "s' \<equiv> foldl (mutate enc) s ms"
  shows "st_version s' = v0 + of_nat (length ms) \<and>
    (\<forall>k. k \<notin> mutation_key ` set ms \<longrightarrow> owned_view s' k = owned_view s k) \<and>
    (\<forall>j < length ms. owned_view s' (mutation_key (ms ! j)) = view_after s (ms ! j) (v0 + of_nat (Suc j))) \<and>
    run_results enc s ms = map (\<lambda>j. Some (v0 + of_nat (Suc j), mutation_ops s (ms ! j))) [0..<length ms]"
  using assms(1,2) unfolding v0_def s'_def
proof (induction ms rule: rev_induct)
  case (snoc m ms)
  let ?s = "foldl (mutate enc) s ms"
  have IH: "st_version ?s = st_version s + of_nat (length ms)"
    "\<And>k. k \<notin> mutation_key ` set ms \<Longrightarrow> owned_view ?s k = owned_view s k"
    "\<And>j. j < length ms \<Longrightarrow>
       owned_view ?s (mutation_key (ms ! j)) = view_after s (ms ! j) (st_version s + of_nat (Suc j))"
    "run_results enc s ms =
       map (\<lambda>j. Some (st_version s + of_nat (Suc j), mutation_ops s (ms ! j))) [0..<length ms]"
    using snoc by auto
  have key: "mutation_key m \<notin> mutation_key ` set ms"
    using snoc.prems(1) by simp
  note same = view_cong [OF IH(2) [OF key]]
  have eff: "effective ?s m"
    using snoc.prems(2) same(1) by simp
  have other: "mutation_key (ms ! j) \<noteq> mutation_key m" if "j < length ms" for j
    using key that by (metis image_eqI nth_mem)
  have results: "run_results enc s (ms @ [m]) =
      map (\<lambda>j. Some (st_version s + of_nat (Suc j), mutation_ops s ((ms @ [m]) ! j))) [0..<length (ms @ [m])]"
    by (simp add: run_results_append IH(4) mutation_result_eq eff same(2) IH(1) nth_append ac_simps)
  show ?case
    using IH(1-3) eff same(3) other results
    by (auto simp: owned_view_mutate st_version_mutate nth_append less_Suc_eq ac_simps)
qed simp


lemma mutation_key_simps [simp]: "mutation_key (Apply key v) = key" "mutation_key (Delete key) = key"
  by (simp_all add: mutation_key_def)

text \<open>
  Where a thread for the call \<open>m\<close> stands, seen from the store \<open>s0\<close> in which all calls began: the part
  of the store its key owns is as at the start, half updated, or as after the call.
\<close>

fun thread_inv :: "state_store \<Rightarrow> mutation \<Rightarrow> state_store \<Rightarrow> op_thread \<Rightarrow> bool" where
  "thread_inv s0 m s (ApplyVersion key v) \<longleftrightarrow> m = Apply key v \<and> owned_view s key = owned_view s0 key"
| "thread_inv s0 m s (ApplyDiff key v _) \<longleftrightarrow> m = Apply key v \<and> owned_view s key = owned_view s0 key"
| "thread_inv s0 m s (ApplyInsert key v _ ops) \<longleftrightarrow>
     m = Apply key v \<and> owned_view s key = owned_view s0 key \<and> ops = mutation_ops s0 m"
| "thread_inv s0 m s (DeleteRemove key) \<longleftrightarrow> m = Delete key \<and> owned_view s key = owned_view s0 key"
| "thread_inv s0 m s (DeleteVersion key) \<longleftrightarrow>
     m = Delete key \<and> effective s0 m \<and> owned_view s key = (None, dl_entries (st_log s0) key)"
| "thread_inv s0 m s (LogDelta e) \<longleftrightarrow>
     effective s0 m \<and> e = entry_at s0 m (le_version e) \<and> le_ops e \<noteq> [] \<and>
     owned_view s (mutation_key m) = (entry_after m (le_version e), dl_entries (st_log s0) (mutation_key m))"
| "thread_inv s0 m s (LogDisk e) \<longleftrightarrow>
     effective s0 m \<and> e = entry_at s0 m (le_version e) \<and> le_ops e \<noteq> [] \<and>
     owned_view s (mutation_key m) = view_after s0 m (le_version e)"
| "thread_inv s0 m s (TakeSnapshot e) \<longleftrightarrow>
     effective s0 m \<and> e = entry_at s0 m (le_version e) \<and>
     owned_view s (mutation_key m) = view_after s0 m (le_version e)"
| "thread_inv s0 m s (CompactDisk e _) \<longleftrightarrow>
     effective s0 m \<and> e = entry_at s0 m (le_version e) \<and>
     owned_view s (mutation_key m) = view_after s0 m (le_version e)"
| "thread_inv s0 m s (Returned r) \<longleftrightarrow>
     (case r of
        None \<Rightarrow> \<not> effective s0 m \<and> owned_view s (mutation_key m) = owned_view s0 (mutation_key m)
      | Some (version, ops) \<Rightarrow>
          effective s0 m \<and> ops = mutation_ops s0 m \<and> owned_view s (mutation_key m) = view_after s0 m version)"

lemma thread_inv_start: "thread_inv s0 m s0 (thread_of m)"
  by (cases m) (simp_all add: thread_of_def)

lemma thread_inv_cong:
  "owned_view s' (mutation_key m) = owned_view s (mutation_key m) \<Longrightarrow> thread_inv s0 m s' t = thread_inv s0 m s t"
  by (cases t) (auto split: option.splits)

lemma store_get_simps [simp]:
  "store_get (s\<lparr>st_version := v\<rparr>) k = store_get s k" "store_get (s\<lparr>st_log := l\<rparr>) k = store_get s k"
  "store_get (s\<lparr>st_plog := p\<rparr>) k = store_get s k"
  "store_get (s\<lparr>st_entries := AList.update key e (st_entries s)\<rparr>) k =
     (if k = key then Some e else store_get s k)"
  "store_get (s\<lparr>st_entries := AList.delete key (st_entries s)\<rparr>) k =
     (if k = key then None else store_get s k)"
  by (simp_all add: store_get_def update_conv' delete_conv')

lemma entry_at_key: "e = entry_at s m v \<Longrightarrow> le_key e = mutation_key m \<and> le_ops e = mutation_ops s m"
  by (simp add: entry_at_def)

lemma thread_step_local:
  assumes "thread_inv s0 m s t" and "thread_step enc s t = (s', t')" and "k \<noteq> mutation_key m"
  shows "owned_view s' k = owned_view s k"
  using assms
  by (cases t)
    (auto simp: owned_view_def mutation_key_def dl_entries_append Let_def split: option.splits dest: entry_at_key)

lemma thread_step_inv:
  assumes "thread_inv s0 m s t" and "thread_step enc s t = (s', t')"
  shows "thread_inv s0 m s' t'"
proof (cases t)
  case (ApplyDiff key v version)
  then show ?thesis
    using assms by (auto simp: owned_view_def mutation_ops_def apply_delta_def)
next
  case (ApplyInsert key v version ops)
  then show ?thesis
    using assms by (auto simp: owned_view_def mutation_defs Let_def)
next
  case (LogDelta e)
  then have e: "effective s0 m" "e = entry_at s0 m (le_version e)" "le_ops e = mutation_ops s0 m"
    "le_ops e \<noteq> []" "le_key e = mutation_key m"
    using assms(1) by (auto dest: entry_at_key)
  with LogDelta assms show ?thesis
    by (auto simp: owned_view_def view_after_def dl_entries_append op_returns_def Let_def)
next
  case (DeleteRemove key)
  then show ?thesis
    using assms by (auto simp: owned_view_def effective_def split: option.splits)
next
  case (DeleteVersion key)
  then show ?thesis
    using assms by (auto simp: owned_view_def mutation_defs)
qed (use assms in \<open>auto simp: owned_view_def op_returns_def Let_def
      split: option.splits if_splits dest: entry_at_key\<close>)

definition pool_inv :: "state_store \<Rightarrow> mutation list \<Rightarrow> store_pool \<Rightarrow> bool" where
  "pool_inv s0 ms = (\<lambda>(s, ts).
     length ts = length ms \<and> (\<forall>i < length ms. thread_inv s0 (ms ! i) s (ts ! i)) \<and>
     (\<forall>k. k \<notin> mutation_key ` set ms \<longrightarrow> owned_view s k = owned_view s0 k))"

lemma pool_inv_step:
  assumes "threads_step enc c c'" and "pool_inv s0 ms c" and "distinct (map mutation_key ms)"
  shows "pool_inv s0 ms c'"
  using assms(1)
proof cases
  case (turn i ts s s' t')
  have inv: "length ts = length ms" "\<And>j. j < length ms \<Longrightarrow> thread_inv s0 (ms ! j) s (ts ! j)"
    "\<And>k. k \<notin> mutation_key ` set ms \<Longrightarrow> owned_view s k = owned_view s0 k"
    using assms(2) turn(1) by (auto simp: pool_inv_def)
  have i: "i < length ms"
    using turn(3) inv(1) by simp
  note here = thread_step_inv [OF inv(2) [OF i] turn(5)]
    and elsewhere = thread_step_local [OF inv(2) [OF i] turn(5)]
  have "thread_inv s0 (ms ! j) s' (ts ! j)" if "j < length ms" "j \<noteq> i" for j
  proof -
    have "mutation_key (ms ! j) \<noteq> mutation_key (ms ! i)"
      using assms(3) i that by (metis length_map nth_eq_iff_index_eq nth_map)
    then show ?thesis
      using inv(2) [OF that(1)] elsewhere thread_inv_cong by blast
  qed
  moreover have "owned_view s' k = owned_view s0 k" if "k \<notin> mutation_key ` set ms" for k
    using that inv(3) elsewhere i by (metis image_eqI nth_mem)
  ultimately show ?thesis
    using here inv(1) i turn(2) by (auto simp: pool_inv_def nth_list_update)
qed

lemma pool_inv_run:
  assumes "(threads_step enc)\<^sup>*\<^sup>* (s0, map thread_of ms) c" and "distinct (map mutation_key ms)"
  shows "pool_inv s0 ms c"
  using assms(1)
proof induction
  case base
  then show ?case
    by (simp add: pool_inv_def thread_inv_start)
next
  case (step c c')
  then show ?case
    using pool_inv_step assms(2) by blast
qed


lemma returned_thread:
  assumes "thread_inv s0 m s t" and "has_returned t"
  shows "if effective s0 m
         then (\<exists>v. version_of t = Some v \<and> t = Returned (Some (v, mutation_ops s0 m)) \<and>
                   owned_view s (mutation_key m) = view_after s0 m v)
         else t = Returned None \<and> owned_view s (mutation_key m) = owned_view s0 (mutation_key m)"
  using assms by (cases t) (auto split: option.splits)

lemma nth_key_distinct:
  "distinct (map mutation_key ms) \<Longrightarrow> i < length ms \<Longrightarrow> j < length ms \<Longrightarrow>
     mutation_key (ms ! i) = mutation_key (ms ! j) \<longleftrightarrow> i = j"
  by (metis length_map nth_eq_iff_index_eq nth_map)

lemma distinct_keys_perm:
  assumes "distinct (map mutation_key ms)" and "distinct ord" and "set ord \<subseteq> {..<length ms}"
  shows "distinct (map mutation_key (map ((!) ms) ord))"
  using assms by (auto simp: distinct_map inj_on_def nth_key_distinct subset_iff)

text \<open>A finished pool: the calls that took a version in the order they took it, and the others.\<close>

definition finished_order :: "state_store \<Rightarrow> mutation list \<Rightarrow> nat list \<Rightarrow> store_pool \<Rightarrow> bool" where
  "finished_order s0 ms ord = (\<lambda>(s, ts).
     distinct ord \<and> set ord = {i. i < length ms \<and> effective s0 (ms ! i)} \<and>
     st_version s = st_version s0 + of_nat (length ord) \<and>
     (\<forall>j < length ord. let m = ms ! (ord ! j); version = st_version s0 + of_nat (Suc j) in
        ts ! (ord ! j) = Returned (Some (version, mutation_ops s0 m)) \<and>
        owned_view s (mutation_key m) = view_after s0 m version) \<and>
     (\<forall>i < length ms. i \<notin> set ord \<longrightarrow> ts ! i = Returned None) \<and>
     (\<forall>k. k \<notin> mutation_key ` set (map ((!) ms) ord) \<longrightarrow> owned_view s k = owned_view s0 k))"

lemma pool_finished:
  assumes "(threads_step enc)\<^sup>*\<^sup>* (s0, map thread_of ms) (s, ts)" and "distinct (map mutation_key ms)"
    and "list_all has_returned ts"
  shows "\<exists>ord. finished_order s0 ms ord (s, ts)"
proof -
  obtain ord where ord: "took_order (st_version s0) ord (s, ts)"
    using took_order_run [OF assms(1)] .
  have inv: "length ts = length ms" "\<And>i. i < length ms \<Longrightarrow> thread_inv s0 (ms ! i) s (ts ! i)"
    "\<And>k. k \<notin> mutation_key ` set ms \<Longrightarrow> owned_view s k = owned_view s0 k"
    using pool_inv_run [OF assms(1,2)] by (auto simp: pool_inv_def)
  have fin: "if effective s0 (ms ! i)
         then (\<exists>v. version_of (ts ! i) = Some v \<and> ts ! i = Returned (Some (v, mutation_ops s0 (ms ! i))) \<and>
                   owned_view s (mutation_key (ms ! i)) = view_after s0 (ms ! i) v)
         else ts ! i = Returned None \<and> owned_view s (mutation_key (ms ! i)) = owned_view s0 (mutation_key (ms ! i))"
    if "i < length ms" for i
    by (rule returned_thread) (use inv(1,2) that assms(3) in \<open>auto simp: list_all_length\<close>)
  have set_ord: "set ord = {i. i < length ms \<and> effective s0 (ms ! i)}"
    using ord inv(1) fin by (fastforce simp: took_order_def split: if_splits)
  have "ts ! (ord ! j) = Returned (Some (st_version s0 + of_nat (Suc j), mutation_ops s0 (ms ! (ord ! j)))) \<and>
      owned_view s (mutation_key (ms ! (ord ! j))) = view_after s0 (ms ! (ord ! j)) (st_version s0 + of_nat (Suc j))"
    if "j < length ord" for j
  proof -
    have "version_of (ts ! (ord ! j)) = Some (st_version s0 + of_nat (Suc j))"
      using ord that by (simp add: took_order_def)
    then show ?thesis
      using fin [of "ord ! j"] set_ord nth_mem [OF that] by auto
  qed
  moreover have "owned_view s k = owned_view s0 k" if k: "k \<notin> mutation_key ` set (map ((!) ms) ord)" for k
  proof (cases "k \<in> mutation_key ` set ms")
    case True
    then obtain i where i: "i < length ms" "k = mutation_key (ms ! i)"
      by (metis image_iff in_set_conv_nth)
    then have "\<not> effective s0 (ms ! i)"
      using k set_ord by auto
    with fin [OF i(1)] i(2) show ?thesis
      by simp
  qed (rule inv(3))
  moreover have "ts ! i = Returned None" if "i < length ms" "i \<notin> set ord" for i
    using fin [OF that(1)] that set_ord by simp
  moreover have "distinct ord" "st_version s = st_version s0 + of_nat (length ord)"
    using ord by (simp_all add: took_order_def)
  ultimately have "finished_order s0 ms ord (s, ts)"
    using set_ord unfolding finished_order_def Let_def by blast
  then show ?thesis ..
qed

text \<open>Running the effective calls in that order gives the same store and the same results.\<close>

lemma finished_run:
  fixes enc :: encoder
  assumes "finished_order s0 ms ord (s, ts)" and "distinct (map mutation_key ms)"
  defines "s1 \<equiv> foldl (mutate enc) s0 (map ((!) ms) ord)"
  shows "owned_view s k = owned_view s1 k" and "st_version s = st_version s1"
    and "map ((!) ts) ord = map Returned (run_results enc s0 (map ((!) ms) ord))"
    and "i < length ms \<Longrightarrow> i \<notin> set ord \<Longrightarrow> \<not> effective s1 (ms ! i)"
proof -
  let ?eff = "map ((!) ms) ord"
  have ord: "distinct ord" "set ord = {i. i < length ms \<and> effective s0 (ms ! i)}"
    "st_version s = st_version s0 + of_nat (length ord)"
    and at: "\<And>j. j < length ord \<Longrightarrow>
      ts ! (ord ! j) = Returned (Some (st_version s0 + of_nat (Suc j), mutation_ops s0 (ms ! (ord ! j))))"
      "\<And>j. j < length ord \<Longrightarrow> owned_view s (mutation_key (ms ! (ord ! j))) =
         view_after s0 (ms ! (ord ! j)) (st_version s0 + of_nat (Suc j))"
    and other: "\<And>k. k \<notin> mutation_key ` set ?eff \<Longrightarrow> owned_view s k = owned_view s0 k"
    using assms(1) by (auto simp: finished_order_def Let_def)
  have "distinct (map mutation_key ?eff)" "list_all (effective s0) ?eff"
    using distinct_keys_perm [OF assms(2) ord(1)] ord(2) by (auto simp: list_all_iff)
  note r = run_effective [OF this, of enc, folded s1_def, unfolded length_map]
  note run = r [THEN conjunct1] r [THEN conjunct2, THEN conjunct1]
    r [THEN conjunct2, THEN conjunct2, THEN conjunct1] r [THEN conjunct2, THEN conjunct2, THEN conjunct2]
  show "owned_view s k = owned_view s1 k"
  proof (cases "k \<in> mutation_key ` set ?eff")
    case True
    then obtain j where "j < length ord" "k = mutation_key (ms ! (ord ! j))"
      by (auto simp: in_set_conv_nth)
    then show ?thesis
      using at(2) [of j] run(3) by simp
  qed (use other run(2) in simp)
  show "st_version s = st_version s1"
    by (simp only: ord(3) run(1))
  show "map ((!) ts) ord = map Returned (run_results enc s0 ?eff)"
    unfolding run(4) by (rule nth_equalityI) (simp_all add: at(1))
  assume i: "i < length ms" "i \<notin> set ord"
  have "mutation_key (ms ! i) \<noteq> mutation_key (ms ! j)" if "j \<in> set ord" for j
    using that i ord(2) nth_key_distinct [OF assms(2) i(1), of j] by auto
  then have "mutation_key (ms ! i) \<notin> mutation_key ` set ?eff"
    by auto
  then show "\<not> effective s1 (ms ! i)"
    using run(2) view_cong(1) [of s1 "ms ! i" s0] i ord(2) by simp
qed

text \<open>The deletes that found nothing come last.\<close>

lemma pool_linearises:
  assumes "(threads_step enc)\<^sup>*\<^sup>* (s0, map thread_of ms) (s, ts)" and "distinct (map mutation_key ms)"
    and "list_all has_returned ts"
  shows "\<exists>perm. distinct perm \<and> set perm = {..<length ms} \<and>
    (\<forall>k. owned_view s k = owned_view (foldl (mutate enc) s0 (map ((!) ms) perm)) k) \<and>
    st_version s = st_version (foldl (mutate enc) s0 (map ((!) ms) perm)) \<and>
    map ((!) ts) perm = map Returned (run_results enc s0 (map ((!) ms) perm))"
proof -
  obtain ord where ord: "finished_order s0 ms ord (s, ts)"
    using pool_finished [OF assms] ..
  note run = finished_run [OF ord assms(2), where enc = enc]
  let ?s = "foldl (mutate enc) s0 (map ((!) ms) ord)"
  define rest where "rest = filter (\<lambda>i. i \<notin> set ord) [0..<length ms]"
  have "list_all (\<lambda>m. \<not> effective ?s m) (map ((!) ms) rest)"
    using run(4) by (simp add: list_all_iff rest_def)
  note none = run_ineffective [OF this, of enc]
  have "map ((!) ts) rest = map Returned (map (\<lambda>_. None) rest)"
    using ord by (simp add: rest_def finished_order_def)
  then have results: "map ((!) ts) (ord @ rest) = map Returned (run_results enc s0 (map ((!) ms) (ord @ rest)))"
    using none run(3) by (simp add: run_results_append comp_def)
  have "distinct (ord @ rest)" "set (ord @ rest) = {..<length ms}"
    using ord by (auto simp: rest_def finished_order_def)
  then show ?thesis
    using run(1,2) none results by (intro exI [of _ "ord @ rest"]) simp
qed


subsection \<open>What reaches the disk\<close>

lemma entry_at_simps:
  "le_version (entry_at s m v) = v" "le_key (entry_at s m v) = mutation_key m"
  "le_ops (entry_at s m v) = mutation_ops s m"
  by (simp_all add: entry_at_def)

text \<open>Without rotation and compaction the record of a call is added at the end, and the log stays ready.\<close>

lemma persist_append:
  assumes "st_plog s = Some lg" and "log_ok enc dec lg" and "stored_ok enc dec e"
    and "entry_count lg < MAX_ENTRIES_PER_SEGMENT" and "\<not> needs_compact lg"
  obtains lg1 where "log_append enc lg e = (Inr (), lg1)" "st_plog (persist enc s e) = Some lg1"
    "log_ok enc dec lg1" "\<not> needs_compact lg1" "entry_count lg1 = entry_count lg + 1"
    "disk_entries dec (log_dir lg1) = disk_entries dec (log_dir lg) @ [e]"
proof -
  let ?lg1 = "lg\<lparr>log_dir := append_bytes (log_dir lg) (writer lg) (entry_bytes enc e),
                 entry_count := entry_count lg + 1\<rparr>"
  have app: "log_append enc lg e = (Inr (), ?lg1)"
    using assms(4) write_entry_ok [OF assms(3)] by (simp add: log_append_def)
  moreover have small: "\<not> needs_compact ?lg1"
    using assms(5) by (simp add: needs_compact_def)
  ultimately have "st_plog (persist enc s e) = Some ?lg1"
    using assms(1) by (simp add: persist_def Let_def)
  from that [OF app this append_here(1) [OF assms(2,3)] small _ append_here(2) [OF assms(2,3)]] show thesis
    by simp
qed

fun compacting :: "op_thread \<Rightarrow> bool" where
  "compacting (TakeSnapshot _) = True"
| "compacting (CompactDisk _ _) = True"
| "compacting _ = False"

fun logged :: "op_thread \<Rightarrow> u64 option" where
  "logged (Returned (Some (version, ops))) = (if ops = [] then None else Some version)"
| "logged _ = None"

definition written :: "state_store \<Rightarrow> mutation list \<Rightarrow> op_thread list \<Rightarrow> log_entry set" where
  "written s0 ms ts = {entry_at s0 (ms ! i) v | i v. i < length ms \<and> logged (ts ! i) = Some v}"

text \<open>
  While nothing is compacted the log holds what it held at the start, followed by one record for each
  call that has returned with a change.
\<close>

definition disk_inv :: "encoder \<Rightarrow> decoder \<Rightarrow> state_store \<Rightarrow> segmented_log \<Rightarrow> mutation list \<Rightarrow> store_pool \<Rightarrow> bool" where
  "disk_inv enc dec s0 lg0 ms = (\<lambda>(s, ts).
     list_all (\<lambda>t. \<not> compacting t) ts \<and>
     (\<exists>lg new. st_plog s = Some lg \<and> log_ok enc dec lg \<and> \<not> needs_compact lg \<and>
        entry_count lg = entry_count lg0 + length new \<and>
        disk_entries dec (log_dir lg) = disk_entries dec (log_dir lg0) @ new \<and>
        distinct (map le_key new) \<and> set new = written s0 ms ts))"

lemma written_update:
  assumes "length ts = length ms" and "i < length ms" and "logged (ts ! i) = None"
  shows "written s0 ms (ts[i := t']) =
     written s0 ms ts \<union> (case logged t' of None \<Rightarrow> {} | Some v \<Rightarrow> {entry_at s0 (ms ! i) v})"
proof -
  have "x \<in> written s0 ms (ts[i := t']) \<longleftrightarrow>
      x \<in> written s0 ms ts \<or> (\<exists>v. logged t' = Some v \<and> x = entry_at s0 (ms ! i) v)" for x
  proof
    assume "x \<in> written s0 ms (ts[i := t'])"
    then obtain j v where "j < length ms" "logged (ts[i := t'] ! j) = Some v" "x = entry_at s0 (ms ! j) v"
      by (auto simp: written_def)
    with assms(1) show "x \<in> written s0 ms ts \<or> (\<exists>v. logged t' = Some v \<and> x = entry_at s0 (ms ! i) v)"
      by (cases "j = i") (auto simp: written_def)
  next
    assume "x \<in> written s0 ms ts \<or> (\<exists>v. logged t' = Some v \<and> x = entry_at s0 (ms ! i) v)"
    then show "x \<in> written s0 ms (ts[i := t'])"
    proof
      assume "x \<in> written s0 ms ts"
      then obtain j v where "j < length ms" "logged (ts ! j) = Some v" "x = entry_at s0 (ms ! j) v"
        by (auto simp: written_def)
      moreover from this have "j \<noteq> i"
        using assms(3) by auto
      ultimately show ?thesis
        by (auto simp: written_def intro!: exI [of _ j])
    qed (use assms(1,2) in \<open>auto simp: written_def intro!: exI [of _ i]\<close>)
  qed
  then show ?thesis
    by (auto split: option.splits)
qed

lemma written_keys: "x \<in> written s0 ms ts \<Longrightarrow> \<exists>i < length ms. logged (ts ! i) \<noteq> None \<and> le_key x = mutation_key (ms ! i)"
  by (auto simp: written_def entry_at_simps)

lemma not_returned_logged: "\<not> has_returned t \<Longrightarrow> logged t = None"
  by (cases t) auto

text \<open>A step other than the append leaves the disk alone and completes no logged call.\<close>

lemma thread_step_disk:
  assumes "thread_step enc s t = (s', t')" and "\<not> has_returned t" and "\<not> compacting t" and "st_plog s \<noteq> None"
    and "\<And>e. t \<noteq> LogDisk e"
  shows "st_plog s' = st_plog s \<and> \<not> compacting t' \<and> logged t' = None"
  using assms by (cases t) (auto split: option.splits if_splits)

lemma new_records_bound:
  assumes "distinct (map le_key new)" and "set new = written s0 ms ts" and "i < length ms"
    and "logged (ts ! i) = None" and "distinct (map mutation_key ms)"
  shows "mutation_key (ms ! i) \<notin> le_key ` set new" and "length new < length ms"
proof -
  show fresh: "mutation_key (ms ! i) \<notin> le_key ` set new"
    using written_keys [of _ s0 ms ts] assms(2-4) nth_key_distinct [OF assms(5) assms(3)] by fastforce
  have sub: "le_key ` set new \<subseteq> mutation_key ` set ms"
    using written_keys [of _ s0 ms ts] assms(2) by fastforce
  have "length new = card (le_key ` set new)"
    using assms(1) distinct_card by fastforce
  also have "\<dots> < card (mutation_key ` set ms)"
    using fresh sub assms(3) by (intro psubset_card_mono) auto
  also have "\<dots> = length ms"
    using assms(5) distinct_card by fastforce
  finally show "length new < length ms" .
qed

lemma disk_inv_step:
  assumes step: "threads_step enc (s, ts) (s', ts')" and inv: "pool_inv s0 ms (s, ts)" "disk_inv enc dec s0 lg0 ms (s, ts)"
    and keys: "distinct (map mutation_key ms)"
    and room: "entry_count lg0 + length ms \<le> MAX_ENTRIES_PER_SEGMENT"
    and stored: "\<And>i v. i < length ms \<Longrightarrow> version_of (ts ! i) = Some v \<Longrightarrow> stored_ok enc dec (entry_at s0 (ms ! i) v)"
  shows "disk_inv enc dec s0 lg0 ms (s', ts')"
  using step
proof cases
  case (turn i t')
  have len: "length ts = length ms"
    using inv(1) by (simp add: pool_inv_def)
  have i: "i < length ms" "logged (ts ! i) = None"
    using turn len not_returned_logged by auto
  obtain lg new where lg: "st_plog s = Some lg" "log_ok enc dec lg" "\<not> needs_compact lg"
    "entry_count lg = entry_count lg0 + length new"
    "disk_entries dec (log_dir lg) = disk_entries dec (log_dir lg0) @ new"
    and new: "distinct (map le_key new)" "set new = written s0 ms ts"
    and calm: "list_all (\<lambda>t. \<not> compacting t) ts"
    using inv(2) by (auto simp: disk_inv_def)
  note fresh = new_records_bound [OF new i keys]
  note upd = written_update [OF len i]
  have calm': "list_all (\<lambda>t. \<not> compacting t) (ts[i := t'])" if "\<not> compacting t'"
    using calm that set_update_subset_insert [of ts i t'] by (auto simp: list_all_iff)
  show ?thesis
  proof (cases "\<exists>e. ts ! i = LogDisk e")
    case True
    then obtain e where e: "ts ! i = LogDisk e"
      by blast
    have "thread_inv s0 (ms ! i) s (LogDisk e)"
      using inv(1) i(1) e by (auto simp: pool_inv_def)
    then have e': "entry_at s0 (ms ! i) (le_version e) = e" "le_ops e \<noteq> []" "le_key e = mutation_key (ms ! i)"
      by (auto dest: entry_at_key)
    obtain lg1 where lg1: "log_append enc lg e = (Inr (), lg1)"
      "log_ok enc dec lg1" "\<not> needs_compact lg1" "entry_count lg1 = entry_count lg + 1"
      "disk_entries dec (log_dir lg1) = disk_entries dec (log_dir lg) @ [e]"
      using persist_append [OF lg(1,2) _ _ lg(3), of e] stored [OF i(1), of "le_version e"] e e' lg(4) fresh(2) room
      by auto
    then show ?thesis
      using turn e e' lg new fresh(1) upd calm'
      by (auto simp: disk_inv_def op_returns_def intro!: exI [of _ "new @ [e]"])
  next
    case False
    then have "st_plog s' = st_plog s" "\<not> compacting t'" "logged t' = None"
      using thread_step_disk [OF turn(4,3)] turn(2) calm lg(1) by (auto simp: list_all_length)
    then show ?thesis
      using turn lg new upd calm' by (auto simp: disk_inv_def)
  qed
qed


text \<open>Every version a call holds is one of the next ones after the start, one for each call.\<close>

lemma version_range:
  assumes "(threads_step enc)\<^sup>*\<^sup>* (s0, map thread_of ms) (s, ts)" and "i < length ms"
    and "version_of (ts ! i) = Some v"
  shows "\<exists>j. Suc j \<le> length ms \<and> v = st_version s0 + of_nat (Suc j) \<and>
    (unat (st_version s0) + length ms < 2 ^ 64 \<longrightarrow> st_version s0 < v \<and> v \<le> st_version s)"
proof -
  obtain ord where ord: "took_order (st_version s0) ord (s, ts)"
    using took_order_run [OF assms(1)] .
  have len: "length ord \<le> length ms" "length ts = length ms"
    using took_order_length [OF ord] pool_run_length [OF assms(1)] by simp_all
  have "i \<in> set ord"
    using ord assms(2,3) len by (simp add: took_order_def)
  then obtain j where j: "j < length ord" "ord ! j = i"
    by (metis in_set_conv_nth)
  then have v: "v = st_version s0 + of_nat (Suc j)" "st_version s = st_version s0 + of_nat (length ord)"
    using ord assms(3) by (auto simp: took_order_def)
  have "st_version s0 < v \<and> v \<le> st_version s" if "unat (st_version s0) + length ms < 2 ^ 64"
    using v j len that unat_plus_small [of "st_version s0" "Suc j"] unat_plus_small [of "st_version s0" "length ord"]
    by (simp add: word_less_nat_alt word_le_nat_alt)
  with v(1) j len show ?thesis
    by (intro exI [of _ j]) simp
qed

text \<open>The codec stores the records the calls may write, whatever version each of them gets.\<close>

definition calls_stored :: "encoder \<Rightarrow> decoder \<Rightarrow> state_store \<Rightarrow> mutation list \<Rightarrow> bool" where
  "calls_stored enc dec s0 ms \<longleftrightarrow>
     list_all (\<lambda>m. list_all (\<lambda>j. stored_ok enc dec (entry_at s0 m (st_version s0 + of_nat (Suc j)))) [0..<length ms]) ms"

lemma disk_inv_run:
  assumes "(threads_step enc)\<^sup>*\<^sup>* (s0, map thread_of ms) c" and "distinct (map mutation_key ms)"
    and "st_plog s0 = Some lg0" "log_ok enc dec lg0" "\<not> needs_compact lg0"
    and "entry_count lg0 + length ms \<le> MAX_ENTRIES_PER_SEGMENT" and "calls_stored enc dec s0 ms"
  shows "disk_inv enc dec s0 lg0 ms c"
  using assms(1)
proof induction
  case base
  have "\<not> compacting (thread_of m)" "logged (thread_of m) = None" for m
    by (simp_all add: thread_of_def split: mutation.split)
  then show ?case
    using assms(3-5) by (auto simp: disk_inv_def written_def list_all_iff intro!: exI [of _ "[]"])
next
  case (step c c')
  obtain s ts s' ts' where c: "c = (s, ts)" "c' = (s', ts')"
    by force
  have "stored_ok enc dec (entry_at s0 (ms ! i) v)" if i: "i < length ms" "version_of (ts ! i) = Some v" for i v
    using version_range [OF step.hyps(1) [unfolded c] i] assms(7) i(1)
    by (fastforce simp: calls_stored_def list_all_iff Suc_le_eq)
  then show ?case
    using disk_inv_step [OF step.hyps(2) [unfolded c] pool_inv_run [OF step.hyps(1) assms(2), unfolded c]
        step.IH [unfolded c] assms(2,6)] c by blast
qed

subsection \<open>The invariant of the store, seen key by key\<close>

lemma pool_distinct:
  assumes "(threads_step enc)\<^sup>*\<^sup>* (s0, ts0) (s, ts)" and "distinct (map fst (st_entries s0))" "distinct (map fst (st_log s0))"
  shows "distinct (map fst (st_entries s)) \<and> distinct (map fst (st_log s))"
proof -
  have thread: "distinct (map fst (st_entries s')) \<and> distinct (map fst (st_log s'))"
    if "thread_step enc s t = (s', t')" "distinct (map fst (st_entries s))" "distinct (map fst (st_log s))" for s t s' t'
    using that by (cases t)
      (auto simp: distinct_update dl_append_def AList.delete_eq Let_def split: option.splits intro: distinct_map_filter)
  have "distinct (map fst (st_entries (fst c))) \<and> distinct (map fst (st_log (fst c)))"
    if "(threads_step enc)\<^sup>*\<^sup>* (s0, ts0) c" for c
    using that
  proof induction
    case (step c c')
    then show ?case
      using thread by (fastforce elim!: threads_stepE)
  qed (use assms(2,3) in simp)
  from this [OF assms(1)] show ?thesis
    by simp
qed

lemma store_ok_views:
  assumes "store_ok s2" and "\<And>k. owned_view s k = owned_view s2 k" and "st_version s = st_version s2"
    and "distinct (map fst (st_entries s))" "distinct (map fst (st_log s))"
  shows "store_ok s"
proof -
  have "e_version (snd x) \<le> st_version s \<and> json_ok (e_value (snd x))" if x: "x \<in> set (st_entries s)" for x
  proof -
    have "store_get s2 (fst x) = Some (snd x)"
      using assms(2) [of "fst x"] map_of_is_SomeI [OF assms(4), of "fst x" "snd x"] x
      by (simp add: owned_view_def store_get_def)
    then show ?thesis
      using assms(1,3) by (auto simp: store_ok_def store_get_def dest!: map_of_SomeD)
  qed
  moreover have "deltas_ok (st_version s) (snd x)" if x: "x \<in> set (st_log s)" for x
  proof -
    have "snd x = dl_entries (st_log s2) (fst x)"
      using assms(2) [of "fst x"] map_of_is_SomeI [OF assms(5), of "fst x" "snd x"] x
      by (simp add: owned_view_def dl_entries_def)
    then show ?thesis
      using deltas_ok_entries [OF assms(1)] assms(3) by simp
  qed
  ultimately show ?thesis
    using assms(4,5) by (simp add: store_ok_def)
qed


definition call_ok :: "mutation \<Rightarrow> bool" where
  "call_ok m \<longleftrightarrow> (case m of Apply _ v \<Rightarrow> replicable v | Delete _ \<Rightarrow> True)"

lemma pool_store_ok:
  assumes run: "(threads_step enc)\<^sup>*\<^sup>* (s0, map thread_of ms) (s, ts)" "distinct (map mutation_key ms)"
      "list_all has_returned ts"
    and s0: "store_ok s0" "unat (st_version s0) + length ms < 2 ^ 64" "list_all call_ok ms"
  shows "store_ok s"
proof -
  obtain perm where perm: "distinct perm" "set perm = {..<length ms}"
    and eq: "\<And>k. owned_view s k = owned_view (foldl (mutate enc) s0 (map ((!) ms) perm)) k"
      "st_version s = st_version (foldl (mutate enc) s0 (map ((!) ms) perm))"
    using pool_linearises [OF run] by blast
  have "length perm = length ms"
    using perm distinct_card by fastforce
  moreover have "list_all call_ok (map ((!) ms) perm)"
    using s0(3) perm(2) by (auto simp: list_all_iff)
  ultimately have "run_ok (mutate enc) mutation_ok s0 (map ((!) ms) perm)"
    using s0(2) by (intro run_ok_mutations) (simp_all add: call_ok_def [abs_def])
  then have "store_ok (foldl (mutate enc) s0 (map ((!) ms) perm))"
    by (rule store_runs.run_inv [OF s0(1)])
  then show ?thesis
    by (rule store_ok_views) (use eq pool_distinct [OF run(1)] s0(1) in \<open>auto simp: store_ok_def\<close>)
qed

text \<open>What a returned call leaves for its key, in terms of the records on disk.\<close>

lemma returned_disk:
  assumes "thread_inv s0 m s t" and "has_returned t" and "store_ok s0" "call_ok m"
    and "mirrors D s0"
    and "\<And>v. logged t = Some v \<Longrightarrow> rec = Some (entry_at s0 m v)"
    and "logged t = None \<Longrightarrow> rec = disk_last D (mutation_key m)"
  shows "case store_get s (mutation_key m) of
      Some x \<Rightarrow> (\<exists>d. rec = Some d \<and> le_value d = e_value x)
    | None \<Rightarrow> (\<forall>d. rec = Some d \<longrightarrow> le_value d = Null)"
proof (cases "logged t")
  case None
  note at = mirrors_at [OF assms(5), of "mutation_key m"]
  from returned_thread [OF assms(1,2)] show ?thesis
  proof (cases "effective s0 m")
    case True
    then obtain v where t: "t = Returned (Some (v, mutation_ops s0 m))"
      "owned_view s (mutation_key m) = view_after s0 m v"
      using returned_thread [OF assms(1,2)] by auto
    with None have "mutation_ops s0 m = []"
      by (simp split: if_splits)
    then obtain key x where m: "m = Apply key x" "apply_delta s0 key x = []"
      by (cases m) (auto simp: mutation_ops_def)
    obtain e where "store_get s0 key = Some e" "e_value e = x"
      using apply_delta_Nil [OF assms(3) _ m(2)] assms(4) m(1) by (auto simp: call_ok_def replicable_def)
    then show ?thesis
      using at t(2) m(1) assms(7) [OF None] by (simp add: owned_view_def view_after_def entry_after_def)
  qed (use at in \<open>simp add: assms(7) [OF None] owned_view_def split: option.splits\<close>)
next
  case (Some v)
  then have "effective s0 m" "owned_view s (mutation_key m) = view_after s0 m v"
    using assms(1,2) by (cases t; auto split: option.splits if_splits)+
  then show ?thesis
    using assms(6) [OF Some]
    by (cases m) (simp_all add: owned_view_def view_after_def entry_after_def entry_at_def)
qed


lemma filter_one_key:
  assumes "distinct (map le_key new)" and "e \<in> set new"
  shows "filter (\<lambda>x. le_key x = le_key e) new = [e]"
  using assms by (induction new) (auto simp: filter_empty_conv image_iff)

lemma disk_last_new:
  assumes "distinct (map le_key new)"
  shows "e \<in> set new \<Longrightarrow> disk_last (D @ new) (le_key e) = Some e"
    and "k \<notin> le_key ` set new \<Longrightarrow> disk_last (D @ new) k = disk_last D k"
proof -
  show "e \<in> set new \<Longrightarrow> disk_last (D @ new) (le_key e) = Some e"
    using filter_one_key [OF assms, of e] by (simp add: disk_last_def)
  assume "k \<notin> le_key ` set new"
  then have "filter (\<lambda>e. le_key e = k) new = []"
    by (auto simp: filter_empty_conv)
  then show "disk_last (D @ new) k = disk_last D k"
    by (simp add: disk_last_def)
qed

lemma sorted_new:
  assumes "sorted_wrt (<) (map le_version (filter (\<lambda>e. le_key e = k) D))" and "distinct (map le_key new)"
    and "\<And>x. x \<in> set D \<Longrightarrow> le_version x \<le> v" and "\<And>x. x \<in> set new \<Longrightarrow> v < le_version x"
  shows "sorted_wrt (<) (map le_version (filter (\<lambda>e. le_key e = k) (D @ new)))"
proof (cases "k \<in> le_key ` set new")
  case True
  then obtain e where e: "e \<in> set new" "k = le_key e"
    by auto
  have "le_version x < le_version e" if "x \<in> set D" for x
    using assms(3) [OF that] assms(4) [OF e(1)] by simp
  then show ?thesis
    using assms(1) e filter_one_key [OF assms(2) e(1)] by (auto simp: sorted_wrt_append)
next
  case False
  then have "filter (\<lambda>e. le_key e = k) new = []"
    by (auto simp: filter_empty_conv)
  with assms(1) show ?thesis
    by simp
qed

lemma pool_version_le:
  assumes "(threads_step enc)\<^sup>*\<^sup>* (s0, map thread_of ms) (s, ts)"
    and "unat (st_version s0) + length ms < 2 ^ 64"
  shows "st_version s0 \<le> st_version s"
proof -
  obtain ord where ord: "took_order (st_version s0) ord (s, ts)"
    using took_order_run [OF assms(1)] .
  then show ?thesis
    using took_order_length [OF ord] pool_run_length [OF assms(1)] assms(2)
      unat_plus_small [of "st_version s0" "length ord"]
    by (simp add: took_order_def word_le_nat_alt)
qed

lemma written_records:
  assumes run: "(threads_step enc)\<^sup>*\<^sup>* (s0, map thread_of ms) (s, ts)"
    and s0: "unat (st_version s0) + length ms < 2 ^ 64" "list_all call_ok ms"
    and x: "x \<in> written s0 ms ts"
  shows "st_version s0 < le_version x \<and> le_version x \<le> st_version s \<and> json_ok (le_value x)"
proof -
  obtain i v where i: "i < length ms" "logged (ts ! i) = Some v" "x = entry_at s0 (ms ! i) v"
    using x unfolding written_def by blast
  then have "version_of (ts ! i) = Some v"
    by (cases "ts ! i" rule: logged.cases) (auto split: if_splits)
  moreover have "json_ok (le_value x)"
    using i s0(2) by (auto simp: entry_at_def list_all_length call_ok_def replicable_def split: mutation.splits)
  ultimately show ?thesis
    using version_range [OF run i(1)] s0(1) i(3) by (auto simp: entry_at_simps)
qed

lemma pool_mirrors_at:
  assumes run: "(threads_step enc)\<^sup>*\<^sup>* (s0, map thread_of ms) (s, ts)" "distinct (map mutation_key ms)"
      "list_all has_returned ts"
    and s0: "store_ok s0" "list_all call_ok ms" "mirrors D s0"
    and new: "distinct (map le_key new)" "set new = written s0 ms ts"
  shows "case store_get s k of
      None \<Rightarrow> \<forall>d. disk_last (D @ new) k = Some d \<longrightarrow> le_value d = Null
    | Some x \<Rightarrow> \<exists>d. disk_last (D @ new) k = Some d \<and> le_value d = e_value x"
proof -
  have inv: "length ts = length ms" "\<And>i. i < length ms \<Longrightarrow> thread_inv s0 (ms ! i) s (ts ! i)"
    "\<And>k. k \<notin> mutation_key ` set ms \<Longrightarrow> owned_view s k = owned_view s0 k"
    using pool_inv_run [OF run(1,2)] by (auto simp: pool_inv_def)
  show ?thesis
  proof (cases "k \<in> mutation_key ` set ms")
    case True
    then obtain i where i: "i < length ms" "k = mutation_key (ms ! i)"
      by (metis image_iff in_set_conv_nth)
    have "mutation_key (ms ! i) \<notin> le_key ` set new" if "logged (ts ! i) = None"
      by (rule new_records_bound(1) [OF new i(1) that run(2)])
    moreover have "entry_at s0 (ms ! i) v \<in> set new" if "logged (ts ! i) = Some v" for v
      using that i(1) unfolding new(2) written_def by blast
    ultimately show ?thesis
      unfolding i(2) using s0 inv i(1) run(3) disk_last_new [OF new(1), where D = D]
      by (intro returned_disk [where t = "ts ! i" and D = D])
        (fastforce simp: list_all_length entry_at_simps)+
  next
    case False
    then have "k \<notin> le_key ` set new"
      using written_keys [of _ s0 ms ts] new(2) by fastforce
    then show ?thesis
      using inv(3) [OF False] mirrors_at [OF s0(3), of k] disk_last_new(2) [OF new(1), of k D]
      by (simp add: owned_view_def split: option.splits)
  qed
qed

lemma pool_mirrors:
  assumes run: "(threads_step enc)\<^sup>*\<^sup>* (s0, map thread_of ms) (s, ts)" "distinct (map mutation_key ms)"
      "list_all has_returned ts"
    and s0: "store_ok s0" "unat (st_version s0) + length ms < 2 ^ 64" "list_all call_ok ms" "mirrors D s0"
    and new: "distinct (map le_key new)" "set new = written s0 ms ts"
  shows "mirrors (D @ new) s"
  unfolding mirrors_def
proof (intro conjI allI ballI)
  note ver = written_records [OF run(1) s0(2,3), folded new(2)]
  have old: "le_version x \<le> st_version s0 \<and> json_ok (le_value x)" if "x \<in> set D" for x
    using s0(4) that by (simp add: mirrors_def)
  {
    fix x assume "x \<in> set (D @ new)"
    then show "le_version x \<le> st_version s" "json_ok (le_value x)"
      using ver old pool_version_le [OF run(1) s0(2)] by (auto intro: order_trans)
  next
    fix k
    show "sorted_wrt (<) (map le_version (filter (\<lambda>e. le_key e = k) (D @ new)))"
      by (rule sorted_new [where v = "st_version s0", OF _ new(1)])
        (use s0(4) ver old in \<open>auto simp: mirrors_def\<close>)
  }
qed (rule pool_mirrors_at [OF run s0(1,3,4) new])

lemma pool_durable:
  assumes run: "(threads_step enc)\<^sup>*\<^sup>* (s0, map thread_of ms) (s, ts)" "distinct (map mutation_key ms)"
      "list_all has_returned ts"
    and s0: "durable enc dec s0" "st_plog s0 = Some lg" "\<not> needs_compact lg"
      "entry_count lg + length ms \<le> MAX_ENTRIES_PER_SEGMENT"
      "unat (st_version s0) + length ms < 2 ^ 64"
    and ms: "list_all call_ok ms" "calls_stored enc dec s0 ms"
  shows "durable enc dec s"
proof -
  have lg: "store_ok s0" "log_ok enc dec lg" "mirrors (disk_entries dec (log_dir lg)) s0"
    using s0(1,2) by (simp_all add: durable_def)
  have "disk_inv enc dec s0 lg ms (s, ts)"
    by (rule disk_inv_run [OF run(1,2) s0(2) lg(2) s0(3,4) ms(2)])
  then obtain lg' new where "st_plog s = Some lg'" "log_ok enc dec lg'"
    "disk_entries dec (log_dir lg') = disk_entries dec (log_dir lg) @ new"
    and new: "distinct (map le_key new)" "set new = written s0 ms ts"
    by (auto simp: disk_inv_def)
  then show ?thesis
    using pool_mirrors [OF run lg(1) s0(5) ms(1) lg(3) new] pool_store_ok [OF run lg(1) s0(5) ms(1)]
    by (simp add: durable_def)
qed


subsection \<open>Properties\<close>

text \<open>
  C6. Concurrent \<^verbatim>\<open>apply\<close> and \<^verbatim>\<open>delete\<close> calls on different keys are linearisable. However the critical
  sections of such calls are interleaved, when all have returned there is an order of the calls such
  that running them one after the other gives the same live entry with the same version and the same
  delta log for every key, the same version counter, and to every call the same result.
\<close>

theorem concurrent_calls_linearise:
  assumes "(threads_step enc)\<^sup>*\<^sup>* (s0, map thread_of ms) (s, ts)" and "distinct (map mutation_key ms)"
    and "list_all has_returned ts"
  shows "\<exists>perm. distinct perm \<and> set perm = {..<length ms} \<and>
    (\<forall>k. store_get s k = store_get (foldl (mutate enc) s0 (map ((!) ms) perm)) k \<and>
         dl_entries (st_log s) k = dl_entries (st_log (foldl (mutate enc) s0 (map ((!) ms) perm))) k) \<and>
    st_version s = st_version (foldl (mutate enc) s0 (map ((!) ms) perm)) \<and>
    map ((!) ts) perm = map Returned (run_results enc s0 (map ((!) ms) perm))"
  using pool_linearises [OF assms] by (simp add: owned_view_def)


text \<open>
  Concurrent calls never share a version. In every interleaving of calls, on the same key or not,
  two calls that have taken a version have different ones, above the counter at the start and not
  above the counter now, as long as the counter does not wrap.
\<close>

theorem concurrent_versions_distinct:
  assumes "(threads_step enc)\<^sup>*\<^sup>* (s0, map thread_of ms) (s, ts)"
    and "unat (st_version s0) + length ms < 2 ^ 64"
    and "i < length ts" and "j < length ts" and "i \<noteq> j"
    and "version_of (ts ! i) = Some v" and "version_of (ts ! j) = Some w"
  shows "v \<noteq> w \<and> st_version s0 < v \<and> v \<le> st_version s"
  using assms by (rule versions_distinct)

subsection \<open>Witnesses\<close>

definition demo_calls :: "mutation list" where
  "demo_calls = [Apply ''k'' (Bool True), Delete ''x'', Apply ''y'' Null]"

definition demo_pool :: store_pool where
  "demo_pool = run_schedule (\<lambda>_. None) (store_new, map thread_of demo_calls) [0, 2, 2, 1, 0, 2, 0, 0, 2]"

lemma demo_pool_run: "(threads_step (\<lambda>_. None))\<^sup>*\<^sup>* (store_new, map thread_of demo_calls) (fst demo_pool, snd demo_pool)"
  using run_schedule_reaches [of "\<lambda>_. None" "(store_new, map thread_of demo_calls)"]
  unfolding demo_pool_def prod.collapse .

lemma demo_pool_threads:
  "snd demo_pool = [Returned (Some (1, [op_add ''/'' (Bool True)])), Returned None, Returned (Some (2, [op_add ''/'' Null]))]"
  by code_simp

theorem concurrent_calls_linearise_witness:
  "\<exists>perm. distinct perm \<and> set perm = {..<length demo_calls} \<and>
    (\<forall>k. store_get (fst demo_pool) k = store_get (foldl (mutate (\<lambda>_. None)) store_new (map ((!) demo_calls) perm)) k \<and>
         dl_entries (st_log (fst demo_pool)) k =
           dl_entries (st_log (foldl (mutate (\<lambda>_. None)) store_new (map ((!) demo_calls) perm))) k) \<and>
    st_version (fst demo_pool) = st_version (foldl (mutate (\<lambda>_. None)) store_new (map ((!) demo_calls) perm)) \<and>
    map ((!) (snd demo_pool)) perm = map Returned (run_results (\<lambda>_. None) store_new (map ((!) demo_calls) perm))"
  using concurrent_calls_linearise [OF demo_pool_run]
  by (simp add: demo_pool_threads demo_calls_def)

theorem concurrent_versions_distinct_witness:
  "(1 :: u64) \<noteq> 2 \<and> st_version store_new < 1 \<and> 1 \<le> st_version (fst demo_pool)"
  using concurrent_versions_distinct [OF demo_pool_run, of 0 2 1 2]
  by (simp add: demo_pool_threads demo_calls_def store_new_def)

text \<open>Two writes on a fresh persistent store, with a codec that knows every record they may leave.\<close>

definition pool_table :: "log_entry list" where
  "pool_table =
     [\<lparr>le_version = v, le_key = k, le_ops = [op_add ''/'' Null], le_value = Null\<rparr>.
        k \<leftarrow> [''k'', ''x''], v \<leftarrow> [1, 2]]"

lemma pool_table_stored: "e \<in> set pool_table \<Longrightarrow> stored_ok (table_enc pool_table) (table_dec pool_table) e"
  by (auto simp: pool_table_def stored_ok_def table_enc_def table_dec_def upt_rec)

definition two_writes :: "mutation list" where
  "two_writes = [Apply ''k'' Null, Apply ''x'' Null]"


end
