(* ===== verification/Store_Locks.thy ===== *)
theory Store_Locks
  imports Store_Threads
begin

section \<open>The locks of the store\<close>

text \<open>
  \<open>Store_Threads\<close> takes a critical section of \<^verbatim>\<open>src/src/state.rs\<close> as one step. Here the locks are explicit: the
  shards of the two \<^verbatim>\<open>DashMap\<close>s, which have readers and writers, and the mutex of the on-disk log. A thread asks
  for the lock of its section, waits until it is granted, works, and drops the guard; no lock is reentrant. The snapshot
  of a compaction is read shard by shard, each under its own guard, with other calls in between.

  \<^verbatim>\<open>DashMap\<close> is outside the program. Which shard of either map a key belongs to and how many shards
  \<^verbatim>\<open>entries\<close> has are parameters; that \<^verbatim>\<open>get\<close> and \<^verbatim>\<open>iter\<close> hold a shared guard of one shard at a time, and
  \<^verbatim>\<open>insert\<close>, \<^verbatim>\<open>remove\<close> and \<^verbatim>\<open>entry\<close> an exclusive one, is its documented behaviour.

  The lemmas show that guards exclude each other, that no thread ever waits while it holds one, so that the calls
  cannot deadlock and all return, and that every run does to the memory what a run of \<open>threads_step\<close> does.
\<close>

datatype store_lock = EntryShard nat | DeltaShard nat | DiskMutex

datatype access = Shared | Exclusive

record shards =
  entry_shard :: "string \<Rightarrow> nat"
  delta_shard :: "string \<Rightarrow> nat"
  entry_shards :: nat

datatype lock_code =
    Enter op_thread
  | Work op_thread
  | Leave op_thread
  | Snap log_entry nat "log_entry list"
  | SnapHeld log_entry nat "log_entry list"

record locked_thread =
  lt_code :: lock_code
  lt_held :: "(store_lock \<times> access) list"

type_synonym locked_pool = "state_store \<times> locked_thread list"

text \<open>The guard of a critical section. The version counter is an atomic, the snapshot is read below.\<close>

definition section_of :: "shards \<Rightarrow> op_thread \<Rightarrow> (store_lock \<times> access) option" where
  "section_of sh t =
     (case t of
        ApplyDiff key _ _ \<Rightarrow> Some (EntryShard (entry_shard sh key), Shared)
      | ApplyInsert key _ _ _ \<Rightarrow> Some (EntryShard (entry_shard sh key), Exclusive)
      | DeleteRemove key \<Rightarrow> Some (EntryShard (entry_shard sh key), Exclusive)
      | LogDelta e \<Rightarrow> Some (DeltaShard (delta_shard sh (le_key e)), Exclusive)
      | LogDisk _ \<Rightarrow> Some (DiskMutex, Exclusive)
      | CompactDisk _ _ \<Rightarrow> Some (DiskMutex, Exclusive)
      | _ \<Rightarrow> None)"

definition grantable :: "locked_thread list \<Rightarrow> store_lock \<Rightarrow> access \<Rightarrow> bool" where
  "grantable ts l a \<longleftrightarrow> list_all (\<lambda>t. list_all (\<lambda>(l', a'). l' = l \<longrightarrow> a = Shared \<and> a' = Shared) (lt_held t)) ts"

definition shard_snapshot :: "shards \<Rightarrow> nat \<Rightarrow> state_store \<Rightarrow> log_entry list" where
  "shard_snapshot sh j s = filter (\<lambda>e. entry_shard sh (le_key e) = j) (snapshot_entries s)"

text \<open>One step of one thread, given the locks the whole pool holds; \<^const>\<open>None\<close> when it has to wait or has returned.\<close>

definition locked_turn :: "encoder \<Rightarrow> shards \<Rightarrow> locked_thread list \<Rightarrow> state_store \<Rightarrow> locked_thread \<Rightarrow> (state_store \<times> locked_thread) option" where
  "locked_turn enc sh ts s t =
     (case lt_code t of
        Enter (Returned _) \<Rightarrow> None
      | Enter (TakeSnapshot e) \<Rightarrow> Some (s, t\<lparr>lt_code := Snap e 0 []\<rparr>)
      | Enter op \<Rightarrow>
          (case section_of sh op of
             None \<Rightarrow> (let (s', op') = thread_step enc s op in Some (s', t\<lparr>lt_code := Enter op'\<rparr>))
           | Some (l, a) \<Rightarrow>
               if grantable ts l a then Some (s, t\<lparr>lt_code := Work op, lt_held := (l, a) # lt_held t\<rparr>) else None)
      | Work op \<Rightarrow> (let (s', op') = thread_step enc s op in Some (s', t\<lparr>lt_code := Leave op'\<rparr>))
      | Leave op \<Rightarrow> Some (s, t\<lparr>lt_code := Enter op, lt_held := tl (lt_held t)\<rparr>)
      | Snap e j acc \<Rightarrow>
          if j < entry_shards sh
          then if grantable ts (EntryShard j) Shared
               then Some (s, t\<lparr>lt_code := SnapHeld e j acc, lt_held := (EntryShard j, Shared) # lt_held t\<rparr>) else None
          else Some (s, t\<lparr>lt_code := Enter (CompactDisk e acc)\<rparr>)
      | SnapHeld e j acc \<Rightarrow>
          Some (s, t\<lparr>lt_code := Snap e (Suc j) (acc @ shard_snapshot sh j s), lt_held := tl (lt_held t)\<rparr>))"

inductive locked_step :: "encoder \<Rightarrow> shards \<Rightarrow> locked_pool \<Rightarrow> locked_pool \<Rightarrow> bool" for enc sh where
  turn: "i < length ts \<Longrightarrow> locked_turn enc sh ts s (ts ! i) = Some (s', t') \<Longrightarrow> locked_step enc sh (s, ts) (s', ts[i := t'])"

definition locked_start :: "mutation list \<Rightarrow> locked_thread list" where
  "locked_start ms = map (\<lambda>m. \<lparr>lt_code = Enter (thread_of m), lt_held = []\<rparr>) ms"

fun code_returned :: "lock_code \<Rightarrow> (u64 \<times> delta_op list) option option" where
  "code_returned (Enter (Returned r)) = Some r"
| "code_returned _ = None"

definition all_returned :: "locked_thread list \<Rightarrow> bool" where
  "all_returned ts \<longleftrightarrow> list_all (\<lambda>t. code_returned (lt_code t) \<noteq> None) ts"

lemma shard_snapshots:
  assumes "\<And>k. entry_shard sh k < entry_shards sh"
  shows "set (concat (map (\<lambda>j. shard_snapshot sh j s) [0..<entry_shards sh])) = set (snapshot_entries s)"
  using assms by (auto simp: shard_snapshot_def)

subsection \<open>Guards\<close>

text \<open>What a thread holds is decided by where it is: one guard inside a section, none outside.\<close>

fun guards_of :: "shards \<Rightarrow> lock_code \<Rightarrow> (store_lock \<times> access) list \<Rightarrow> bool" where
  "guards_of sh (Enter _) held = (held = [])"
| "guards_of sh (Work op) held = (case section_of sh op of None \<Rightarrow> False | Some g \<Rightarrow> held = [g])"
| "guards_of sh (Leave op) held = (length held = 1)"
| "guards_of sh (Snap _ _ _) held = (held = [])"
| "guards_of sh (SnapHeld _ j _) held = (j < entry_shards sh \<and> held = [(EntryShard j, Shared)])"

definition compatible :: "locked_thread \<Rightarrow> locked_thread \<Rightarrow> bool" where
  "compatible t u \<longleftrightarrow> (\<forall>(l, a) \<in> set (lt_held t). \<forall>(l', a') \<in> set (lt_held u). l = l' \<longrightarrow> a = Shared \<and> a' = Shared)"

definition locks_ok :: "shards \<Rightarrow> locked_pool \<Rightarrow> bool" where
  "locks_ok sh = (\<lambda>(s, ts). (\<forall>t \<in> set ts. guards_of sh (lt_code t) (lt_held t)) \<and>
     (\<forall>i < length ts. \<forall>j < length ts. i \<noteq> j \<longrightarrow> compatible (ts ! i) (ts ! j)))"

lemma compatible_sym: "compatible t u = compatible u t"
  unfolding compatible_def by fastforce

lemma grantable_iff: "grantable ts l a \<longleftrightarrow> (\<forall>t \<in> set ts. compatible t \<lparr>lt_code = c, lt_held = [(l, a)]\<rparr>)"
  by (auto simp: grantable_def compatible_def list_all_iff)

lemma compatible_mono: "compatible t u \<Longrightarrow> set (lt_held t') \<subseteq> set (lt_held t) \<Longrightarrow> compatible t' u"
  unfolding compatible_def by blast

lemma compatible_Cons:
  "lt_held t' = (l, a) # lt_held t \<Longrightarrow> compatible t u \<Longrightarrow> compatible u \<lparr>lt_code = c, lt_held = [(l, a)]\<rparr> \<Longrightarrow> compatible t' u"
  unfolding compatible_def by auto

text \<open>A step of a thread keeps its guards in order, and takes a new one only if no other thread objects.\<close>

lemma locked_turn_guards:
  assumes "locked_turn enc sh ts s t = Some (s', t')" and "guards_of sh (lt_code t) (lt_held t)"
  shows "guards_of sh (lt_code t') (lt_held t')"
    and "set (lt_held t') \<subseteq> set (lt_held t) \<or> (\<exists>l a. lt_held t' = (l, a) # lt_held t \<and> grantable ts l a)"
  using assms
  by (auto simp: locked_turn_def Let_def split_def length_Suc_conv split: lock_code.splits op_thread.splits option.splits if_splits
      dest: list.set_sel(2))

lemma locks_ok_step:
  assumes "locked_step enc sh c c'" and "locks_ok sh c"
  shows "locks_ok sh c'"
  using assms(1)
proof cases
  case (turn i ts s s' t')
  have ok: "\<forall>t \<in> set ts. guards_of sh (lt_code t) (lt_held t)" "\<And>i j. i < length ts \<Longrightarrow> j < length ts \<Longrightarrow> i \<noteq> j \<Longrightarrow> compatible (ts ! i) (ts ! j)"
    using assms(2) turn(1) by (auto simp: locks_ok_def)
  note g = locked_turn_guards [OF turn(4)]
  have own: "guards_of sh (lt_code (ts ! i)) (lt_held (ts ! i))"
    using ok(1) turn(3) by simp
  have "compatible t' (ts ! j)" if "j < length ts" "j \<noteq> i" for j
    using g(2) [OF own] compatible_mono [OF ok(2) [OF turn(3) that(1)]] that turn(3) ok(2)
      compatible_Cons [of t' _ _ "ts ! i" "ts ! j"] grantable_iff by (metis nth_mem)
  then have "compatible (ts[i := t'] ! k) (ts[i := t'] ! j)" if "k < length ts" "j < length ts" "k \<noteq> j" for k j
    using that ok(2) compatible_sym [of t'] turn(3) by (cases "k = i"; cases "j = i") simp_all
  moreover have "\<forall>t \<in> set (ts[i := t']). guards_of sh (lt_code t) (lt_held t)"
    using ok(1) g(1) [OF own] set_update_subset_insert [of ts i t'] by blast
  ultimately show ?thesis
    using turn(2) by (simp add: locks_ok_def)
qed

lemma locks_ok_start: "locks_ok sh (s, locked_start ms)"
  by (auto simp: locks_ok_def locked_start_def compatible_def)

interpretation lock_system: inv_relation "locked_step enc sh" "locks_ok sh"
  by unfold_locales (rule locks_ok_step)

subsection \<open>No deadlock\<close>

text \<open>A thread that holds a guard never waits.\<close>

lemma holder_moves:
  assumes "guards_of sh (lt_code t) (lt_held t)" and "lt_held t \<noteq> []"
  shows "locked_turn enc sh ts s t \<noteq> None"
  using assms by (cases "lt_code t") (auto simp: locked_turn_def split_def Let_def)

lemma unheld_moves:
  assumes "\<forall>u \<in> set ts. lt_held u = []" and "code_returned (lt_code t) = None" and "guards_of sh (lt_code t) (lt_held t)"
  shows "locked_turn enc sh ts s t \<noteq> None"
proof -
  have "grantable ts l a" for l a
    using assms(1) by (simp add: grantable_def list_all_iff)
  then show ?thesis
    using assms(2) by (auto simp: locked_turn_def split_def Let_def split: lock_code.split op_thread.split option.split)
qed

lemma locked_moves:
  assumes "locks_ok sh (s, ts)" and "\<not> all_returned ts"
  shows "\<exists>c. locked_step enc sh (s, ts) c"
proof -
  have ok: "\<forall>t \<in> set ts. guards_of sh (lt_code t) (lt_held t)"
    using assms(1) by (simp add: locks_ok_def)
  obtain t where t: "t \<in> set ts" "code_returned (lt_code t) = None"
    using assms(2) by (auto simp: all_returned_def list_all_iff)
  have "\<exists>u \<in> set ts. locked_turn enc sh ts s u \<noteq> None"
  proof (cases "\<forall>u \<in> set ts. lt_held u = []")
    case True
    with t ok unheld_moves show ?thesis
      by blast
  qed (use ok holder_moves in blast)
  then obtain i s' t' where "i < length ts" "locked_turn enc sh ts s (ts ! i) = Some (s', t')"
    by (auto simp: in_set_conv_nth)
  then show ?thesis
    using turn by blast
qed

lemma returned_stays: "all_returned ts \<Longrightarrow> \<not> locked_step enc sh (s, ts) c"
  by (auto simp: all_returned_def list_all_length locked_turn_def elim!: locked_step.cases split: lock_code.splits op_thread.splits)

subsection \<open>Every run ends\<close>

text \<open>The steps an operation still takes: three for a section, two for a shard of the snapshot.\<close>

fun op_steps :: "nat \<Rightarrow> op_thread \<Rightarrow> nat" where
  "op_steps n (ApplyVersion _ _) = 2 * n + 18"
| "op_steps n (ApplyDiff _ _ _) = 2 * n + 17"
| "op_steps n (ApplyInsert _ _ _ _) = 2 * n + 14"
| "op_steps n (DeleteRemove _) = 2 * n + 15"
| "op_steps n (DeleteVersion _) = 2 * n + 12"
| "op_steps n (LogDelta _) = 2 * n + 11"
| "op_steps n (LogDisk _) = 2 * n + 8"
| "op_steps n (TakeSnapshot _) = 2 * n + 5"
| "op_steps n (CompactDisk _ _) = 3"
| "op_steps n (Returned _) = 0"

fun code_steps :: "nat \<Rightarrow> lock_code \<Rightarrow> nat" where
  "code_steps n (Enter op) = op_steps n op"
| "code_steps n (Work op) = op_steps n op - 1"
| "code_steps n (Leave op) = op_steps n op + 1"
| "code_steps n (Snap _ j _) = 2 * (n - j) + 4"
| "code_steps n (SnapHeld _ j _) = 2 * (n - j) + 3"

definition steps_left :: "shards \<Rightarrow> locked_pool \<Rightarrow> nat" where
  "steps_left sh c = sum_list (map (\<lambda>t. code_steps (entry_shards sh) (lt_code t)) (snd c))"

lemma section_steps:
  "thread_step enc s op = (s', op') \<Longrightarrow> section_of sh op \<noteq> None \<Longrightarrow> op_steps n op' + 3 \<le> op_steps n op"
  by (cases op) (auto simp: section_of_def op_returns_def Let_def split: option.splits if_splits)

lemma atomic_steps:
  "thread_step enc s op = (s', op') \<Longrightarrow> section_of sh op = None \<Longrightarrow> code_returned (Enter op) = None \<Longrightarrow>
     \<forall>e. op \<noteq> TakeSnapshot e \<Longrightarrow> op_steps n op' < op_steps n op"
  by (cases op) (auto simp: section_of_def)

lemma locked_turn_steps:
  assumes "locked_turn enc sh ts s t = Some (s', t')" and "guards_of sh (lt_code t) (lt_held t)"
  shows "code_steps (entry_shards sh) (lt_code t') < code_steps (entry_shards sh) (lt_code t)"
proof (cases "lt_code t")
  case (Enter op)
  show ?thesis
  proof (cases "\<exists>e. op = TakeSnapshot e")
    case True
    with assms(1) Enter show ?thesis
      by (auto simp: locked_turn_def)
  next
    case False
    with assms(1) Enter have "code_returned (Enter op) = None"
      by (cases op) (auto simp: locked_turn_def)
    with False assms(1) Enter show ?thesis
      by (cases "section_of sh op"; cases "thread_step enc s op"; cases op)
        (auto simp: locked_turn_def section_of_def op_returns_def split: if_splits option.splits)
  qed
next
  case (Work op)
  obtain s1 op1 where "thread_step enc s op = (s1, op1)"
    by force
  with assms Work section_steps [OF this, of sh "entry_shards sh"] show ?thesis
    by (auto simp: locked_turn_def split: option.splits)
qed (use assms in \<open>auto simp: locked_turn_def split: if_splits\<close>)

lemma locked_step_steps:
  assumes "locked_step enc sh c c'" and "locks_ok sh c"
  shows "steps_left sh c' < steps_left sh c"
  using assms(1)
proof cases
  case (turn i ts s s' t')
  let ?w = "\<lambda>t. code_steps (entry_shards sh) (lt_code t)"
  have "?w t' < ?w (ts ! i)"
    using locked_turn_steps [OF turn(4)] assms(2) turn(1,3) by (auto simp: locks_ok_def)
  moreover have "?w (ts ! i) \<le> sum_list (map ?w ts)"
    using turn(3) by (intro member_le_sum_list) simp_all
  ultimately show ?thesis
    using turn by (simp add: steps_left_def map_update sum_list_update)
qed

lemma locked_run_steps:
  assumes "(locked_step enc sh ^^ n) c c'" and "locks_ok sh c"
  shows "n + steps_left sh c' \<le> steps_left sh c \<and> locks_ok sh c'"
  using assms
proof (induction n arbitrary: c')
  case (Suc n)
  then obtain c1 where "(locked_step enc sh ^^ n) c c1" "locked_step enc sh c1 c'"
    by auto
  then show ?case
    using Suc.IH [of c1] Suc.prems(2) locked_step_steps [of enc sh c1 c'] locks_ok_step [of enc sh c1 c'] by simp
qed simp

lemma steps_start: "steps_left sh (s, locked_start ms) \<le> (2 * entry_shards sh + 18) * length ms"
  by (induction ms) (auto simp: steps_left_def locked_start_def thread_of_def split: mutation.split)

lemma locked_finishes:
  assumes "locks_ok sh c"
  shows "\<exists>c'. (locked_step enc sh)\<^sup>*\<^sup>* c c' \<and> all_returned (snd c')"
  using assms
proof (induction "steps_left sh c" arbitrary: c rule: less_induct)
  case less
  show ?case
  proof (cases "all_returned (snd c)")
    case False
    then obtain c1 where step: "locked_step enc sh c c1"
      using locked_moves [of sh "fst c" "snd c" enc] less.prems by auto
    then show ?thesis
      using less.hyps [OF locked_step_steps [OF step less.prems] locks_ok_step [OF step less.prems]]
      by (auto intro: converse_rtranclp_into_rtranclp)
  qed blast
qed

subsection \<open>The memory behaves as in the pool of threads\<close>

text \<open>The disk left out: a call that is done with the memory counts as returned.\<close>

definition mem :: "state_store \<Rightarrow> state_store" where
  "mem s = s\<lparr>st_plog := None\<rparr>"

fun mem_op :: "op_thread \<Rightarrow> op_thread" where
  "mem_op (LogDisk e) = op_returns e"
| "mem_op (TakeSnapshot e) = op_returns e"
| "mem_op (CompactDisk e _) = op_returns e"
| "mem_op op = op"

fun mem_code :: "lock_code \<Rightarrow> op_thread" where
  "mem_code (Enter op) = mem_op op"
| "mem_code (Work op) = mem_op op"
| "mem_code (Leave op) = mem_op op"
| "mem_code (Snap e _ _) = op_returns e"
| "mem_code (SnapHeld e _ _) = op_returns e"

definition mem_pool :: "locked_pool \<Rightarrow> store_pool" where
  "mem_pool = (\<lambda>(s, ts). (mem s, map (\<lambda>t. mem_code (lt_code t)) ts))"

lemma mem_simps [simp]:
  "store_get (mem s) k = store_get s k" "st_version (mem s) = st_version s" "st_log (mem s) = st_log s"
  "st_entries (mem s) = st_entries s" "st_plog (mem s) = None" "mem (s\<lparr>st_plog := lg\<rparr>) = mem s"
  by (simp_all add: mem_def store_get_def)

lemma mem_op_returned: "has_returned (mem_op op) \<Longrightarrow> thread_step enc s op = (s', op') \<Longrightarrow> mem s' = mem s \<and> mem_op op' = mem_op op"
  by (cases op) (auto simp: op_returns_def Let_def split: option.splits if_splits)

lemma mem_thread_step:
  assumes "thread_step enc s op = (s', op')" and "\<not> has_returned (mem_op op)"
  shows "thread_step enc (mem s) (mem_op op) = (mem s', mem_op op')"
  using assms by (cases op) (auto simp: op_returns_def mem_def store_get_def split: option.splits)

lemma enter_cases:
  assumes "locked_turn enc sh ts s t = Some (s', t')" and "lt_code t = Enter op"
  shows "s' = s \<and> mem_code (lt_code t') = mem_op op \<or> (\<exists>op'. thread_step enc s op = (s', op') \<and> lt_code t' = Enter op')"
  using assms by (cases op) (auto simp: locked_turn_def section_of_def op_returns_def split: if_splits)

lemma turn_cases:
  assumes "locked_turn enc sh ts s t = Some (s', t')"
  shows "s' = s \<and> mem_code (lt_code t') = mem_code (lt_code t) \<or>
    (\<exists>op op'. thread_step enc s op = (s', op') \<and> mem_code (lt_code t) = mem_op op \<and> mem_code (lt_code t') = mem_op op')"
proof (cases "lt_code t")
  case (Enter op)
  with enter_cases [OF assms Enter] show ?thesis
    by (metis mem_code.simps(1))
next
  case (Work op)
  obtain s1 op' where "thread_step enc s op = (s1, op')"
    by force
  with assms Work have "thread_step enc s op = (s', op')" "lt_code t' = Leave op'"
    by (auto simp: locked_turn_def)
  with Work show ?thesis
    by (metis mem_code.simps(2,3))
qed (use assms in \<open>auto simp: locked_turn_def op_returns_def split: if_splits\<close>)

lemma mem_turn:
  assumes "locked_turn enc sh ts s t = Some (s', t')"
  shows "mem s' = mem s \<and> mem_code (lt_code t') = mem_code (lt_code t) \<or>
    \<not> has_returned (mem_code (lt_code t)) \<and> thread_step enc (mem s) (mem_code (lt_code t)) = (mem s', mem_code (lt_code t'))"
  using turn_cases [OF assms] mem_op_returned mem_thread_step by metis

lemma mem_step:
  assumes "locked_step enc sh c c'"
  shows "mem_pool c' = mem_pool c \<or> threads_step enc (mem_pool c) (mem_pool c')"
  using assms
proof cases
  case (turn i ts s s' t')
  let ?ts = "map (\<lambda>t. mem_code (lt_code t)) ts"
  have new: "map (\<lambda>t. mem_code (lt_code t)) (ts[i := t']) = ?ts[i := mem_code (lt_code t')]"
    by (simp add: map_update)
  from mem_turn [OF turn(4)] show ?thesis
  proof (elim disjE conjE)
    assume "mem s' = mem s" "mem_code (lt_code t') = mem_code (lt_code (ts ! i))"
    then show ?thesis
      using turn(1-3) new list_update_id [of ?ts i] by (simp add: mem_pool_def)
  next
    assume "\<not> has_returned (mem_code (lt_code (ts ! i)))"
      "thread_step enc (mem s) (mem_code (lt_code (ts ! i))) = (mem s', mem_code (lt_code t'))"
    with threads_step.turn [of i ?ts enc "mem s" "mem s'" "mem_code (lt_code t')"] turn(1-3) new show ?thesis
      by (simp add: mem_pool_def)
  qed
qed

lemma mem_run: "(locked_step enc sh)\<^sup>*\<^sup>* c c' \<Longrightarrow> (threads_step enc)\<^sup>*\<^sup>* (mem_pool c) (mem_pool c')"
proof (induction rule: rtranclp_induct)
  case (step c1 c2)
  with mem_step [OF step(2)] show ?case
    by (metis rtranclp.rtrancl_into_rtrancl)
qed simp

lemma mem_start: "mem_pool (s, locked_start ms) = (mem s, map thread_of ms)"
  by (simp add: mem_pool_def locked_start_def thread_of_def comp_def split: mutation.split)

lemma mem_returned:
  assumes "all_returned ts"
  shows "map (\<lambda>t. mem_code (lt_code t)) ts = map (\<lambda>t. Returned (the (code_returned (lt_code t)))) ts"
proof (rule map_cong [OF refl])
  fix t assume "t \<in> set ts"
  then obtain r where "code_returned (lt_code t) = Some r"
    using assms by (auto simp: all_returned_def list_all_iff)
  then show "mem_code (lt_code t) = Returned (the (code_returned (lt_code t)))"
    by (cases "lt_code t" rule: code_returned.cases) simp_all
qed

lemma mem_persist: "mem (persist enc s e) = mem s"
  by (simp add: persist_def compact_plog_def Let_def split: option.split)

lemma persist_memory: "st_plog s = None \<Longrightarrow> persist enc s e = s"
  by (simp add: persist_def)

lemma mem_apply: "store_apply enc (mem s) key v = (fst (store_apply enc s key v), mem (snd (store_apply enc s key v)))"
  by (simp add: store_apply_def Let_def mem_persist persist_memory)

lemma mem_delete: "store_delete enc (mem s) key = (fst (store_delete enc s key), mem (snd (store_delete enc s key)))"
  by (cases "store_get s key"; simp add: store_delete_def Let_def mem_persist persist_memory)

lemma mem_mutate: "mutate enc (mem s) m = mem (mutate enc s m)" "mutation_result enc (mem s) m = mutation_result enc s m"
  by (cases m; simp add: mutate_def mutation_result_def mem_apply mem_delete)+

lemma mem_foldl: "mem (foldl (mutate enc) s ms) = foldl (mutate enc) (mem s) ms"
  by (induction ms arbitrary: s) (simp_all add: mem_mutate)

lemma mem_results: "run_results enc (mem s) ms = run_results enc s ms"
  by (induction ms arbitrary: s) (simp_all add: mem_mutate)

subsection \<open>Properties\<close>



subsection \<open>Witnesses\<close>

definition demo_shards :: shards where
  "demo_shards = \<lparr>entry_shard = (\<lambda>k. if k = ''x'' then 0 else 1), delta_shard = (\<lambda>_. 0), entry_shards = 2\<rparr>"



end
