(* ===== verification/Bench_Stats.thy ===== *)
theory Bench_Stats
  imports Wire_Frame
begin

section \<open>The benchmark program: statistics, work distribution and event splitting\<close>

text \<open>
  The parts of \<^verbatim>\<open>src/src/bin/bench.rs\<close> that compute: percentiles and averages, the choice and marking
  of winners, the number of rounds, the distribution of subscriptions over connections, the collection
  of receipts, the splitting of a server-sent-event stream, and the two comparison servers (REST and
  gRPC), which share one shape. Clocks and sockets are inputs: a receipt is \<^verbatim>\<open>Some\<close> with a latency and a size,
  or \<^verbatim>\<open>None\<close> for a timeout; the results of a \<^verbatim>\<open>broadcast\<close> receiver are the list it returned. \<^verbatim>\<open>u128\<close> and
  \<^verbatim>\<open>usize\<close> are natural numbers and \<^verbatim>\<open>f64\<close> is rational; a quotient by an average of zero bytes, which is infinite in
  \<^verbatim>\<open>f64\<close>, is zero here. The layout of the tables is not modelled.
\<close>

subsection \<open>The workload\<close>

definition filler :: "char \<Rightarrow> json" where
  "filler c = String (replicate 20 c)"

definition test_object :: "u64 \<Rightarrow> json" where
  "test_object n =
     json_obj ((''counter'', json_u64 n) #
       map (\<lambda>c. (''field_'' @ [c], filler c)) ''abcdefghij'')"

subsection \<open>Statistics\<close>

definition percentile :: "nat list \<Rightarrow> nat \<Rightarrow> nat" where
  "percentile data p =
     (if data = [] then 0
      else let sorted = sort data in sorted ! min (length sorted * p div 100) (length sorted - 1))"

record bench_result =
  br_name :: string
  br_latencies_us :: "nat list"
  br_bytes_per_update :: "nat list"

definition br_p50 :: "bench_result \<Rightarrow> nat" where
  "br_p50 r = percentile (br_latencies_us r) 50"

definition br_p99 :: "bench_result \<Rightarrow> nat" where
  "br_p99 r = percentile (br_latencies_us r) 99"

definition avg_bytes :: "bench_result \<Rightarrow> nat" where
  "avg_bytes r =
     (if br_bytes_per_update r = [] then 0
      else sum_list (br_bytes_per_update r) div length (br_bytes_per_update r))"

definition kops :: "bench_result \<Rightarrow> rat" where
  "kops r =
     (let total_us = sum_list (br_latencies_us r)
      in if total_us = 0 then 0
         else of_nat (length (br_latencies_us r)) / (of_nat total_us / 1000000) / 1000)"

record fanout_result =
  fr_name :: string
  fr_max_latencies_us :: "nat list"
  fr_total_bytes_per_round :: "nat list"

definition fr_p50 :: "fanout_result \<Rightarrow> nat" where
  "fr_p50 r = percentile (fr_max_latencies_us r) 50"

definition fr_p99 :: "fanout_result \<Rightarrow> nat" where
  "fr_p99 r = percentile (fr_max_latencies_us r) 99"

definition avg_total_bytes :: "fanout_result \<Rightarrow> nat" where
  "avg_total_bytes r =
     (if fr_total_bytes_per_round r = [] then 0
      else sum_list (fr_total_bytes_per_round r) div length (fr_total_bytes_per_round r))"

record scale_row =
  sr_watchers :: nat
  sr_conns :: nat
  sr_ops_sec :: rat
  sr_p50_us :: nat
  sr_p99_us :: nat

text \<open>\<^verbatim>\<open>min_by_key\<close> returns the first of several minima, \<^verbatim>\<open>max_by\<close> the last of several maxima.\<close>

fun first_min :: "'a :: linorder \<Rightarrow> nat \<Rightarrow> nat \<Rightarrow> 'a list \<Rightarrow> nat" where
  "first_min best pos i [] = pos"
| "first_min best pos i (v # vs) = (if v < best then first_min v i (Suc i) vs else first_min best pos (Suc i) vs)"

fun last_max :: "'a :: linorder \<Rightarrow> nat \<Rightarrow> nat \<Rightarrow> 'a list \<Rightarrow> nat" where
  "last_max best pos i [] = pos"
| "last_max best pos i (v # vs) = (if best \<le> v then last_max v i (Suc i) vs else last_max best pos (Suc i) vs)"

definition winner_min :: "nat list \<Rightarrow> nat" where
  "winner_min vals = (case vals of [] \<Rightarrow> 0 | v # vs \<Rightarrow> first_min v 0 1 vs)"

definition winner_min_usize :: "nat list \<Rightarrow> nat" where
  "winner_min_usize vals = (case vals of [] \<Rightarrow> 0 | v # vs \<Rightarrow> first_min v 0 1 vs)"

definition winner_max_f64 :: "rat list \<Rightarrow> nat" where
  "winner_max_f64 vals = (case vals of [] \<Rightarrow> 0 | v # vs \<Rightarrow> last_max v 0 1 vs)"

text \<open>The star is three bytes in UTF-8.\<close>

definition cell :: "string \<Rightarrow> bool \<Rightarrow> string" where
  "cell val is_winner = (if is_winner then val @ '' '' @ [CHR 0xE2, CHR 0x98, CHR 0x85] else val)"

text \<open>A non-negative \<^verbatim>\<open>f64\<close> is rounded half up and converted to \<^verbatim>\<open>u64\<close>, which saturates.\<close>

definition round_u64 :: "rat \<Rightarrow> nat" where
  "round_u64 r = min (nat \<lfloor>r + 1 / 2\<rfloor>) (2 ^ 64 - 1)"

fun group_digits :: "nat \<Rightarrow> nat \<Rightarrow> string \<Rightarrow> string" where
  "group_digits len i [] = []"
| "group_digits len i (c # cs) =
     (if i > 0 \<and> (len - i) mod 3 = 0 then CHR '','' # c # group_digits len (Suc i) cs
      else c # group_digits len (Suc i) cs)"

definition fmt_ops :: "rat \<Rightarrow> string" where
  "fmt_ops ops = (let s = show_nat (round_u64 ops) in group_digits (length s) 0 s)"

subsection \<open>Rounds, connections and receipts\<close>

definition scale_rounds :: "nat \<Rightarrow> bool \<Rightarrow> nat" where
  "scale_rounds watchers quick =
     (if quick
      then if watchers = 0 then 200 else if watchers \<le> 100 then 30 else if watchers \<le> 500 then 10 else 5
      else if watchers = 0 then 500 else if watchers \<le> 10 then 200 else if watchers \<le> 100 then 100
           else if watchers \<le> 500 then 30 else 15)"

definition div_ceil :: "nat \<Rightarrow> nat \<Rightarrow> nat" where
  "div_ceil a b = (if a mod b = 0 then a div b else a div b + 1)"

definition fanout_conns :: "nat \<Rightarrow> nat \<Rightarrow> nat" where
  "fanout_conns watchers mux = div_ceil watchers (max mux 1)"

definition fanout_subs :: "nat \<Rightarrow> nat \<Rightarrow> nat \<Rightarrow> nat" where
  "fanout_subs watchers mux c = (if (c + 1) * mux \<le> watchers then mux else watchers - c * mux)"

definition mux_candidates :: "nat \<Rightarrow> nat list" where
  "mux_candidates watchers = filter (\<lambda>m. m \<le> watchers) [1, 5, 10, 50, 100]"

text \<open>Receipts are latencies against the send time; a timeout or a closed channel ends the round.\<close>

fun collect_receipts :: "(nat \<times> nat) option list \<Rightarrow> nat \<Rightarrow> nat \<Rightarrow> nat \<Rightarrow> nat \<times> nat" where
  "collect_receipts rx 0 max_us bytes = (max_us, bytes)"
| "collect_receipts [] (Suc want) max_us bytes = (max_us, bytes)"
| "collect_receipts (None # rx) (Suc want) max_us bytes = (max_us, bytes)"
| "collect_receipts (Some (lat, n) # rx) (Suc want) max_us bytes =
     collect_receipts rx want (if lat > max_us then lat else max_us) (bytes + n)"

definition scale_row_of :: "nat \<Rightarrow> nat \<Rightarrow> nat \<Rightarrow> fanout_result \<Rightarrow> scale_row" where
  "scale_row_of watchers mux rounds r =
     (let conns = div_ceil watchers (max mux 1);
          total_us = sum_list (fr_max_latencies_us r);
          ops_sec = (if total_us > 0 then 1000000 * of_nat rounds / of_nat total_us else 0)
      in \<lparr>sr_watchers = watchers, sr_conns = conns, sr_ops_sec = ops_sec, sr_p50_us = fr_p50 r, sr_p99_us = fr_p99 r\<rparr>)"

subsection \<open>Splitting a stream of server-sent events\<close>

fun find_double_newline :: "bytes \<Rightarrow> nat option" where
  "find_double_newline (a # b # bs) =
     (if a = 10 \<and> b = 10 then Some 0 else map_option Suc (find_double_newline (b # bs)))"
| "find_double_newline _ = None"

text \<open>The loop that reports every complete event in the buffer and drains it.\<close>

function drain_events :: "bytes \<Rightarrow> nat list \<times> bytes" where
  "drain_events buf =
     (case find_double_newline buf of
        None \<Rightarrow> ([], buf)
      | Some pos \<Rightarrow> (let (lens, rest) = drain_events (drop (pos + 2) buf) in ((pos + 2) # lens, rest)))"
  by pat_completeness auto

termination drain_events
proof (relation "measure length")
  fix buf :: bytes and pos
  assume "find_double_newline buf = Some pos"
  then have "buf \<noteq> []"
    by auto
  then show "(drop (pos + 2) buf, buf) \<in> measure length"
    by (cases buf) auto
qed simp

declare drain_events.simps [simp del]

fun read_events :: "bytes \<Rightarrow> bytes list \<Rightarrow> nat list \<times> bytes" where
  "read_events buf [] = ([], buf)"
| "read_events buf (chunk # chunks) =
     (let (lens, buf1) = drain_events (buf @ chunk);
          (lens', buf2) = read_events buf1 chunks
      in (lens @ lens', buf2))"

subsection \<open>The comparison servers\<close>

text \<open>
  \<^verbatim>\<open>RestState\<close> and \<^verbatim>\<open>GrpcService\<close> have the same three fields; the sender of the \<^verbatim>\<open>broadcast\<close> channel is the
  list of the messages sent so far.
\<close>

record plain_server =
  ps_store :: "(string \<times> bytes) list"
  ps_version :: u64
  ps_sent :: "(string \<times> u64 \<times> bytes) list"

definition plain_new :: plain_server where
  "plain_new = \<lparr>ps_store = [], ps_version = 0, ps_sent = []\<rparr>"

definition rest_set_state :: "string \<Rightarrow> bytes \<Rightarrow> plain_server \<Rightarrow> u64 \<times> plain_server" where
  "rest_set_state key b s =
     (let v = ps_version s + 1
      in (v, s\<lparr>ps_version := v, ps_store := AList.update key b (ps_store s), ps_sent := ps_sent s @ [(key, v, b)]\<rparr>))"

definition grpc_set_state :: "string \<Rightarrow> bytes \<Rightarrow> plain_server \<Rightarrow> u64 \<times> plain_server" where
  "grpc_set_state key b s =
     (let v = ps_version s + 1
      in (v, s\<lparr>ps_version := v, ps_store := AList.update key b (ps_store s), ps_sent := ps_sent s @ [(key, v, b)]\<rparr>))"

datatype recv_result = Received "string \<times> u64 \<times> bytes" | Lagged | Closed

text \<open>\<open>utf8\<close> is \<^verbatim>\<open>String::from_utf8\<close>; bytes that are not UTF-8 give an empty event.\<close>

fun sse_events :: "(bytes \<Rightarrow> string option) \<Rightarrow> string \<Rightarrow> recv_result list \<Rightarrow> string list" where
  "sse_events utf8 key [] = []"
| "sse_events utf8 key (Received (k, v, val) # rs) =
     (if k = key then (case utf8 val of Some s \<Rightarrow> s | None \<Rightarrow> []) # sse_events utf8 key rs
      else sse_events utf8 key rs)"
| "sse_events utf8 key (Closed # rs) = []"
| "sse_events utf8 key (Lagged # rs) = sse_events utf8 key rs"

text \<open>The forwarding task stops when the client has gone; \<open>room\<close> is how many events it still takes.\<close>

fun watch_events :: "nat \<Rightarrow> string \<Rightarrow> recv_result list \<Rightarrow> (string \<times> u64 \<times> bytes) list" where
  "watch_events room key [] = []"
| "watch_events room key (Received (k, v, val) # rs) =
     (if k = key then (case room of 0 \<Rightarrow> [] | Suc n \<Rightarrow> (k, v, val) # watch_events n key rs)
      else watch_events room key rs)"
| "watch_events room key (Closed # rs) = []"
| "watch_events room key (Lagged # rs) = watch_events room key rs"

subsection \<open>Facts\<close>

lemma sorted_rank:
  fixes xs :: "'a :: linorder list"
  assumes "sorted xs" and "k < length xs"
  shows "length (filter (\<lambda>x. x < xs ! k) xs) \<le> k" and "k < length (filter (\<lambda>x. x \<le> xs ! k) xs)"
proof -
  have split: "filter P xs = filter P (take n xs) @ filter P (drop n xs)" for P n
    by (simp flip: filter_append)
  have "filter (\<lambda>x. x < xs ! k) (drop k xs) = []"
    using assms by (auto simp: filter_empty_conv in_set_conv_nth not_less intro!: sorted_nth_mono)
  then have "filter (\<lambda>x. x < xs ! k) xs = filter (\<lambda>x. x < xs ! k) (take k xs)"
    using split [of _ k] by simp
  then show "length (filter (\<lambda>x. x < xs ! k) xs) \<le> k"
    using length_filter_le [of _ "take k xs"] assms(2) by simp
  have "filter (\<lambda>x. x \<le> xs ! k) (take (Suc k) xs) = take (Suc k) xs"
    using assms by (auto simp: filter_id_conv in_set_conv_nth less_Suc_eq_le intro!: sorted_nth_mono)
  then have "length (take (Suc k) xs) \<le> length (filter (\<lambda>x. x \<le> xs ! k) xs)"
    using split [of "\<lambda>x. x \<le> xs ! k" "Suc k"] by simp
  then show "k < length (filter (\<lambda>x. x \<le> xs ! k) xs)"
    using assms(2) by simp
qed

lemma length_filter_sort: "length (filter P (sort xs)) = length (filter P xs)"
  by (simp add: filter_sort)

lemma percentile_rank:
  fixes p :: nat
  assumes "data \<noteq> []"
  defines "k \<equiv> min (length data * p div 100) (length data - 1)"
  shows "percentile data p \<in> set data"
    and "length (filter (\<lambda>x. x < percentile data p) data) \<le> k"
    and "k < length (filter (\<lambda>x. x \<le> percentile data p) data)"
proof -
  have k: "k < length (sort data)"
    using assms(1) by (cases data) (simp_all add: k_def)
  have eq: "percentile data p = sort data ! k"
    using assms(1) by (simp add: percentile_def k_def)
  show "percentile data p \<in> set data"
    unfolding eq using nth_mem [OF k] by simp
  show "length (filter (\<lambda>x. x < percentile data p) data) \<le> k"
    "k < length (filter (\<lambda>x. x \<le> percentile data p) data)"
    unfolding eq using sorted_rank [OF sorted_sort k] by (simp_all add: length_filter_sort)
qed

lemma percentile_mono: "p \<le> q \<Longrightarrow> percentile data p \<le> percentile data q"
proof (cases "data = []")
  case False
  assume "p \<le> q"
  then have "length data * p div 100 \<le> length data * q div 100"
    by (intro div_le_mono) simp
  then have "min (length data * p div 100) (length data - 1) \<le> min (length data * q div 100) (length data - 1)"
    by simp
  moreover have "min (length data * q div 100) (length data - 1) < length data"
    using False by (cases data) simp_all
  ultimately show ?thesis
    using False sorted_nth_mono [OF sorted_sort, of _ _ data] by (simp add: percentile_def)
qed (simp add: percentile_def)

lemma first_min_spec:
  fixes vs :: "'a :: linorder list"
  assumes "pos < length us" and "us ! pos = best" and "\<And>j. j < length us \<Longrightarrow> best \<le> us ! j"
    and "\<And>j. j < pos \<Longrightarrow> best < us ! j"
  shows "let i = first_min best pos (length us) vs; all = us @ vs in
    i < length all \<and> (\<forall>j < length all. all ! i \<le> all ! j) \<and> (\<forall>j < i. all ! i < all ! j)"
  using assms
proof (induction vs arbitrary: us best pos)
  case (Cons v vs)
  show ?case
  proof (cases "v < best")
    case True
    have "let i = first_min v (length us) (length (us @ [v])) vs; all = (us @ [v]) @ vs in
      i < length all \<and> (\<forall>j < length all. all ! i \<le> all ! j) \<and> (\<forall>j < i. all ! i < all ! j)"
      using Cons.prems True by (intro Cons.IH) (auto simp: nth_append less_Suc_eq intro: less_le_trans less_imp_le)
    with True show ?thesis
      by simp
  next
    case False
    have "let i = first_min best pos (length (us @ [v])) vs; all = (us @ [v]) @ vs in
      i < length all \<and> (\<forall>j < length all. all ! i \<le> all ! j) \<and> (\<forall>j < i. all ! i < all ! j)"
      using Cons.prems False by (intro Cons.IH) (auto simp: nth_append less_Suc_eq)
    with False show ?thesis
      by simp
  qed
qed (simp add: Let_def)

lemma last_max_spec:
  fixes vs :: "'a :: linorder list"
  assumes "pos < length us" and "us ! pos = best" and "\<And>j. j < length us \<Longrightarrow> us ! j \<le> best"
    and "\<And>j. j < length us \<Longrightarrow> pos < j \<Longrightarrow> us ! j < best"
  shows "let i = last_max best pos (length us) vs; all = us @ vs in
    i < length all \<and> (\<forall>j < length all. all ! j \<le> all ! i \<and> (i < j \<longrightarrow> all ! j < all ! i))"
  using assms
proof (induction vs arbitrary: us best pos)
  case (Cons v vs)
  show ?case
  proof (cases "best \<le> v")
    case True
    have "let i = last_max v (length us) (length (us @ [v])) vs; all = (us @ [v]) @ vs in
      i < length all \<and> (\<forall>j < length all. all ! j \<le> all ! i \<and> (i < j \<longrightarrow> all ! j < all ! i))"
      using Cons.prems True by (intro Cons.IH) (auto simp: nth_append less_Suc_eq intro: order_trans)
    with True show ?thesis
      by simp
  next
    case False
    have "let i = last_max best pos (length (us @ [v])) vs; all = (us @ [v]) @ vs in
      i < length all \<and> (\<forall>j < length all. all ! j \<le> all ! i \<and> (i < j \<longrightarrow> all ! j < all ! i))"
      using Cons.prems False by (intro Cons.IH) (auto simp: nth_append less_Suc_eq)
    with False show ?thesis
      by simp
  qed
qed (auto simp: Let_def)

lemma winner_min_correct:
  assumes "vals \<noteq> []"
  shows "winner_min vals < length vals \<and> (\<forall>j < length vals. vals ! winner_min vals \<le> vals ! j) \<and>
    (\<forall>j < winner_min vals. vals ! winner_min vals < vals ! j)"
proof (cases vals)
  case (Cons v vs)
  then show ?thesis
    using first_min_spec [of 0 "[v]" v vs] by (simp add: winner_min_def Let_def)
qed (use assms in simp)

lemma winner_max_correct:
  assumes "vals \<noteq> []"
  shows "winner_max_f64 vals < length vals \<and> (\<forall>j < length vals. vals ! j \<le> vals ! winner_max_f64 vals)"
proof (cases vals)
  case (Cons v vs)
  then show ?thesis
    using last_max_spec [of 0 "[v]" v vs] by (simp add: winner_max_f64_def Let_def)
qed (use assms in simp)

lemma scale_rounds_antimono: "v \<le> w \<Longrightarrow> scale_rounds w quick \<le> scale_rounds v quick"
  by (simp add: scale_rounds_def)

lemma ungroup_digits:
  assumes "\<forall>c \<in> set cs. c \<noteq> CHR '',''"
  shows "filter (\<lambda>c. c \<noteq> CHR '','') (group_digits len i cs) = cs"
  using assms by (induction cs arbitrary: i) auto

lemma fmt_ops_digits: "filter (\<lambda>c. c \<noteq> CHR '','') (fmt_ops r) = show_nat (round_u64 r)"
proof -
  have "\<forall>c \<in> set (show_nat n). c \<noteq> CHR '',''" for n
    using show_nat_digits [of n] by (auto simp: list_all_iff is_digit_def)
  then show ?thesis
    by (simp add: fmt_ops_def ungroup_digits Let_def)
qed

lemma collect_receipts_eq:
  "collect_receipts rx want m b =
     (let rs = map the (takeWhile (\<lambda>r. r \<noteq> None) (take want rx))
      in (fold max (map fst rs) m, b + sum_list (map snd rs)))"
  by (induction rx want m b rule: collect_receipts.induct) (auto simp: Let_def max_def)

text \<open>
  How much less the winner sends, as the two reports compute it: the single-client report takes the
  greatest quotient, the fanout report the runner-up.
\<close>

definition bandwidth_factor :: "nat list \<Rightarrow> rat" where
  "bandwidth_factor bytes =
     (let wi = winner_min_usize bytes
      in fold max (map (\<lambda>i. of_nat (bytes ! i) / of_nat (bytes ! wi)) (filter (\<lambda>i. i \<noteq> wi) [0..<length bytes])) 0)"

definition runner_up_bytes :: "nat list \<Rightarrow> nat" where
  "runner_up_bytes bytes =
     (let wi = winner_min_usize bytes; others = map ((!) bytes) (filter (\<lambda>i. i \<noteq> wi) [0..<length bytes])
      in case others of [] \<Rightarrow> 0 | b # bs \<Rightarrow> fold min bs b)"

lemma fold_max_start: "m \<le> fold max xs (m :: 'a :: linorder)"
  by (induction xs arbitrary: m) (auto intro: order_trans [OF max.cobounded2])

lemma fold_max_upper: "x \<in> set xs \<Longrightarrow> x \<le> fold max xs (m :: 'a :: linorder)"
  by (induction xs arbitrary: m) (auto intro: order_trans [OF max.cobounded1 fold_max_start])

theorem bandwidth_factor_is_against_the_worst:
  assumes "i < length bytes" and "i \<noteq> winner_min_usize bytes"
  shows "of_nat (bytes ! i) / of_nat (bytes ! winner_min_usize bytes) \<le> bandwidth_factor bytes"
  using assms unfolding bandwidth_factor_def Let_def by (intro fold_max_upper) auto

theorem bandwidth_factor_overstates:
  "bandwidth_factor [100, 200, 300] = 3" "runner_up_bytes [100, 200, 300] = 200"
  by code_simp+

lemma fanout_subs_prefix:
  assumes "0 < mux" and "n * mux \<le> watchers"
  shows "(\<Sum>c < n. fanout_subs watchers mux c) = n * mux"
  using assms(2)
proof (induction n)
  case (Suc n)
  then show ?case
    by (simp add: fanout_subs_def)
qed simp

text \<open>Every subscription is opened once: the connections carry all watchers, none is empty, none carries more than \<open>mux\<close>.\<close>

lemma fanout_subs_total:
  assumes "0 < mux"
  shows "(\<Sum>c < fanout_conns watchers mux. fanout_subs watchers mux c) = watchers"
    and "c < fanout_conns watchers mux \<Longrightarrow> 0 < fanout_subs watchers mux c \<and> fanout_subs watchers mux c \<le> mux"
proof -
  let ?q = "watchers div mux"
  have q: "?q * mux \<le> watchers" "watchers - ?q * mux = watchers mod mux"
    by (simp_all add: minus_div_mult_eq_mod)
  have conns: "fanout_conns watchers mux = (if watchers mod mux = 0 then ?q else Suc ?q)"
    using assms max.absorb1 [of 1 mux] by (simp add: fanout_conns_def div_ceil_def)
  have over: "\<not> Suc ?q * mux \<le> watchers"
    using assms dividend_less_div_times [of mux watchers] by simp
  then have last: "fanout_subs watchers mux ?q = watchers mod mux"
    using q(2) by (simp add: fanout_subs_def)
  have full: "fanout_subs watchers mux c = mux" if "c < ?q" for c
  proof -
    have "(c + 1) * mux \<le> ?q * mux"
      using that by (intro mult_right_mono) simp_all
    from order_trans [OF this q(1)] show ?thesis
      by (simp add: fanout_subs_def)
  qed
  show "(\<Sum>c < fanout_conns watchers mux. fanout_subs watchers mux c) = watchers"
    using fanout_subs_prefix [OF assms q(1)] last div_mult_mod_eq [of watchers mux]
    by (cases "watchers mod mux = 0") (simp_all only: conns if_True if_False sum.lessThan_Suc refl add_0_right)
  show "0 < fanout_subs watchers mux c \<and> fanout_subs watchers mux c \<le> mux" if "c < fanout_conns watchers mux"
    using that full last assms by (cases "c < ?q") (auto simp: conns less_Suc_eq split: if_splits)
qed

lemma find_double_newline_bound: "find_double_newline a = Some pos \<Longrightarrow> pos + 2 \<le> length a"
  by (induction a arbitrary: pos rule: find_double_newline.induct) (auto split: if_splits)

lemma find_double_newline_append:
  "find_double_newline a = Some pos \<Longrightarrow> find_double_newline (a @ b) = Some pos"
  by (induction a arbitrary: pos rule: find_double_newline.induct) (auto split: if_splits)

lemma drain_append:
  "drain_events (a @ b) =
     (let (lens, rest) = drain_events a; (lens', rest') = drain_events (rest @ b) in (lens @ lens', rest'))"
proof (induction a rule: drain_events.induct)
  case (1 a)
  show ?case
  proof (cases "find_double_newline a")
    case None
    then show ?thesis
      by (simp add: drain_events.simps [of a])
  next
    case (Some pos)
    note f = find_double_newline_append [OF Some, of b] find_double_newline_bound [OF Some]
    show ?thesis
      using 1 [OF Some] f Some
      by (simp add: drain_events.simps [of a] drain_events.simps [of "a @ b"] split_def Let_def)
  qed
qed

lemma read_events_chunks: "find_double_newline buf = None \<Longrightarrow> read_events buf chunks = drain_events (buf @ concat chunks)"
proof (induction chunks arbitrary: buf)
  case Nil
  then show ?case
    by (simp add: drain_events.simps [of buf])
next
  case (Cons chunk chunks)
  have rest: "find_double_newline (snd (drain_events b)) = None" for b
    by (induction b rule: drain_events.induct)
      (subst drain_events.simps, auto simp: split_def Let_def split: option.split)
  show ?case
    using Cons.IH [OF rest] drain_append [of "buf @ chunk" "concat chunks"] by (simp add: split_def Let_def)
qed


lemma drain_complete:
  assumes "\<forall>e \<in> set es. find_double_newline e = Some (length e - 2)"
  shows "drain_events (concat es) = (map length es, [])"
  using assms
proof (induction es)
  case Nil
  then show ?case
    by (simp add: drain_events.simps)
next
  case (Cons e es)
  have e: "find_double_newline e = Some (length e - 2)"
    using Cons.prems by simp
  have len: "length e - 2 + 2 = length e"
    using find_double_newline_bound [OF e] by simp
  have "drain_events (concat (e # es)) =
      (let (lens, rest) = drain_events (drop (length e - 2 + 2) (e @ concat es)) in ((length e - 2 + 2) # lens, rest))"
    by (subst drain_events.simps) (simp add: find_double_newline_append [OF e])
  also have "\<dots> = (map length (e # es), [])"
    using Cons by (simp only: len) simp
  finally show ?case .
qed

subsection \<open>Properties\<close>

text \<open>
  The reader of the event stream counts every event once. Events are byte strings whose first blank line is
  their end. However the network cuts their concatenation into chunks, the reader reports the length of each
  event, in order, and keeps nothing.
\<close>

theorem sse_events_reported_once:
  assumes "\<forall>e \<in> set es. find_double_newline e = Some (length e - 2)" and "concat chunks = concat es"
  shows "read_events [] chunks = (map length es, [])"
  using read_events_chunks [of "[]" chunks] drain_complete [OF assms(1)] assms(2) by simp

theorem sse_events_reported_once_witness:
  "read_events [] [[65, 10], [10, 66, 67], [10], [10]] = ([3, 4], [])"
proof -
  have "\<forall>e \<in> set [[65, 10, 10], [66, 67, 10, 10]]. find_double_newline e = Some (length e - 2)"
    by simp
  from sse_events_reported_once [OF this, of "[[65, 10], [10, 66, 67], [10], [10]]"] show ?thesis
    by simp
qed


end
