(* ===== verification/Bench_Runs.thy ===== *)
theory Bench_Runs
  imports Bench_Stats Delta_Diff
begin

section \<open>The benchmark program: measurement loops, reports and the order of the runs\<close>

text \<open>
  The measurement loops of \<^verbatim>\<open>src/src/bin/bench.rs\<close> over the results of their clocks and sockets, the rows of the
  fan-out and multiplexing reports, and what \<^verbatim>\<open>main\<close> runs in which order. A time is a number of
  microseconds and the difference of two times saturates at zero, as \<^verbatim>\<open>duration_since\<close> does. The channel the watchers report to
  is the list of the results its \<^verbatim>\<open>recv\<close> will give, \<^verbatim>\<open>None\<close> for a timeout, and a round leaves the rest of the list to the next.
\<close>

subsection \<open>One client\<close>

text \<open>One iteration per element: the latency and size of the update, or \<^verbatim>\<open>None\<close> when the channel or stream has ended.\<close>

fun sample_loop :: "(nat \<times> nat) option list \<Rightarrow> nat list \<times> nat list" where
  "sample_loop [] = ([], [])"
| "sample_loop (None # rs) = sample_loop rs"
| "sample_loop (Some (lat, n) # rs) = (let (lats, sizes) = sample_loop rs in (lat # lats, n # sizes))"

definition bench_sodp :: "(nat \<times> nat) option list \<Rightarrow> bench_result" where
  "bench_sodp reports =
     (let (lats, sizes) = sample_loop reports
      in \<lparr>br_name = ''SODP (delta)'', br_latencies_us = lats, br_bytes_per_update = sizes\<rparr>)"

definition bench_grpc :: "(nat \<times> nat) option list \<Rightarrow> bench_result" where
  "bench_grpc events =
     (let (lats, sizes) = sample_loop events
      in \<lparr>br_name = ''gRPC (stream)'', br_latencies_us = lats, br_bytes_per_update = sizes\<rparr>)"

text \<open>The REST client reads chunks, each with the time of its arrival, until the buffer holds a blank line; \<^verbatim>\<open>None\<close> is a failed read.\<close>

fun rest_sample :: "nat \<Rightarrow> bytes \<Rightarrow> (nat \<times> bytes) option list \<Rightarrow> (nat \<times> nat) option \<times> (nat \<times> bytes) option list" where
  "rest_sample t buf [] = (None, [])"
| "rest_sample t buf (None # sse) = (None, sse)"
| "rest_sample t buf (Some (now, chunk) # sse) =
     (if find_double_newline (buf @ chunk) \<noteq> None then (Some (now - t, length (buf @ chunk)), sse)
      else rest_sample t (buf @ chunk) sse)"

fun rest_loop :: "nat list \<Rightarrow> (nat \<times> bytes) option list \<Rightarrow> (nat \<times> nat) option list" where
  "rest_loop [] sse = []"
| "rest_loop (t # ts) sse = (let (r, sse') = rest_sample t [] sse in r # rest_loop ts sse')"

definition bench_rest :: "nat list \<Rightarrow> (nat \<times> bytes) option list \<Rightarrow> bench_result" where
  "bench_rest send_times sse =
     (let (lats, sizes) = sample_loop (rest_loop send_times sse)
      in \<lparr>br_name = ''REST (SSE)'', br_latencies_us = lats, br_bytes_per_update = sizes\<rparr>)"

text \<open>The row without watchers, from the round-trip times of its calls.\<close>

definition bench_baseline_sodp :: "nat list \<Rightarrow> scale_row" where
  "bench_baseline_sodp latencies =
     (let total_us = sum_list latencies;
          ops_sec = (if total_us > 0 then 1000000 * of_nat (length latencies) / of_nat total_us else 0)
      in \<lparr>sr_watchers = 0, sr_conns = 0, sr_ops_sec = ops_sec,
          sr_p50_us = percentile latencies 50, sr_p99_us = percentile latencies 99\<rparr>)"

subsection \<open>Many watchers\<close>

text \<open>A round takes its receipts off the channel: up to the number it wants, or up to the first timeout.\<close>

fun take_receipts :: "'a option list \<Rightarrow> nat \<Rightarrow> 'a option list \<times> 'a option list" where
  "take_receipts rx 0 = ([], rx)"
| "take_receipts [] (Suc want) = ([], [])"
| "take_receipts (None # rx) (Suc want) = ([None], rx)"
| "take_receipts (Some r # rx) (Suc want) = (let (taken, rest) = take_receipts rx want in (Some r # taken, rest))"

definition since_send :: "nat \<Rightarrow> (nat \<times> nat) option \<Rightarrow> (nat \<times> nat) option" where
  "since_send t = map_option (\<lambda>(recv_time, n). (recv_time - t, n))"

fun fanout_loop :: "nat \<Rightarrow> nat list \<Rightarrow> (nat \<times> nat) option list \<Rightarrow> nat list \<times> nat list" where
  "fanout_loop watchers [] rx = ([], [])"
| "fanout_loop watchers (t # ts) rx =
     (let (taken, rx') = take_receipts rx watchers;
          (max_us, bytes) = collect_receipts (map (since_send t) taken) watchers 0 0;
          (maxs, totals) = fanout_loop watchers ts rx'
      in (max_us # maxs, bytes # totals))"

definition fanout_label :: "nat \<Rightarrow> nat \<Rightarrow> string" where
  "fanout_label watchers mux =
     (if max mux 1 = 1 then ''SODP (delta)''
      else ''mux='' @ show_nat (max mux 1) @ '' ('' @ show_nat (fanout_conns watchers mux) @ '' conns)'')"

definition bench_fanout_sodp_at :: "nat \<Rightarrow> nat \<Rightarrow> nat list \<Rightarrow> (nat \<times> nat) option list \<Rightarrow> fanout_result" where
  "bench_fanout_sodp_at watchers mux send_times rx =
     (let (maxs, totals) = fanout_loop watchers send_times rx
      in \<lparr>fr_name = fanout_label watchers mux, fr_max_latencies_us = maxs, fr_total_bytes_per_round = totals\<rparr>)"

definition bench_fanout_rest :: "nat \<Rightarrow> nat list \<Rightarrow> (nat \<times> nat) option list \<Rightarrow> fanout_result" where
  "bench_fanout_rest watchers send_times rx =
     (let (maxs, totals) = fanout_loop watchers send_times rx
      in \<lparr>fr_name = ''REST (SSE)'', fr_max_latencies_us = maxs, fr_total_bytes_per_round = totals\<rparr>)"

definition bench_fanout_grpc :: "nat \<Rightarrow> nat list \<Rightarrow> (nat \<times> nat) option list \<Rightarrow> fanout_result" where
  "bench_fanout_grpc watchers send_times rx =
     (let (maxs, totals) = fanout_loop watchers send_times rx
      in \<lparr>fr_name = ''gRPC (stream)'', fr_max_latencies_us = maxs, fr_total_bytes_per_round = totals\<rparr>)"

definition setup_ms :: "nat \<Rightarrow> nat" where
  "setup_ms conns = max (conns * 6) 600"

subsection \<open>The reports\<close>

text \<open>The rows that win in the median, the 99th percentile and the bytes.\<close>

definition fanout_winners :: "fanout_result list \<Rightarrow> nat \<times> nat \<times> nat" where
  "fanout_winners results =
     (winner_min (map fr_p50 results), winner_min (map fr_p99 results), winner_min_usize (map avg_total_bytes results))"

definition fanout_rows :: "fanout_result list \<Rightarrow> (string \<times> string \<times> string \<times> string) list" where
  "fanout_rows results =
     (let (wi_p50, wi_p99, wi_bytes) = fanout_winners results
      in map (\<lambda>(i, r). (fr_name r, cell (show_nat (fr_p50 r)) (i = wi_p50), cell (show_nat (fr_p99 r)) (i = wi_p99),
                        cell (show_nat (avg_total_bytes r)) (i = wi_bytes)))
           (zip [0..<length results] results))"

record mux_result =
  mr_mux :: nat
  mr_conns :: nat
  mr_r :: fanout_result

definition mux_winners :: "mux_result list \<Rightarrow> nat \<times> nat" where
  "mux_winners results = (winner_min (map (fr_p50 \<circ> mr_r) results), winner_min (map (fr_p99 \<circ> mr_r) results))"

text \<open>The multiplication sign is two bytes in UTF-8.\<close>

definition mux_rows :: "mux_result list \<Rightarrow> (string \<times> string \<times> string \<times> string) list" where
  "mux_rows results =
     (let (wi_p50, wi_p99) = mux_winners results
      in map (\<lambda>(i, mr). (show_nat (mr_mux mr) @ [CHR 0xC3, CHR 0x97], show_nat (mr_conns mr),
                         cell (show_nat (fr_p50 (mr_r mr))) (i = wi_p50), cell (show_nat (fr_p99 (mr_r mr))) (i = wi_p99)))
           (zip [0..<length results] results))"

text \<open>The last line of the fan-out report; indexing a list that is too short panics.\<close>

definition saved_kb :: "nat list \<Rightarrow> nat option" where
  "saved_kb bytes = (if length bytes < 2 then None else Some ((bytes ! 1 - bytes ! 0) * 10 div 1024))"

subsection \<open>The order of the runs\<close>

datatype target = RustUrl | GoUrl

datatype bench_run =
    SodpRun nat
  | RestRun nat
  | GrpcRun nat
  | BaselineRun target nat
  | FanoutSodp target nat nat nat
  | FanoutRest nat nat
  | FanoutGrpc nat nat
  | ResumeTest

definition bench_scale_sweep :: "target \<Rightarrow> nat list \<Rightarrow> nat \<Rightarrow> bool \<Rightarrow> bench_run list" where
  "bench_scale_sweep url watcher_counts mux quick =
     concat (map (\<lambda>w. let rounds = scale_rounds w quick in
         if w = 0 then [BaselineRun url 20, BaselineRun url rounds]
         else [FanoutSodp url w mux 5, FanoutSodp url w mux rounds]) watcher_counts)"

definition bench_mux_matrix :: "nat \<Rightarrow> nat \<Rightarrow> bench_run list" where
  "bench_mux_matrix watchers rounds =
     concat (map (\<lambda>mux. [FanoutSodp RustUrl watchers mux 30, FanoutSodp RustUrl watchers mux rounds]) (mux_candidates watchers))"

definition single_client_runs :: "bool \<Rightarrow> bool \<Rightarrow> bench_run list" where
  "single_client_runs quick scale_only =
     (let warmup = (if quick then 50 else 500); iters = (if quick then 300 else 2000)
      in if \<not> scale_only
         then [SodpRun warmup, RestRun warmup, GrpcRun warmup, SodpRun iters, RestRun iters, GrpcRun iters]
         else [SodpRun 100])"

definition nomux_counts :: "bool \<Rightarrow> bool \<Rightarrow> nat list" where
  "nomux_counts quick scale_only = (if quick \<and> \<not> scale_only then [0, 10, 100, 1000] else [0, 10, 100, 500, 1000])"

definition mux_counts :: "bool \<Rightarrow> bool \<Rightarrow> nat list" where
  "mux_counts quick scale_only = (if quick \<and> \<not> scale_only then [0, 100, 1000] else [0, 100, 500, 1000])"

definition sweep_runs :: "target \<Rightarrow> bool \<Rightarrow> bool \<Rightarrow> bench_run list" where
  "sweep_runs url quick scale_only =
     (let full = (\<not> quick \<or> scale_only)
      in bench_scale_sweep url (nomux_counts quick scale_only) 1 (\<not> full) @
         bench_scale_sweep url (mux_counts quick scale_only) 100 (\<not> full))"

definition fanout_runs :: "nat \<Rightarrow> nat \<Rightarrow> bench_run list" where
  "fanout_runs watchers rounds =
     (if rounds > 0
      then [FanoutSodp RustUrl watchers 1 50, FanoutRest watchers 50, FanoutGrpc watchers 50,
            FanoutSodp RustUrl watchers 1 rounds, FanoutRest watchers rounds, FanoutGrpc watchers rounds]
      else [])"

definition matrix_runs :: "nat \<Rightarrow> nat \<Rightarrow> bool \<Rightarrow> bool \<Rightarrow> bench_run list" where
  "matrix_runs watchers rounds quick scale_only =
     (if \<not> scale_only
      then bench_mux_matrix (if quick then watchers else 500) (if quick then 50 else rounds) @ [ResumeTest]
      else [])"

definition bench_main :: "bool \<Rightarrow> bool \<Rightarrow> bool \<Rightarrow> bench_run list" where
  "bench_main quick scale_only compare =
     (let fanout_watchers = 100; fanout_rounds = (if quick \<or> scale_only then 0 else 300)
      in single_client_runs quick scale_only @
         sweep_runs RustUrl quick scale_only @
         (if compare then sweep_runs GoUrl quick scale_only else []) @
         fanout_runs fanout_watchers fanout_rounds @
         matrix_runs fanout_watchers fanout_rounds quick scale_only)"

subsection \<open>Facts\<close>

lemma sample_loop_eq: "sample_loop rs = (let xs = map the (filter (\<lambda>r. r \<noteq> None) rs) in (map fst xs, map snd xs))"
  by (induction rs rule: sample_loop.induct) (simp_all add: Let_def)

lemma take_receipts_all:
  "length rs = want \<Longrightarrow> take_receipts (map Some rs @ rx) want = (map Some rs, rx)"
  by (induction rs arbitrary: want) auto

text \<open>
  When every watcher reports in every round, the loop records for each round the greatest latency and the
  sum of the sizes over exactly the receipts of that round.
\<close>

theorem fanout_loop_exact:
  assumes "\<forall>(t, rs) \<in> set rounds. length rs = watchers"
  shows "fanout_loop watchers (map fst rounds) (concat (map (map Some \<circ> snd) rounds)) =
    (map (\<lambda>(t, rs). fold max (map (\<lambda>r. fst r - t) rs) 0) rounds, map (\<lambda>(t, rs). sum_list (map snd rs)) rounds)"
  using assms
proof (induction rounds)
  case (Cons x rounds)
  obtain t rs where x: "x = (t, rs)" "length rs = watchers"
    using Cons.prems by (cases x) simp
  have "map (since_send t) (map Some rs) = map Some (map (\<lambda>r. (fst r - t, snd r)) rs)"
    by (simp add: since_send_def split_def)
  then have "collect_receipts (map (since_send t) (map Some rs)) watchers 0 0 =
      (fold max (map (\<lambda>r. fst r - t) rs) 0, sum_list (map snd rs))"
    using x(2) unfolding collect_receipts_eq Let_def by (simp only:) (simp add: takeWhile_eq_all_conv [THEN iffD2] o_def)
  then show ?case
    using Cons by (simp add: x take_receipts_all Let_def)
qed simp

text \<open>
  After a timeout the receipts that come late are taken for the next round: with two watchers, one of them
  late in the first round, the second round records the late receipt and leaves one of its own on the channel.
\<close>

theorem late_receipt_counts_in_next_round:
  "fanout_loop 2 [0, 6000000] [Some (10, 7), None, Some (6000005, 7), Some (6000090, 8), Some (6000300, 8)] =
     ([10, 90], [7, 15])"
  by (simp add: since_send_def numeral_2_eq_2)

text \<open>Every run of every mode has watchers and rounds, so no report divides by zero or indexes an empty table.\<close>

fun run_nonempty :: "bench_run \<Rightarrow> bool" where
  "run_nonempty (SodpRun n) = (n > 0)"
| "run_nonempty (RestRun n) = (n > 0)"
| "run_nonempty (GrpcRun n) = (n > 0)"
| "run_nonempty (BaselineRun u n) = (n > 0)"
| "run_nonempty (FanoutSodp u w m n) = (w > 0 \<and> m > 0 \<and> n > 0)"
| "run_nonempty (FanoutRest w n) = (w > 0 \<and> n > 0)"
| "run_nonempty (FanoutGrpc w n) = (w > 0 \<and> n > 0)"
| "run_nonempty ResumeTest = True"

lemma sweep_nonempty: "0 < mux \<Longrightarrow> list_all run_nonempty (bench_scale_sweep u ws mux quick)"
  by (induction ws) (simp_all add: bench_scale_sweep_def scale_rounds_def Let_def)

lemma matrix_nonempty: "0 < w \<Longrightarrow> 0 < n \<Longrightarrow> list_all run_nonempty (bench_mux_matrix w n)"
  by (auto simp: bench_mux_matrix_def mux_candidates_def list_all_iff)

theorem bench_main_nonempty: "list_all run_nonempty (bench_main quick scale_only compare)"
  by (simp add: bench_main_def single_client_runs_def sweep_runs_def fanout_runs_def matrix_runs_def Let_def
      sweep_nonempty matrix_nonempty)

text \<open>Two values of the workload differ in the counter, so each mutation is one UPDATE.\<close>

theorem workload_delta:
  assumes "i \<noteq> j"
  shows "diff (test_object i) (test_object j) = [op_update ''/counter'' (json_u64 j)]"
  using assms
  by (simp add: test_object_def json_obj_def json_u64_def filler_def diff_def join_path_def)


end
