(* ===== verification/Store_Races.thy ===== *)
theory Store_Races
  imports Store_Threads
begin

section \<open>Schedules of store operations that go wrong\<close>

text \<open>
  Concurrent calls on \<^verbatim>\<open>StateStore\<close> are safe when their keys differ and nobody compacts
  (\<open>Store_Threads\<close>). The two schedules here show that both conditions are needed. A compaction takes
  its snapshot without holding the mutex of the on-disk log, so a write that comes between the
  snapshot and the compaction is dropped from disk. And two calls on one key may finish in the
  opposite order of their versions: the live value, what a subscriber has, and what a restart finds
  are then three different values.
\<close>

subsection \<open>Compaction with a stale snapshot\<close>

text \<open>The store when a call has appended its record and has not looked at compaction yet.\<close>

definition after_append :: "encoder \<Rightarrow> state_store \<Rightarrow> mutation \<Rightarrow> state_store" where
  "after_append enc s m =
     (mutate enc s m)\<lparr>st_plog := map_option (\<lambda>lg. snd (log_append enc lg (entry_written s m))) (st_plog s)\<rparr>"

lemma apply_until_compaction:
  assumes "st_plog s = Some lg" and "apply_delta s key v \<noteq> []"
    and "needs_compact (snd (log_append enc lg (entry_written s (Apply key v))))"
  shows "(alone enc ^^ 6) (s, ApplyVersion key v) =
     (after_append enc s (Apply key v),
      CompactDisk (entry_written s (Apply key v)) (snapshot_entries (after_append enc s (Apply key v))))"
proof -
  let ?e = "entry_written s (Apply key v)"
  have "after_append enc s (Apply key v) =
      s\<lparr>st_version := st_version s + 1,
        st_entries := AList.update key \<lparr>e_version = st_version s + 1, e_value = v\<rparr> (st_entries s),
        st_log := dl_append (st_log s) key (st_version s + 1) (apply_delta s key v),
        st_plog := Some (snd (log_append enc lg ?e))\<rparr>"
    using assms(1,2) by (intro state_store.equality) (simp_all add: after_append_def mutate_def)
  then show ?thesis
    using assms
    by (simp add: numeral_eq_Suc alone_def apply_delta_def store_get_def entry_written_def snapshot_entries_def)
qed


lemma next_seg_le: "next_seg n \<le> Suc n"
  by (simp add: next_seg_def)

lemma log_append_seg: "current_seg (snd (log_append enc lg e)) \<le> current_seg lg + 1"
  by (auto simp: log_append_def rotate_def next_seg_le Let_def split: sum.splits option.splits)

lemma compact_seg: "current_seg (snd (compact enc lg es)) \<le> current_seg lg + 2"
  using next_seg_le [of "current_seg lg"] next_seg_le [of "next_seg (current_seg lg)"]
  by (auto simp: compact_def Let_def split: sum.splits prod.splits)

lemma apply_seg:
  assumes "st_plog s = Some lg"
  shows "\<exists>lg'. st_plog (mutate enc s (Apply key v)) = Some lg' \<and> current_seg lg' \<le> current_seg lg + 3"
proof -
  have "\<exists>lg'. st_plog (persist enc s' e) = Some lg' \<and> current_seg lg' \<le> current_seg lg + 3"
    if "st_plog s' = Some lg" for s' e
    using that log_append_seg [of enc lg e]
    by (auto simp: persist_def compact_plog_def Let_def intro!: order_trans [OF compact_seg])
  then show ?thesis
    using assms by (simp add: mutate_def store_apply_def Let_def)
qed

lemma durable_after_append:
  assumes "durable enc dec s" and "disk_mutation_ok enc dec s (Apply key v)"
  shows "durable enc dec (after_append enc s (Apply key v))"
proof -
  let ?m = "Apply key v" and ?e = "entry_written s (Apply key v)"
  obtain lg where lg: "st_plog s = Some lg" "log_ok enc dec lg" "mirrors (disk_entries dec (log_dir lg)) s"
    and s: "store_ok s"
    using assms(1) by (auto simp: durable_def split: option.splits)
  have m: "unat (st_version s) + 1 < 2 ^ 64" "json_ok v" "current_seg lg + 1 < 2 ^ 64" "stored_ok enc dec ?e"
    using assms(2) lg(1) by (simp_all add: disk_mutation_ok_def mutation_ok_def replicable_def)
  obtain lg1 where lg1: "log_append enc lg ?e = (Inr (), lg1)" "log_ok enc dec lg1"
    "disk_entries dec (log_dir lg1) = disk_entries dec (log_dir lg) @ [?e]"
    using log_append_ok [OF lg(2) m(4,3)] by metis
  have ok: "store_ok (mutate enc s ?m)"
    using store_ok_apply [OF s m(1,2)] by (simp add: mutate_def)
  have "mirrors (disk_entries dec (log_dir lg) @ [?e]) (mutate enc s ?m)"
    by (rule mirrors_snoc [OF lg(3) version_less [OF m(1)]])
      (use m(2) in \<open>simp_all add: entry_written_def mutate_def store_get_apply\<close>)
  then have "mirrors (disk_entries dec (log_dir lg1)) (after_append enc s ?m)"
    unfolding lg1(3) by (subst mirrors_cong [of _ "mutate enc s ?m"]) (simp_all add: after_append_def)
  moreover have "store_ok (after_append enc s ?m)"
    using ok by (subst store_ok_cong [of _ "mutate enc s ?m"]) (simp_all add: after_append_def)
  ultimately show ?thesis
    using lg(1) lg1(1,2) by (simp add: durable_def after_append_def)
qed

text \<open>
  The schedule: the first call appends, decides to compact and takes its snapshot; the second call
  runs from start to end; then the first call compacts with the snapshot it took.
\<close>

definition stale_schedule :: "nat list" where
  "stale_schedule = replicate 6 0 @ replicate 7 1 @ replicate 1 0"

lemma stale_run:
  assumes "st_plog s = Some lg" and "apply_delta s k v \<noteq> []"
    and "needs_compact (snd (log_append enc lg (entry_written s (Apply k v))))"
  defines "s1 \<equiv> after_append enc s (Apply k v)"
  assumes "s1' = mutate enc s1 (Apply k' w)" and "st_plog s1' = Some lg1"
    and "compact enc lg1 (snapshot_entries s1) = (r, lg2)"
  shows "run_schedule enc (s, map thread_of [Apply k v, Apply k' w]) stale_schedule =
     (s1'\<lparr>st_plog := Some lg2\<rparr>,
      [op_returns (entry_written s (Apply k v)), Returned (mutation_result enc s1 (Apply k' w))])"
proof -
  let ?ts = "map thread_of [Apply k v, Apply k' w]"
  let ?t = "CompactDisk (entry_written s (Apply k v)) (snapshot_entries s1)"
  have "run_schedule enc (s, ?ts) (replicate 6 0) = (s1, ?ts[0 := ?t])"
    by (rule run_schedule_solo)
      (use apply_until_compaction [OF assms(1-3)] in \<open>simp_all add: thread_of_def s1_def\<close>)
  moreover have "run_schedule enc (s1, ?ts[0 := ?t]) (replicate 7 1) =
      (s1', ?ts[0 := ?t, 1 := Returned (mutation_result enc s1 (Apply k' w))])"
    by (rule run_schedule_solo)
      (use thread_alone [of enc s1 "Apply k' w"] in \<open>simp_all add: thread_of_def assms(5)\<close>)
  moreover have "run_schedule enc (s1', ?ts[0 := ?t, 1 := t1]) (replicate 1 0) =
      (s1'\<lparr>st_plog := Some lg2\<rparr>, ?ts[0 := op_returns (entry_written s (Apply k v)), 1 := t1])" for t1
    by (simp add: run_schedule_def schedule_step_def assms(6,7))
  ultimately show ?thesis
    unfolding stale_schedule_def by (simp only: run_schedule_append) simp
qed

lemma stale_compaction:
  assumes "durable enc dec s" and "st_plog s = Some lg" and "k \<noteq> k'"
    and "apply_delta s k v \<noteq> []" and "disk_mutation_ok enc dec s (Apply k v)"
    and "needs_compact (snd (log_append enc lg (entry_written s (Apply k v))))"
    and "disk_mutation_ok enc dec (after_append enc s (Apply k v)) (Apply k' w)"
    and "\<forall>e \<in> set (snapshot_entries (after_append enc s (Apply k v))). stored_ok enc dec e"
    and "current_seg lg + 6 < 2 ^ 64"
  shows "\<exists>s2 lg2 s3. run_schedule enc (s, map thread_of [Apply k v, Apply k' w]) stale_schedule =
       (s2, map (\<lambda>r. Returned (Some r))
              [fst (store_apply enc s k v), fst (store_apply enc (after_append enc s (Apply k v)) k' w)]) \<and>
     st_plog s2 = Some lg2 \<and> store_get s2 k' = Some \<lparr>e_version = st_version s + 2, e_value = w\<rparr> \<and>
     store_open dec (log_dir lg2) = Inr s3 \<and> value_of s3 k = v \<and> value_of s3 k' = value_of s k'"
proof -
  let ?e = "entry_written s (Apply k v)"
  define s1 where "s1 = after_append enc s (Apply k v)"
  define s1' where "s1' = mutate enc s1 (Apply k' w)"
  obtain lg1 where lg1: "st_plog s1 = Some lg1" "current_seg lg1 \<le> current_seg lg + 1"
    using assms(2) log_append_seg [of enc lg ?e] by (simp add: s1_def after_append_def)
  obtain lg1' where lg1': "st_plog s1' = Some lg1'" "current_seg lg1' \<le> current_seg lg1 + 3"
    using apply_seg [OF lg1(1)] unfolding s1'_def by blast
  have d1: "durable enc dec s1"
    unfolding s1_def by (rule durable_after_append [OF assms(1,5)])
  have "durable enc dec s1'"
    unfolding s1'_def using d1 assms(7) by (intro durable_mutate) (simp_all add: s1_def)
  then have "log_ok enc dec lg1'"
    using lg1'(1) by (simp add: durable_def)
  moreover have "current_seg lg1' + 2 < 2 ^ 64"
    using lg1(2) lg1'(2) assms(9) by linarith
  ultimately obtain lg2 where lg2: "compact enc lg1' (snapshot_entries s1) = (Inr (), lg2)" "log_ok enc dec lg2"
    "disk_entries dec (log_dir lg2) = snapshot_entries s1"
    using compact_ok [of enc dec lg1' "snapshot_entries s1"] assms(8) by (metis s1_def)
  have "store_ok s1"
    using d1 by (simp add: durable_def)
  then have mir: "mirrors (snapshot_entries s1) (s1\<lparr>st_plog := Some lg2\<rparr>)"
      "store_ok (s1\<lparr>st_plog := Some lg2\<rparr>)"
    using mirrors_snapshot [of s1] mirrors_cong [of s1 "s1\<lparr>st_plog := Some lg2\<rparr>"]
      store_ok_cong [of s1 "s1\<lparr>st_plog := Some lg2\<rparr>"] by simp_all
  then have "durable enc dec (s1\<lparr>st_plog := Some lg2\<rparr>)"
    using lg2 by (simp add: durable_def)
  then obtain s3 where s3: "store_open dec (log_dir lg2) = Inr s3"
    "\<And>k. store_get s3 k = map_option entry_of (disk_last (disk_entries dec (log_dir lg2)) k)"
    using recover [of enc dec "s1\<lparr>st_plog := Some lg2\<rparr>" lg2] by (metis select_convs(4) surjective update_convs(4))
  have val: "value_of s3 j = value_of s1 j" for j
    using recover_values(1) [OF mir(1), of s3 j] s3(2) lg2(3) by (simp add: value_of_def)
  have "run_schedule enc (s, map thread_of [Apply k v, Apply k' w]) stale_schedule =
      (s1'\<lparr>st_plog := Some lg2\<rparr>, [op_returns ?e, Returned (mutation_result enc s1 (Apply k' w))])"
    by (rule stale_run [OF assms(2,4,6), folded s1_def, OF s1'_def lg1'(1) lg2(1)])
  moreover have "store_get (s1'\<lparr>st_plog := Some lg2\<rparr>) k' = Some \<lparr>e_version = st_version s + 2, e_value = w\<rparr>"
    by (simp add: s1'_def s1_def mutate_def store_get_apply after_append_def)
  moreover have "value_of s3 k = v" "value_of s3 k' = value_of s k'"
    using assms(3) by (simp_all add: val) (simp_all add: s1_def after_append_def value_of_def mutate_def store_get_apply)
  ultimately show ?thesis
    using s3(1)
    by (intro exI [of _ "s1'\<lparr>st_plog := Some lg2\<rparr>"] exI [of _ lg2] exI [of _ s3])
      (simp add: op_returns_def mutation_result_def entry_written_def store_apply_result s1_def)
qed


subsection \<open>Two calls on one key\<close>

text \<open>After sorting by version the entry with the greatest version of a key is the one that counts.\<close>

lemma disk_last_max:
  assumes "e \<in> set D" and "le_key e = k"
    and "\<And>x. x \<in> set D \<Longrightarrow> le_key x = k \<Longrightarrow> x \<noteq> e \<Longrightarrow> le_version x < le_version e"
  shows "disk_last (sort_key le_version D) k = Some e"
proof -
  let ?F = "filter (\<lambda>e. le_key e = k) D"
  have e: "e \<in> set ?F"
    using assms(1,2) by simp
  then have "sort_key le_version ?F \<noteq> []"
    by (metis empty_iff empty_set set_sort)
  then have "last (sort_key le_version ?F) \<in> set ?F"
    using last_in_set set_sort by metis
  then have "last (sort_key le_version ?F) = e"
    using sorted_last_max [OF e] assms(3) [of "last (sort_key le_version ?F)"] by (fastforce dest: leD)
  then show ?thesis
    using \<open>sort_key le_version ?F \<noteq> []\<close> by (simp add: disk_last_def filter_sort Let_def)
qed

lemma open_last:
  assumes "log_ok enc dec lg" and "disk_last (sort_key le_version (disk_entries dec (log_dir lg))) k = Some e"
  shows "\<exists>s'. store_open dec (log_dir lg) = Inr s' \<and> value_of s' k = le_value e"
proof -
  let ?S = "sort_key le_version (disk_entries dec (log_dir lg))"
  have "log_open dec (log_dir lg) = Inr (lg, disk_entries dec (log_dir lg))"
    using assms(1) reopen [of enc dec "log_dir lg"] by (simp add: log_ok_def)
  moreover have "map_of (fst (foldl rebuild_entry ([], []) ?S)) k = Some (entry_of e)"
    using map_of_rebuild [of "([], [])" ?S k] assms(2) by simp
  ultimately show ?thesis
    by (simp add: store_open_def value_of_def store_get_def entry_of_def Let_def split_def)
qed

text \<open>The first call takes its version and its diff, is overtaken by the second, and then goes on.\<close>

definition overtaken_schedule :: "nat list" where
  "overtaken_schedule = replicate 2 0 @ replicate 7 1 @ replicate 5 0"

lemma overtaken_run:
  fixes enc :: encoder and w :: json
  assumes "apply_delta s k v \<noteq> []"
  defines "sb \<equiv> mutate enc (s\<lparr>st_version := st_version s + 1\<rparr>) (Apply k w)"
    and "e \<equiv> entry_written s (Apply k v)"
  shows "run_schedule enc (s, map thread_of [Apply k v, Apply k w]) overtaken_schedule =
     (persist enc (sb\<lparr>st_entries := AList.update k (entry_of e) (st_entries sb),
                      st_log := dl_append (st_log sb) k (le_version e) (le_ops e)\<rparr>) e,
      [op_returns e, Returned (mutation_result enc (s\<lparr>st_version := st_version s + 1\<rparr>) (Apply k w))])"
proof -
  let ?ts = "map thread_of [Apply k v, Apply k w]" and ?s = "s\<lparr>st_version := st_version s + 1\<rparr>"
  let ?t = "ApplyInsert k v (st_version s + 1) (apply_delta s k v)"
  let ?r = "Returned (mutation_result enc ?s (Apply k w))"
  have "run_schedule enc (s, ?ts) (replicate 2 0) = (?s, ?ts[0 := ?t])"
    by (rule run_schedule_solo)
      (simp_all add: thread_of_def numeral_2_eq_2 alone_def apply_delta_def store_get_def)
  moreover have "run_schedule enc (?s, ?ts[0 := ?t]) (replicate 7 1) = (sb, ?ts[0 := ?t, 1 := ?r])"
    by (rule run_schedule_solo)
      (use thread_alone [of enc ?s "Apply k w"] in \<open>simp_all add: thread_of_def sb_def\<close>)
  moreover have "(alone enc ^^ Suc 4) (sb, ?t) =
      (persist enc (sb\<lparr>st_entries := AList.update k (entry_of e) (st_entries sb),
                      st_log := dl_append (st_log sb) k (le_version e) (le_ops e)\<rparr>) e, op_returns e)"
    using assms(1) unfolding alone_Suc
    by (simp add: alone_log e_def entry_written_def entry_of_def op_returns_def)
  then have "run_schedule enc (sb, ?ts[0 := ?t, 1 := ?r]) (replicate 5 0) =
      (persist enc (sb\<lparr>st_entries := AList.update k (entry_of e) (st_entries sb),
                      st_log := dl_append (st_log sb) k (le_version e) (le_ops e)\<rparr>) e,
       ?ts[0 := op_returns e, 1 := ?r])"
    using run_schedule_solo [where i = 0 and ts = "?ts[0 := ?t, 1 := ?r]" and n = "Suc 4"] by simp
  ultimately show ?thesis
    unfolding overtaken_schedule_def by (simp only: run_schedule_append) simp
qed


lemma deltas_two_new:
  assumes "store_ok s" and "st_version s < v" and "st_version s < w"
  shows "dl_since (dl_append (dl_append (st_log s) k v ops) k w ops') k (st_version s) = [(v, ops), (w, ops')]"
proof -
  let ?ds = "dl_entries (st_log s) k" and ?new = "\<lambda>d :: delta_rec. st_version s < fst d"
  have old: "filter ?new (drop n ?ds) = []" for n
    using deltas_ok_entries [OF assms(1), of k] by (auto simp: deltas_ok_def filter_empty_conv dest!: in_set_dropD)
  have "length ?ds \<le> MAX_DELTA_LOG_ENTRIES_PER_KEY"
    using deltas_ok_entries [OF assms(1), of k] by (simp add: deltas_ok_def)
  then have "cap (?ds @ [(v, ops), (w, ops')]) =
      drop (length ?ds + 2 - MAX_DELTA_LOG_ENTRIES_PER_KEY) ?ds @ [(v, ops), (w, ops')]"
    by (simp add: cap_def MAX_DELTA_LOG_ENTRIES_PER_KEY_def)
  then show ?thesis
    using assms(2,3) cap_cap [of "?ds @ [(v, ops)]" "[(w, ops')]"]
    by (simp add: dl_since_filter dl_entries_append old)
qed

lemma unat_plus_2: "unat (v :: u64) + 2 < 2 ^ 64 \<Longrightarrow> unat (v + 2) = unat v + 2"
  using unat_plus_small [of v 2] by simp

lemma overtaken_outcome:
  assumes s: "durable enc dec s" "st_plog s = Some lg" "unat (st_version s) + 2 < 2 ^ 64"
    and room: "entry_count lg + 1 < MAX_ENTRIES_PER_SEGMENT" "\<not> needs_compact lg"
    and ops: "apply_delta s k v \<noteq> []" "apply_delta s k w \<noteq> []"
    and stored: "stored_ok enc dec (entry_at s (Apply k v) (st_version s + 1))"
      "stored_ok enc dec (entry_at s (Apply k w) (st_version s + 2))"
  shows "\<exists>s1 lg1 s2. run_schedule enc (s, map thread_of [Apply k v, Apply k w]) overtaken_schedule =
       (s1, map (\<lambda>r. Returned (Some r))
              [(st_version s + 1, apply_delta s k v), (st_version s + 2, apply_delta s k w)]) \<and>
     value_of s1 k = v \<and>
     deltas_since s1 k (st_version s) =
       [(st_version s + 2, apply_delta s k w), (st_version s + 1, apply_delta s k v)] \<and>
     st_plog s1 = Some lg1 \<and> store_open dec (log_dir lg1) = Inr s2 \<and> value_of s2 k = w"
proof -
  let ?s = "s\<lparr>st_version := st_version s + 1\<rparr>" and ?e = "entry_at s (Apply k v) (st_version s + 1)"
  let ?f = "entry_at s (Apply k w) (st_version s + 2)"
  define D where "D = disk_entries dec (log_dir lg)"
  have lg: "log_ok enc dec lg" "store_ok s" "\<And>x. x \<in> set D \<Longrightarrow> le_version x \<le> st_version s"
    using s(1,2) by (auto simp: durable_def mirrors_def D_def)
  have less: "st_version s < st_version s + 1" "st_version s < st_version s + 2" "st_version s + 1 < st_version s + 2"
    using s(3) unat_Suc_u64 [of "st_version s"] unat_plus_2 [of "st_version s"] by (simp_all add: word_less_nat_alt)
  have delta: "apply_delta ?s k x = apply_delta s k x" for x
    by (simp add: apply_delta_def)
  define sb where "sb = mutate enc ?s (Apply k w)"
  define sw where "sw = ?s\<lparr>st_version := st_version s + 2,
     st_entries := AList.update k \<lparr>e_version = st_version s + 2, e_value = w\<rparr> (st_entries s),
     st_log := dl_append (st_log s) k (st_version s + 2) (apply_delta s k w)\<rparr>"
  have sb: "sb = persist enc sw ?f"
    using ops(2) by (simp add: sb_def sw_def mutate_def store_apply_def apply_delta_def [symmetric] delta entry_at_def
        mutation_ops_def Let_def add.assoc)
  obtain lgb where b: "st_plog sb = Some lgb" "log_ok enc dec lgb" "\<not> needs_compact lgb"
    "entry_count lgb = entry_count lg + 1" "disk_entries dec (log_dir lgb) = D @ [?f]"
    using persist_append [of sw lg enc dec ?f] s(2) lg(1) stored(2) room by (auto simp: sb sw_def D_def)
  define sc where "sc = sb\<lparr>st_entries := AList.update k (entry_of ?e) (st_entries sb),
     st_log := dl_append (st_log sb) k (st_version s + 1) (apply_delta s k v)\<rparr>"
  obtain lg1 where 1: "st_plog (persist enc sc ?e) = Some lg1" "log_ok enc dec lg1"
    "disk_entries dec (log_dir lg1) = D @ [?f, ?e]"
    using persist_append [of sc lgb enc dec ?e] b stored(1) room by (auto simp: sc_def)
  have "le_version x < le_version ?f" if "x \<in> set D \<or> x = ?e" for x
    using that le_less_trans [OF lg(3) less(2)] less(3) by (auto simp: entry_at_simps)
  then have "disk_last (sort_key le_version (D @ [?f, ?e])) k = Some ?f"
    by (intro disk_last_max) (auto simp: entry_at_simps)
  then have "\<exists>s2. store_open dec (log_dir lg1) = Inr s2 \<and> value_of s2 k = w"
    using open_last [OF 1(2), of k ?f] 1(3) by (simp add: entry_at_def)
  moreover have "deltas_since (persist enc sc ?e) k (st_version s) =
       [(st_version s + 2, apply_delta s k w), (st_version s + 1, apply_delta s k v)]"
    using deltas_two_new [OF lg(2) less(2,1)] by (simp add: deltas_since_def sc_def sb sw_def)
  moreover have "value_of (persist enc sc ?e) k = v"
    by (simp add: value_of_def store_get_def sc_def entry_of_def entry_at_def update_conv')
  moreover have "entry_written s (Apply k v) = ?e"
    by (simp add: entry_written_def entry_at_def mutation_ops_def)
  ultimately show ?thesis
    using overtaken_run [OF ops(1), of enc w] 1(1) ops(1)
    by (auto simp: sb_def [symmetric] sc_def op_returns_def mutation_result_eq mutation_ops_def entry_at_def
        effective_def delta add.assoc)
qed


subsection \<open>Properties\<close>

text \<open>
  C35. A compaction can drop a write that has been acknowledged. A call finds that its log needs
  compaction and takes its snapshot; another call, on a different key, then runs to its end and
  returns; the first call compacts with the snapshot it holds. Both calls have returned, and the store
  in memory has the second write, but opening the directory gives its key the value from before.
\<close>

theorem compaction_race_loses_write:
  assumes "durable enc dec s" and "st_plog s = Some lg" and "k \<noteq> k'"
    and "apply_delta s k v \<noteq> []" and "disk_mutation_ok enc dec s (Apply k v)"
    and "needs_compact (snd (log_append enc lg (entry_written s (Apply k v))))"
    and "disk_mutation_ok enc dec (after_append enc s (Apply k v)) (Apply k' w)"
    and "\<forall>e \<in> set (snapshot_entries (after_append enc s (Apply k v))). stored_ok enc dec e"
    and "current_seg lg + 6 < 2 ^ 64"
  shows "\<exists>s2 lg2 s3. run_schedule enc (s, map thread_of [Apply k v, Apply k' w]) stale_schedule =
       (s2, map (\<lambda>r. Returned (Some r))
              [fst (store_apply enc s k v), fst (store_apply enc (after_append enc s (Apply k v)) k' w)]) \<and>
     st_plog s2 = Some lg2 \<and> store_get s2 k' = Some \<lparr>e_version = st_version s + 2, e_value = w\<rparr> \<and>
     store_open dec (log_dir lg2) = Inr s3 \<and> value_of s3 k = v \<and> value_of s3 k' = value_of s k'"
  using assms by (rule stale_compaction)

text \<open>
  C36. Two calls on one key are not atomic. The first takes its version and its diff, the second
  runs to its end, then the first goes on. Both return. The live value is the one of the call with
  the older version; the delta log lists the newer version first, with both diffs taken against the
  value at the start, so that is what a subscriber applies; and a restart finds the value of the call
  with the newer version.
\<close>

theorem same_key_race_diverges:
  assumes "durable enc dec s" and "st_plog s = Some lg" and "unat (st_version s) + 2 < 2 ^ 64"
    and "entry_count lg + 1 < MAX_ENTRIES_PER_SEGMENT" and "\<not> needs_compact lg"
    and "apply_delta s k v \<noteq> []" and "apply_delta s k w \<noteq> []"
    and "stored_ok enc dec (entry_at s (Apply k v) (st_version s + 1))"
    and "stored_ok enc dec (entry_at s (Apply k w) (st_version s + 2))"
  shows "\<exists>s1 lg1 s2. run_schedule enc (s, map thread_of [Apply k v, Apply k w]) overtaken_schedule =
       (s1, map (\<lambda>r. Returned (Some r))
              [(st_version s + 1, apply_delta s k v), (st_version s + 2, apply_delta s k w)]) \<and>
     value_of s1 k = v \<and>
     replay (value_of s k) (deltas_since s1 k (st_version s)) =
       apply_ops (apply_ops (value_of s k) (apply_delta s k w)) (apply_delta s k v) \<and>
     st_plog s1 = Some lg1 \<and> store_open dec (log_dir lg1) = Inr s2 \<and> value_of s2 k = w"
proof -
  have "replay c [(a, ops), (b, ops')] = apply_ops (apply_ops c ops) ops'" for c and a b :: u64 and ops ops'
    by (simp add: replay_def)
  then show ?thesis
    using overtaken_outcome [OF assms] by metis
qed

subsection \<open>Witnesses\<close>

text \<open>A store that starts on a directory of four empty segments, as a crash before a compaction leaves it.\<close>

definition crowded_dir :: dir where
  "crowded_dir = map (\<lambda>n. (segment_path n, [])) [0, 1, 2, 3]"

definition crowded_store :: "decoder \<Rightarrow> state_store" where
  "crowded_store dec = \<lparr>st_entries = [], st_version = 0, st_log = [], st_plog = Some (log_of dec crowded_dir)\<rparr>"

definition race_table :: "log_entry list" where
  "race_table =
     [\<lparr>le_version = 1, le_key = ''k'', le_ops = [op_add ''/'' (Bool True)], le_value = Bool True\<rparr>,
      \<lparr>le_version = 2, le_key = ''x'', le_ops = [op_add ''/'' (Bool True)], le_value = Bool True\<rparr>,
      \<lparr>le_version = 1, le_key = ''k'', le_ops = [], le_value = Bool True\<rparr>,
      \<lparr>le_version = 2, le_key = ''x'', le_ops = [], le_value = Bool True\<rparr>]"

lemma race_table_stored: "e \<in> set race_table \<Longrightarrow> stored_ok (table_enc race_table) (table_dec race_table) e"
  by (auto simp: race_table_def stored_ok_def table_enc_def table_dec_def upt_rec)

lemma crowded_dir_ok:
  "dir_ok enc dec crowded_dir" "list_segments crowded_dir = [0, 1, 2, 3]" "segment_entries dec crowded_dir n = []"
proof -
  have num: "segment_number (segment_path n) = Some n" if "n < 4" for n
    by (rule segment_number_path) (use that in simp)
  show segs: "list_segments crowded_dir = [0, 1, 2, 3]"
    using num by (simp add: crowded_dir_def list_segments_keys map_filter_def)
  have "segment_path m = segment_path n \<longleftrightarrow> m = n" if "m < 4" "n < 4" for m n
    using num that by (metis option.inject)
  then have "distinct (map fst crowded_dir)"
    by (simp add: crowded_dir_def)
  then show "dir_ok enc dec crowded_dir"
    using num segs whole_file_of [of "[]" enc dec] by (auto simp: dir_ok_def seg_file_ok_def crowded_dir_def)
  show "segment_entries dec crowded_dir n = []"
    using replay_clean [of "[]" _ dec] by (auto simp: segment_entries_def crowded_dir_def split: option.splits if_splits)
qed


lemma crowded_durable: "durable enc dec (crowded_store dec)"
proof -
  have "disk_entries dec (log_dir (log_of dec crowded_dir)) = []"
    by (simp add: disk_entries_def crowded_dir_ok(2,3) log_of_def)
  then show ?thesis
    using log_ok_log_of [OF crowded_dir_ok(1)]
    by (simp add: durable_def crowded_store_def store_ok_def mirrors_def disk_last_def store_get_def)
qed

lemma crowded_log:
  "current_seg (log_of dec crowded_dir) = 3" "segment_count (log_of dec crowded_dir) = 4"
  "entry_count (log_of dec crowded_dir) = 0"
  by (simp_all add: log_of_def crowded_dir_ok)

definition race_start :: state_store where
  "race_start = crowded_store (table_dec race_table)"

definition race_mid :: state_store where
  "race_mid = after_append (table_enc race_table) race_start (Apply ''k'' (Bool True))"

lemma race_start_facts:
  "apply_delta race_start ''k'' (Bool True) = [op_add ''/'' (Bool True)]"
  "entry_written race_start (Apply ''k'' (Bool True)) = race_table ! 0"
  "st_version race_start = 0" "value_of race_start ''x'' = Null"
  "st_plog race_start = Some (log_of (table_dec race_table) crowded_dir)"
  by (simp_all add: race_start_def crowded_store_def apply_delta_def store_get_def entry_written_def race_table_def
      value_of_def)

lemma race_mid_facts:
  "st_version race_mid = 1" "snapshot_entries race_mid = [race_table ! 2]"
  "entry_written race_mid (Apply ''x'' (Bool True)) = race_table ! 1"
  "snapshot_entries (mutate enc race_mid (Apply ''x'' (Bool True))) = [race_table ! 2, race_table ! 3]"
  by (simp_all add: race_mid_def after_append_def mutate_def race_start_def crowded_store_def snapshot_entries_def
      race_table_def entry_written_def apply_delta_def store_get_def)

lemma race_append:
  obtains lg where "log_append (table_enc race_table) (log_of (table_dec race_table) crowded_dir) (race_table ! 0) = (Inr (), lg)"
    "st_plog race_mid = Some lg" "segment_count lg = 4" "current_seg lg = 3"
proof -
  let ?lg = "log_of (table_dec race_table) crowded_dir" and ?e = "race_table ! 0"
  have "write_entry (table_enc race_table) ?e = Some (entry_bytes (table_enc race_table) ?e)"
    by (rule write_entry_ok [OF race_table_stored]) (simp add: race_table_def)
  then have app: "log_append (table_enc race_table) ?lg ?e =
      (Inr (), ?lg\<lparr>log_dir := append_bytes (log_dir ?lg) (writer ?lg) (entry_bytes (table_enc race_table) ?e),
                   entry_count := entry_count ?lg + 1\<rparr>)"
    by (simp add: log_append_def crowded_dir_ok(2,3) MAX_ENTRIES_PER_SEGMENT_def)
  show thesis
    by (rule that [OF app]) (simp_all add: race_mid_def after_append_def race_start_facts app crowded_log del: log_of_simps)
qed

theorem compaction_race_loses_write_witness:
  "\<exists>s2 lg2 s3. fst (run_schedule (table_enc race_table)
       (race_start, map thread_of [Apply ''k'' (Bool True), Apply ''x'' (Bool True)]) stale_schedule) = s2 \<and>
     st_plog s2 = Some lg2 \<and> value_of s2 ''x'' = Bool True \<and>
     store_open (table_dec race_table) (log_dir lg2) = Inr s3 \<and> value_of s3 ''x'' = Null"
proof -
  let ?enc = "table_enc race_table" and ?dec = "table_dec race_table"
  let ?m = "Apply ''k'' (Bool True)" and ?m' = "Apply ''x'' (Bool True)"
  have stored: "stored_ok ?enc ?dec (race_table ! i)" if "i < 4" for i
  proof (rule race_table_stored)
    have "length race_table = 4"
      by (simp add: race_table_def)
    with that show "race_table ! i \<in> set race_table"
      by simp
  qed
  obtain lg where lg: "log_append ?enc (log_of ?dec crowded_dir) (race_table ! 0) = (Inr (), lg)"
    "st_plog race_mid = Some lg" "segment_count lg = 4" "current_seg lg = 3"
    using race_append .
  have snap: "snapshot_entries (mutate enc race_start ?m) = [race_table ! 2]" for enc
    by (simp add: mutate_def race_start_def crowded_store_def snapshot_entries_def race_table_def)
  have first: "disk_mutation_ok ?enc ?dec race_start ?m"
    using stored by (simp add: disk_mutation_ok_def mutation_ok_def race_start_facts replicable_def snap crowded_dir_ok(2))
  have second: "disk_mutation_ok ?enc ?dec race_mid ?m'"
    using stored lg by (simp add: disk_mutation_ok_def mutation_ok_def race_mid_facts replicable_def)
  have due: "needs_compact (snd (log_append ?enc (log_of ?dec crowded_dir) (entry_written race_start ?m)))"
    using lg by (simp add: race_start_facts needs_compact_def MAX_SEGMENTS_BEFORE_COMPACT_def)
  have durable: "durable ?enc ?dec race_start" and ops: "apply_delta race_start ''k'' (Bool True) \<noteq> []"
    and room: "current_seg (log_of ?dec crowded_dir) + 6 < 2 ^ 64"
    and mid: "\<forall>e \<in> set (snapshot_entries race_mid). stored_ok ?enc ?dec e"
    using stored crowded_durable by (simp_all add: race_mid_facts race_start_facts crowded_dir_ok(2)) (simp add: race_start_def)
  obtain s2 lg2 s3 ts where "run_schedule ?enc (race_start, map thread_of [?m, ?m']) stale_schedule = (s2, ts)"
    "st_plog s2 = Some lg2" "store_get s2 ''x'' = Some \<lparr>e_version = st_version race_start + 2, e_value = Bool True\<rparr>"
    "store_open ?dec (log_dir lg2) = Inr s3" "value_of s3 ''x'' = value_of race_start ''x''"
    using compaction_race_loses_write [OF durable race_start_facts(5) _ ops first due second [unfolded race_mid_def]
        mid [unfolded race_mid_def] room] by auto
  then show ?thesis
    using race_start_facts(4) by (simp add: value_of_def)
qed

text \<open>One object written by two calls at once: afterwards there are three different values of it.\<close>

definition object_a :: json where
  "object_a = Object [(''a'', Null)]"

definition object_b :: json where
  "object_b = Object [(''b'', Null)]"

definition object_table :: "log_entry list" where
  "object_table =
     [\<lparr>le_version = 1, le_key = ''k'', le_ops = [op_add ''/'' (Object [])], le_value = Object []\<rparr>,
      \<lparr>le_version = 1, le_key = ''k'', le_ops = [], le_value = Object []\<rparr>,
      \<lparr>le_version = 2, le_key = ''k'', le_ops = [op_add ''/a'' Null], le_value = object_a\<rparr>,
      \<lparr>le_version = 3, le_key = ''k'', le_ops = [op_add ''/b'' Null], le_value = object_b\<rparr>]"

lemma object_table_stored:
  assumes "i < 4"
  shows "stored_ok (table_enc object_table) (table_dec object_table) (object_table ! i)"
proof -
  have "length object_table = 4"
    by (simp add: object_table_def)
  then have "object_table ! i \<in> set object_table"
    using assms by simp
  then show ?thesis
    by (auto simp: object_table_def object_a_def object_b_def stored_ok_def table_enc_def table_dec_def upt_rec)
qed

definition object_store :: state_store where
  "object_store = mutate (table_enc object_table) (fresh_store (table_dec object_table)) (Apply ''k'' (Object []))"

lemma object_diffs:
  "diff (Object []) object_a = [op_add ''/a'' Null]" "diff (Object []) object_b = [op_add ''/b'' Null]"
  "apply_ops (apply_ops (Object []) [op_add ''/b'' Null]) [op_add ''/a'' Null] = Object [(''a'', Null), (''b'', Null)]"
  by code_simp+

lemma object_store_facts:
  "store_get object_store ''k'' = Some \<lparr>e_version = 1, e_value = Object []\<rparr>" "st_version object_store = 1"
  "entry_at object_store (Apply ''k'' object_a) 2 = object_table ! 2"
  "entry_at object_store (Apply ''k'' object_b) 3 = object_table ! 3"
  by (simp_all add: object_store_def mutate_def store_get_apply fresh_store_def entry_at_def mutation_ops_def
      apply_delta_def object_table_def object_diffs)

lemma object_store_durable: "durable (table_enc object_table) (table_dec object_table) object_store"
proof -
  let ?s = "fresh_store (table_dec object_table)" and ?m = "Apply ''k'' (Object [])"
  have "entry_written ?s ?m = object_table ! 0" "snapshot_entries (mutate enc ?s ?m) = [object_table ! 1]" for enc
    by (simp_all add: entry_written_def fresh_store_def apply_delta_def store_get_def mutate_def snapshot_entries_def
        object_table_def)
  then have "disk_mutation_ok (table_enc object_table) (table_dec object_table) ?s ?m"
    using object_table_stored single_dir(2) [of "[]"]
    by (simp add: disk_mutation_ok_def mutation_ok_def replicable_def) (simp add: fresh_store_def bt_ok_def)
  then show ?thesis
    unfolding object_store_def by (rule durable_mutate [OF durable_fresh])
qed


lemma object_store_log:
  obtains lg where "st_plog object_store = Some lg" "\<not> needs_compact lg" "entry_count lg = 1"
proof -
  let ?enc = "table_enc object_table" and ?dec = "table_dec object_table"
  let ?s = "fresh_store ?dec\<lparr>st_version := 1, st_entries := [(''k'', \<lparr>e_version = 1, e_value = Object []\<rparr>)],
      st_log := dl_append [] ''k'' 1 [op_add ''/'' (Object [])]\<rparr>"
  have "object_store = persist ?enc ?s (object_table ! 0)"
    by (simp add: object_store_def mutate_def store_apply_def fresh_store_def store_get_def object_table_def Let_def)
  moreover have "st_plog ?s = Some (log_of ?dec [(segment_path 0, [])])"
    "log_ok ?enc ?dec (log_of ?dec [(segment_path 0, [])])" "entry_count (log_of ?dec [(segment_path 0, [])]) = 0"
    "\<not> needs_compact (log_of ?dec [(segment_path 0, [])])"
    using single_dir [of "[]" ?enc ?dec]
    by (simp_all add: fresh_store_def log_ok_log_of needs_compact_def MAX_SEGMENTS_BEFORE_COMPACT_def)
  ultimately show thesis
    using persist_append [of ?s _ ?enc ?dec "object_table ! 0"] object_table_stored [of 0] that
    by (metis MAX_ENTRIES_PER_SEGMENT_def add_0 zero_less_numeral)
qed

theorem same_key_race_diverges_witness:
  "\<exists>s1 lg1 s2. fst (run_schedule (table_enc object_table)
       (object_store, map thread_of [Apply ''k'' object_a, Apply ''k'' object_b]) overtaken_schedule) = s1 \<and>
     value_of s1 ''k'' = Object [(''a'', Null)] \<and>
     replay (value_of object_store ''k'') (deltas_since s1 ''k'' (st_version object_store)) =
       Object [(''a'', Null), (''b'', Null)] \<and>
     st_plog s1 = Some lg1 \<and> store_open (table_dec object_table) (log_dir lg1) = Inr s2 \<and>
     value_of s2 ''k'' = Object [(''b'', Null)]"
proof -
  let ?enc = "table_enc object_table" and ?dec = "table_dec object_table"
  obtain lg where lg: "st_plog object_store = Some lg" "\<not> needs_compact lg" "entry_count lg = 1"
    using object_store_log .
  have ops: "apply_delta object_store ''k'' object_a = [op_add ''/a'' Null]"
    "apply_delta object_store ''k'' object_b = [op_add ''/b'' Null]" "value_of object_store ''k'' = Object []"
    by (simp_all add: apply_delta_def object_store_facts object_diffs value_of_def)
  obtain s1 lg1 s2 ts where "run_schedule ?enc
      (object_store, map thread_of [Apply ''k'' object_a, Apply ''k'' object_b]) overtaken_schedule = (s1, ts)"
    "value_of s1 ''k'' = object_a"
    "replay (Object []) (deltas_since s1 ''k'' (st_version object_store)) =
       apply_ops (apply_ops (Object []) [op_add ''/b'' Null]) [op_add ''/a'' Null]"
    "st_plog s1 = Some lg1" "store_open ?dec (log_dir lg1) = Inr s2" "value_of s2 ''k'' = object_b"
    using same_key_race_diverges [OF object_store_durable lg(1), of "''k''" object_a object_b] ops lg
      object_table_stored [of 2] object_table_stored [of 3]
    by (auto simp: object_store_facts MAX_ENTRIES_PER_SEGMENT_def)
  then show ?thesis
    by (simp add: object_diffs ops object_a_def object_b_def)
qed


end
