(* ===== verification/Bench_Resume.thy ===== *)
theory Bench_Resume
  imports Bench_Stats Store_Races Replica_Sync
begin

section \<open>The benchmark program: its frames and the RESUME smoke test\<close>

text \<open>
  The frames the load generator of \<^verbatim>\<open>src/src/bin/bench.rs\<close> sends, and its smoke test of RESUME: after two
  writes a client has missed, it counts the DELTA frames up to STATE_INIT and compares the versions. The
  property of this theory runs that test against the model of the server.
\<close>

subsection \<open>Frames\<close>

definition bench_watch :: "string \<Rightarrow> frame" where
  "bench_watch key = \<lparr>frame_type = WATCH, stream_id = 0, seq = 0, body = json_obj [(''state'', String key)]\<rparr>"

definition bench_set :: "string \<Rightarrow> u64 \<Rightarrow> frame" where
  "bench_set key i =
     \<lparr>frame_type = CALL, stream_id = 0, seq = i,
      body = json_obj [(''call_id'', json_u64 i), (''method'', String ''state.set''),
        (''args'', json_obj [(''state'', String key), (''value'', test_object i)])]\<rparr>"

definition resume_value :: "u64 \<Rightarrow> json" where
  "resume_value n = json_obj [(''n'', json_u64 n)]"

definition resume_set :: "u64 \<Rightarrow> u64 \<Rightarrow> frame" where
  "resume_set sq n =
     \<lparr>frame_type = CALL, stream_id = 0, seq = sq,
      body = json_obj [(''call_id'', String (show_nat (unat sq))), (''method'', String ''state.set''),
        (''args'', json_obj [(''state'', String ''test.resume''), (''value'', resume_value n)])]\<rparr>"

definition resume_request :: "u64 \<Rightarrow> frame" where
  "resume_request v_c =
     \<lparr>frame_type = RESUME, stream_id = 0, seq = 0,
      body = json_obj [(''state'', String ''test.resume''), (''since_version'', json_u64 v_c)]\<rparr>"

definition result_version :: "frame option \<Rightarrow> u64" where
  "result_version answer =
     (case answer of
        None \<Rightarrow> 0
      | Some f \<Rightarrow>
          (case json_get (body f) ''data'' of
             None \<Rightarrow> 0
           | Some d \<Rightarrow> (case get_u64 d ''version'' of None \<Rightarrow> 0 | Some v \<Rightarrow> v)))"

subsection \<open>The smoke test\<close>

text \<open>At most \<open>n\<close> frames are read; \<^verbatim>\<open>None\<close> is a timeout or the end of the connection.\<close>

fun resume_collect :: "nat \<Rightarrow> py_in option list \<Rightarrow> u64 list \<times> u64" where
  "resume_collect (Suc n) (Some (PyDelta sid v ops) # ms) =
     (let (versions, final) = resume_collect n ms in (v # versions, final))"
| "resume_collect (Suc n) (Some (PyFrame f) # ms) =
     (if frame_type f = DELTA
      then let (versions, final) = resume_collect n ms
           in ((case get_u64 (body f) ''version'' of None \<Rightarrow> 0 | Some v \<Rightarrow> v) # versions, final)
      else if frame_type f = STATE_INIT then ([], case get_u64 (body f) ''version'' of None \<Rightarrow> 0 | Some v \<Rightarrow> v)
      else resume_collect n ms)"
| "resume_collect _ _ = ([], 0)"

definition resume_ok :: "u64 list \<times> u64 \<Rightarrow> u64 \<Rightarrow> bool" where
  "resume_ok = (\<lambda>(versions, final) v_e. length versions = 2 \<and> final = v_e)"

lemma resume_collect_deltas:
  "resume_collect (length ds + n) (map Some (map (\<lambda>d. PyDelta sid (fst d) (snd d)) ds) @ ms) =
     (map fst ds @ fst (resume_collect n ms), snd (resume_collect n ms))"
  by (induction ds) (simp_all add: split_def Let_def)

lemma state_init_version:
  "frame_type (state_init sid sq key version v i ps) = STATE_INIT"
  "get_u64 (body (state_init sid sq key version v i ps)) ''version'' = Some version"
  by (cases ps; simp add: state_init_def json_obj_def get_u64_def json_u64_def Let_def)+

text \<open>What the test reads from a server that grants the request.\<close>

lemma resume_reads:
  fixes sv :: server
  assumes "codec_ok x ddec" and "fst (take_watch_token now se)" and "may_read sv se ''test.resume''"
    and "\<not> net_dead (sv_net (fst (handle_resume x now h (resume_request v_c) (sv, se)))) h"
    and "store_get (sv_state sv) ''test.resume'' = Some e" and "0 < v_c"
    and "length (deltas_since (sv_state sv) ''test.resume'' v_c) < 10"
  shows "resume_collect 10 (map Some (inbox_of ddec (drop (length (net_carried (sv_net sv) h))
           (net_carried (sv_net (fst (handle_resume x now h (resume_request v_c) (sv, se)))) h)))) =
         (map fst (deltas_since (sv_state sv) ''test.resume'' v_c), e_version e)"
proof -
  let ?f = "resume_request v_c"
  have req: "get_str (body ?f) ''state'' = Some ''test.resume''" "since_of ?f = v_c"
    by (simp_all add: resume_request_def json_obj_def get_str_def since_of_def get_u64_def json_u64_def)
  let ?ds = "deltas_since (sv_state sv) ''test.resume'' v_c"
  have missed: "missed_of sv ''test.resume'' ?f = ?ds"
    using req(2) assms(6) by (simp add: missed_of_def)
  obtain n where n: "10 = length ?ds + Suc n"
    using assms(7) by (metis add_Suc_right less_imp_Suc_add)
  show ?thesis
    unfolding handle_resume_carried [OF assms(2) req(1) assms(3,4)] missed
    using resume_collect_deltas [of ?ds "Suc n"] assms(5)
    by (simp add: inbox_of_replay [OF assms(1)] inbox_of_simps init_frame_def n state_init_version frame_type_defs)
qed

text \<open>The store after the two writes the test makes while the client is away.\<close>

definition missed_writes :: "encoder \<Rightarrow> state_store \<Rightarrow> state_store" where
  "missed_writes enc s =
     snd (store_apply enc (snd (store_apply enc s ''test.resume'' (resume_value 4))) ''test.resume'' (resume_value 5))"

lemma resume_value_diffs:
  "diff (resume_value 3) (resume_value 4) \<noteq> []" "diff (resume_value 4) (resume_value 5) \<noteq> []"
  by code_simp+

lemma missed_writes_log:
  assumes "store_ok s" and "store_get s ''test.resume'' = Some e" and "e_value e = resume_value 3"
    and "unat (st_version s) + 2 < 2 ^ 64"
  shows "map fst (deltas_since (missed_writes enc s) ''test.resume'' (st_version s)) = [st_version s + 1, st_version s + 2]"
    and "st_version (missed_writes enc s) = st_version s + 2"
    and "\<exists>e'. store_get (missed_writes enc s) ''test.resume'' = Some e' \<and> e_version e' = st_version s + 2"
proof -
  have less: "st_version s < st_version s + 1" "st_version s < st_version s + 2"
    using assms(4) by (simp_all add: word_less_nat_alt unat_word_ariths)
  show "map fst (deltas_since (missed_writes enc s) ''test.resume'' (st_version s)) = [st_version s + 1, st_version s + 2]"
    using assms(2,3) resume_value_diffs deltas_two_new [OF assms(1) less]
    by (simp add: missed_writes_def store_apply_def Let_def deltas_since_def store_get_def update_conv' add.assoc)
  show "st_version (missed_writes enc s) = st_version s + 2"
    by (simp add: missed_writes_def store_apply_def Let_def add.assoc)
  show "\<exists>e'. store_get (missed_writes enc s) ''test.resume'' = Some e' \<and> e_version e' = st_version s + 2"
    by (simp add: missed_writes_def store_apply_def Let_def store_get_def update_conv' add.assoc)
qed



subsection \<open>Properties\<close>

text \<open>
  C28. The benchmark's RESUME smoke test passes. A client saw \<^verbatim>\<open>test.resume\<close> at the version \<open>v\<close> of the store, two writes of the
  test's values follow, and the session reconnects with \<^verbatim>\<open>since_version\<close> \<open>v\<close>, within its rate limit and allowed to read the key. If the
  connection keeps up, the frames the handler sends make the test collect the versions \<open>v + 1\<close> and \<open>v + 2\<close> and stop at a STATE_INIT
  with the version of the last write, which is the verdict PASS.
\<close>

theorem resume_smoke_test_passes:
  fixes sv :: server
  assumes "codec_ok x ddec" and "store_ok s" and "0 < st_version s" and "unat (st_version s) + 2 < 2 ^ 64"
    and "store_get s ''test.resume'' = Some e" and "e_value e = resume_value 3"
    and "sv_state sv = missed_writes enc s"
    and "fst (take_watch_token now se)" and "may_read sv se ''test.resume''"
    and "\<not> net_dead (sv_net (fst (handle_resume x now h (resume_request (st_version s)) (sv, se)))) h"
  shows "let collected = resume_collect 10 (map Some (inbox_of ddec (drop (length (net_carried (sv_net sv) h))
           (net_carried (sv_net (fst (handle_resume x now h (resume_request (st_version s)) (sv, se)))) h))))
         in fst collected = [st_version s + 1, st_version s + 2] \<and> resume_ok collected (st_version (sv_state sv))"
proof -
  note two = missed_writes_log [OF assms(2,5,6,4), of enc, folded assms(7)]
  obtain e' where e': "store_get (sv_state sv) ''test.resume'' = Some e'" "e_version e' = st_version s + 2"
    using two(3) by blast
  have "length (deltas_since (sv_state sv) ''test.resume'' (st_version s)) < 10"
    using arg_cong [OF two(1), of length] by simp
  from resume_reads [OF assms(1,8,9,10) e'(1) assms(3) this] two(1,2) e'(2) show ?thesis
    by (simp add: resume_ok_def map_eq_conv Let_def flip: length_map [of fst])
qed

definition third_write :: state_store where
  "third_write = snd (store_apply (\<lambda>_. None) store_new ''test.resume'' (resume_value 3))"

definition missed_server :: server where
  "missed_server = (demo_server None None)\<lparr>sv_state := missed_writes (\<lambda>_. None) third_write\<rparr>"

theorem resume_smoke_test_passes_witness:
  "let collected = resume_collect 10 (map Some (inbox_of sync_dec (net_carried
     (sv_net (fst (handle_resume sync_ext 0 0 (resume_request 1) (missed_server, demo_session ''a'')))) 0)))
   in fst collected = [2, 3] \<and> resume_ok collected 3"
proof -
  have s: "store_ok third_write"
    unfolding third_write_def
    by (rule store_ok_apply [OF store_ok_new]) (simp_all add: store_new_def resume_value_def json_obj_def json_u64_def bt_ok_def)
  have v: "st_version third_write = 1" "st_version (missed_writes (\<lambda>_. None) third_write) = 3"
    "store_get third_write ''test.resume'' = Some \<lparr>e_version = 1, e_value = resume_value 3\<rparr>"
    by code_simp+
  have l: "fst (take_watch_token 0 (demo_session ''a''))" "may_read missed_server (demo_session ''a'') ''test.resume''"
    "net_carried (sv_net missed_server) 0 = []"
    by code_simp+
  have alive: "\<not> net_dead (sv_net (fst (handle_resume x 0 0 (resume_request 1) (missed_server, demo_session ''a'')))) 0" for x
    by code_simp
  from resume_smoke_test_passes [OF sync_codec s _ _ v(3) _ _ l(1,2), of "\<lambda>_. None" 0] alive v l(3) show ?thesis
    by (simp add: missed_server_def Let_def)
qed


end
