(* ===== verification/Spec2Isabelle.thy ===== *)
theory Spec2Isabelle
  imports Client_Apply Json_Path Wire_Frame Session_State Schema_Check Access_Control State_Store Replica_Sync Value_Types
    Server_Boot Client_Calls Middleware Server_Races Store_Locks Bench_Runs Bench_Resume
begin

text \<open>
  \<^bold>\<open>A verification of the SODP server and its Python client.\<close>

  SODP (State-Oriented Data Protocol) is a server that keeps a JSON value per key and streams every change of a key, as a
  structural delta, to the clients that watch it. The development models the Rust server and its benchmark program in \<^verbatim>\<open>src/src\<close>, the Python
  client in \<^verbatim>\<open>src/sodp-py/src/sodp\<close> and the middleware crate in \<^verbatim>\<open>src/sodp-middleware/src\<close>, and proves what they
  promise each other.

  \<^bold>\<open>How the program works.\<close> A connection (\<^verbatim>\<open>server.rs\<close>, \<^verbatim>\<open>handle_connection\<close>) is admitted by \<^verbatim>\<open>listen\<close>,
  authenticates, and then handles frames one at a time. A CALL changes the store (\<^verbatim>\<open>state.rs\<close>), which computes the
  delta (\<^verbatim>\<open>delta.rs\<close>), keeps it for later RESUMEs and appends it to a segmented log on disk (\<^verbatim>\<open>log.rs\<close>). The delta
  goes to the other subscribers through the bus (\<^verbatim>\<open>fanout.rs\<close>) and their write handles (\<^verbatim>\<open>write_pool.rs\<close>), to
  the caller itself, and through Redis to other nodes (\<^verbatim>\<open>cluster.rs\<close>). Rate limits (\<^verbatim>\<open>session.rs\<close>),
  access control (\<^verbatim>\<open>acl.rs\<close>) and schemas (\<^verbatim>\<open>schema.rs\<close>) guard the way in.

  \<^bold>\<open>Theories and what they model.\<close>

  \<^item> \<^theory_text>\<open>SODP_Prelude\<close>: ordered maps as ascending association lists, the string functions of the Rust library the code
    calls, decimal numbers, machine words, and the interface locales \<open>keyed_map\<close>, \<open>inv_system\<close>, \<open>inv_relation\<close>.
  \<^item> \<^theory_text>\<open>Json_Value\<close>: \<^verbatim>\<open>serde_json::Value\<close> and its accessors.
  \<^item> \<^theory_text>\<open>Delta_Diff\<close> (\<^verbatim>\<open>delta.rs\<close>: \<^verbatim>\<open>diff\<close>, \<^verbatim>\<open>diff_at\<close>, \<^verbatim>\<open>join_path\<close>) and \<^theory_text>\<open>Client_Apply\<close>
    (\<^verbatim>\<open>delta.py\<close>: \<^verbatim>\<open>apply_ops\<close>): applying a diff gives the new value.
  \<^item> \<^theory_text>\<open>Json_Path\<close> (\<^verbatim>\<open>server.rs\<close>: \<^verbatim>\<open>json_set_in\<close>, \<^verbatim>\<open>json_remove_in\<close>, \<^verbatim>\<open>json_merge\<close>): each against a
    reading of paths, with everything off the path unchanged.
  \<^item> \<^theory_text>\<open>Wire_Frame\<close> (\<^verbatim>\<open>frame.rs\<close>): frames, their constructors, and the hand-written MessagePack of DELTA, read back.
  \<^item> \<^theory_text>\<open>Session_State\<close> (\<^verbatim>\<open>session.rs\<close>): sessions and the rate limiter, bounded through the locale \<open>window_limiter\<close>.
  \<^item> \<^theory_text>\<open>Schema_Check\<close> (\<^verbatim>\<open>schema.rs\<close>): the validator accepts exactly the values that conform, where null is no
    value of \<^verbatim>\<open>Any\<close>.
  \<^item> \<^theory_text>\<open>Access_Control\<close> (\<^verbatim>\<open>acl.rs\<close>): first match and default deny through the locale \<open>first_match\<close>, patterns
    against the reading in the comments of the code, which the specification document restricts further.
  \<^item> \<^theory_text>\<open>Segment_Log\<close> (\<^verbatim>\<open>log.rs\<close>): records, replay with truncation, rotation and compaction over a directory of byte
    files; a log cut at any byte reopens with exactly the complete records, and a record that does not decode ends the replay.
  \<^item> \<^theory_text>\<open>State_Store\<close> (\<^verbatim>\<open>state.rs\<close>): apply, delete, RESUME, restart and loading; refinement of a versioned map.
    \<^theory_text>\<open>Store_Threads\<close>: the same calls as threads that interleave between their critical sections (\<open>threads_step\<close>); calls on
    different keys linearise and reach the disk, and no two calls share a version. \<^theory_text>\<open>Store_Locks\<close>: the locks of those sections and
    the snapshot of a compaction shard by shard (\<open>locked_step\<close>); no deadlock, and linearisation again. \<^theory_text>\<open>Store_Races\<close>: the
    schedules that go wrong, a write during a compaction and two writes of one key.
  \<^item> \<^theory_text>\<open>Write_Pool\<close> (\<^verbatim>\<open>write_pool.rs\<close>): handles with back-pressure, the write task, and the wake-up protocol of the shared
    pool as a step relation under any interleaving of senders and workers, where the store that releases a handle may stay in the
    store buffer of its worker (the memory model of x86).
  \<^item> \<^theory_text>\<open>Fanout_Bus\<close> (\<^verbatim>\<open>fanout.rs\<close>): broadcast over the interface \<open>message_sink\<close> of the write handles.
  \<^item> \<^theory_text>\<open>Redis_Cluster\<close> (\<^verbatim>\<open>cluster.rs\<close>): synchronisation as commands to Redis and messages from it.
  \<^item> \<^theory_text>\<open>Sodp_Server\<close> (\<^verbatim>\<open>server.rs\<close>): \<^verbatim>\<open>handle_frame\<close> and all its handlers; \<^theory_text>\<open>Server_Safety\<close>: who gets a
    subscription, what a call and a RESUME are answered.
  \<^item> \<^theory_text>\<open>Server_Connection\<close> (\<^verbatim>\<open>server.rs\<close>): configuration, token validation, handshake, event loop, clean-up, admission.
  \<^item> \<^theory_text>\<open>Server_System\<close>: the running server, all connections interleaved, as the step relation \<open>sys_step\<close>, with its invariant.
    \<^theory_text>\<open>Server_Writes\<close>: only authorised writes. \<^theory_text>\<open>Value_Types\<close>: stored values stay well-formed.
  \<^item> \<^theory_text>\<open>Server_Boot\<close> (\<^verbatim>\<open>main.rs\<close>): the start of the process and the restart of the whole server.
  \<^item> \<^theory_text>\<open>Python_Client\<close> (\<^verbatim>\<open>client.py\<close>): the client's state, frame handlers, calls, watches and reconnect loop.
  \<^item> \<^theory_text>\<open>Client_Calls\<close>: calls from the client to the server and back. \<^theory_text>\<open>Replica_Sync\<close>: the client's copy equals the
    server's value in every state reached by handling frames one at a time. \<^theory_text>\<open>Server_Races\<close>: two handlers at once, a subscription against a writer
    (\<open>watch_step\<close>) and calls that edit one key (\<open>edit_step\<close>).
  \<^item> \<^theory_text>\<open>Middleware\<close>: the access control and the limiter of the middleware crate, a second interpretation of \<open>first_match\<close> and
    \<open>window_limiter\<close>.
  \<^item> \<^theory_text>\<open>Bench_Stats\<close>, \<^theory_text>\<open>Bench_Runs\<close> and \<^theory_text>\<open>Bench_Resume\<close> (\<^verbatim>\<open>bin/bench.rs\<close>): the statistics, the measurement loops over what
    clocks and sockets returned, the order of the runs; percentiles, winners and the distribution of subscriptions are right, event streams are
    split correctly however they are cut, and the RESUME smoke test passes against the model of the server.

  \<^bold>\<open>How state and operations correspond.\<close> A struct is a record with a field per field, an enum a datatype, a method a function
  from the old state to the result and the new state. \<^verbatim>\<open>u32\<close> and \<^verbatim>\<open>u64\<close> are words, so counters wrap as in the code.
  Strings are their UTF-8 bytes. \<^verbatim>\<open>Result\<close> is a sum, with the error on the left. A \<^verbatim>\<open>DashMap\<close> is an association list,
  an \<^verbatim>\<open>f64\<close> a rational number. Time is an argument. A server frame handler works on the pair of the shared server and the
  session. In \<open>sys_step\<close> handlers of different connections interleave at whole frames, an abstraction of the multi-threaded
  runtime: in the code two handlers can also interleave between the locks they take. \<open>threads_step\<close>, \<open>locked_step\<close>,
  \<open>watch_step\<close> and \<open>edit_step\<close> open the operations of the store, the subscription of a key and the calls at that level. What is
  proved over \<open>sys_step\<close> holds of runs in which no handler is interrupted between its accesses to shared state.

  \<^bold>\<open>Code outside the repository\<close> is a parameter: MessagePack and JSON codecs, the JWT decoder and the RSA key parser (record
  \<^verbatim>\<open>externals\<close>), Redis, sockets, files. What a theorem needs of them is a hypothesis, for instance that an encoded delta
  decodes to itself (\<open>codec_ok\<close>) or that a record written to the log is read back (\<open>stored_ok\<close>), and each such theorem has a
  witness with a concrete instance. The MessagePack encoding of the program satisfies \<open>stored_ok\<close> for records without REMOVE
  operations only, because \<^verbatim>\<open>DeltaOp\<close> leaves a missing value out of its array; what becomes of the others is a theorem of its own.
  Of \<^verbatim>\<open>DashMap\<close> the shards of the keys are parameters.

  \<^bold>\<open>Termination, fuel and bounds.\<close> There is no fuel. Loops over finite data are total functions; \<^verbatim>\<open>replay_segment\<close> ends because
  every record read shortens the rest, \<^verbatim>\<open>glob_match\<close> because the pattern shrinks. Loops that wait for events are functions of the
  list of events, or step relations. The bounds of the code appear as they are: 1000 deltas per key, the segment and compaction
  limits, the ten frames the smoke test reads, the 32-bit stream numbers (\<open>room\<close>: each session has numbers left for the largest frame), the 64-bit version counter.

  \<^bold>\<open>What fails.\<close> Some theorems show what the code does against its intention: keys with slashes make replicas diverge, a
  removal loses all later writes of its segment at the next restart, because its record does not decode (if it did, a
  deleted key would be live with null), \<^verbatim>\<open>Any\<close> rejects null, \<^verbatim>\<open>{sub}\<close> in a pattern matches every segment, the release of a pool handle can lose a wake-up, a RESUME past the retained deltas has
  a silent gap, presence clean-up can break the schema, a re-watched key may never be subscribed, an ERROR of a WATCH rejects a
  call, a write that falls into a compaction is lost at the next restart, two concurrent writes of one key leave live value,
  deltas and disk in disagreement, a STATE_INIT can overtake a delta and leave a client with the old value, concurrent nested writes lose one,
  a report of the benchmark overstates the winner and late receipts count in the wrong round, and in the middleware a star as subject is a wildcard and some keys make the matcher panic.

  \<^bold>\<open>Not modelled.\<close> Metrics and tracing (no effect on behaviour); the TLS, TCP and web-socket layers and the Prometheus recorder
  (libraries); signals; I/O errors of the log other than missing or existing files; interleavings inside a handler other than
  those of \<open>Store_Threads\<close>, \<open>Store_Locks\<close>, \<open>Store_Races\<close> and \<open>Server_Races\<close>; memory orders weaker than those of x86; of the
  benchmark program the start of its servers and connections, the formatting of fractions and the layout of its tables, and the micro-benchmarks in
  \<^verbatim>\<open>benches\<close>, which only call library functions under a timer; the ports to TypeScript, Go and Java, which are separate programs.
\<close>

end
